(* ===== verification/Prelude.thy ===== *)
theory Prelude
  imports Main "HOL-Library.Word" "HOL-Library.Multiset"
begin

text \<open>
  Shared vocabulary of the development: the machine types of the Go code, Go error values,
  results as sums, the big-endian helpers of the standard package encoding/binary, and the
  generic list, map and word lemmas the component theories use.
\<close>

unbundle bit_operations_syntax

named_theorems result_simps \<open>case rules for fallible steps\<close>
named_theorems byte_simps \<open>facts on byte strings and fixed-width encodings\<close>

type_synonym byte = "8 word"
type_synonym bytes = "8 word list"
type_synonym u64 = "64 word"

section \<open>Go error values\<close>

text \<open>
  A Go error is a package-level sentinel (io.EOF, store.ErrNotFound, ...), a message built by
  errors.New or fmt.Errorf, or a wrapping built by fmt.Errorf with the verb \<open>%w\<close>. A message is
  identified by its format string. A run-time panic is carried as an error value too, because it
  aborts the call that raised it.
\<close>

datatype gerror =
    Sentinel string
  | Msg string
  | Wrap string gerror
  | Panic string

definition io_EOF :: gerror where "io_EOF = Sentinel ''EOF''"

definition db_ErrNotFound :: gerror where "db_ErrNotFound = Sentinel ''db: key not found''"

text \<open>errors.Is follows the chain of wrapped errors.\<close>

fun errors_Is :: "gerror \<Rightarrow> gerror \<Rightarrow> bool" where
  "errors_Is (Wrap s e) t = (Wrap s e = t \<or> errors_Is e t)"
| "errors_Is e t = (e = t)"

lemma errors_Is_refl [simp]: "errors_Is e e"
  by (cases e) auto

type_synonym 'a result = "gerror + 'a"

fun is_ok :: "'e + 'a \<Rightarrow> bool" where
  "is_ok (Inl e) = False"
| "is_ok (Inr x) = True"

lemma is_ok_iff: "is_ok r \<longleftrightarrow> (\<exists>x. r = Inr x)"
  by (cases r) auto

lemma sum_case_Inr [result_simps]:
  "(case r of Inl e \<Rightarrow> Inl e | Inr x \<Rightarrow> f x) = Inr y \<longleftrightarrow> (\<exists>x. r = Inr x \<and> f x = Inr y)"
  by (cases r) auto

section \<open>encoding/binary, big endian\<close>

text \<open>binary.BigEndian.PutUint64 and binary.BigEndian.Uint64 (the latter panics below 8 bytes).\<close>

definition PutUint64 :: "u64 \<Rightarrow> bytes" where
  "PutUint64 v =
     [ucast (drop_bit 56 v), ucast (drop_bit 48 v), ucast (drop_bit 40 v), ucast (drop_bit 32 v),
      ucast (drop_bit 24 v), ucast (drop_bit 16 v), ucast (drop_bit 8 v), ucast v]"

fun Uint64 :: "bytes \<Rightarrow> u64" where
  "Uint64 (b0 # b1 # b2 # b3 # b4 # b5 # b6 # b7 # bs) =
     ucast b7 OR push_bit 8 (ucast b6) OR push_bit 16 (ucast b5) OR push_bit 24 (ucast b4) OR
     push_bit 32 (ucast b3) OR push_bit 40 (ucast b2) OR push_bit 48 (ucast b1) OR
     push_bit 56 (ucast b0)"
| "Uint64 bs = 0"

lemma length_PutUint64 [simp, byte_simps]: "length (PutUint64 v) = 8"
  by (simp add: PutUint64_def)

lemma ucast_byte: "(ucast (ucast (x :: u64) :: byte) :: u64) = take_bit 8 x"
  by (intro bit_word_eqI) (auto simp: bit_ucast_iff bit_take_bit_iff)

lemma split_low_byte: "take_bit 8 (x :: u64) OR push_bit 8 (drop_bit 8 x) = x"
proof (rule bit_word_eqI)
  fix n
  show "bit (take_bit 8 x OR push_bit 8 (drop_bit 8 x)) n = bit x n" if "n < LENGTH(64)"
    using that
    by (cases "n < 8") (simp_all add: bit_or_iff bit_take_bit_iff bit_push_bit_iff bit_drop_bit_eq)
qed

lemma push_low_byte:
  "push_bit k (take_bit 8 (drop_bit k (x :: u64))) OR push_bit (k + 8) (drop_bit (k + 8) x) =
   push_bit k (drop_bit k x)"
  using arg_cong [OF split_low_byte [of "drop_bit k x"], of "push_bit k"]
  by (simp add: ac_simps)

lemma top_byte: "take_bit 8 (drop_bit 56 (x :: u64)) = drop_bit 56 x"
  by (intro bit_word_eqI) (auto simp: bit_take_bit_iff bit_drop_bit_eq dest: bit_imp_le_length)

lemma Uint64_PutUint64 [simp, byte_simps]: "Uint64 (PutUint64 v) = v"
  using split_low_byte [of v] push_low_byte [of 8 v] push_low_byte [of 16 v]
    push_low_byte [of 24 v] push_low_byte [of 32 v] push_low_byte [of 40 v]
    push_low_byte [of 48 v]
  by (simp add: PutUint64_def ucast_byte top_byte or.assoc)

lemma PutUint64_Uint64: "length bs = 8 \<Longrightarrow> PutUint64 (Uint64 bs) = bs"
proof -
  have inj: "inj PutUint64" by (rule inj_on_inverseI [where g = Uint64]) simp
  have fin: "finite {bs :: bytes. length bs = 8}"
    using finite_lists_length_eq [of "UNIV :: byte set" 8] by simp
  have "card (range PutUint64) = card (UNIV :: u64 set)"
    using inj by (rule card_image)
  also have "\<dots> = card {bs :: bytes. length bs = 8}"
    using card_lists_length_eq [of "UNIV :: byte set" 8] by (simp add: card_word)
  finally have "range PutUint64 = {bs. length bs = 8}"
    using fin by (intro card_subset_eq) auto
  moreover assume "length bs = 8"
  ultimately obtain v where "bs = PutUint64 v" by auto
  then show ?thesis by simp
qed

section \<open>Strings and byte slices\<close>

text \<open>The conversions \<open>[]byte(s)\<close> and \<open>string(b)\<close>; a Go string is a byte string.\<close>

definition byte_of_char :: "char \<Rightarrow> byte" where
  "byte_of_char c = word_of_nat (of_char c)"

definition char_of_byte :: "byte \<Rightarrow> char" where
  "char_of_byte b = char_of (unat b)"

definition bytes_of_string :: "string \<Rightarrow> bytes" where
  "bytes_of_string s = map byte_of_char s"

definition string_of_bytes :: "bytes \<Rightarrow> string" where
  "string_of_bytes bs = map char_of_byte bs"

lemma char_of_byte_of_char [simp, byte_simps]: "char_of_byte (byte_of_char c) = c"
  by (simp add: char_of_byte_def byte_of_char_def unat_of_nat)

lemma byte_of_char_of_byte [simp, byte_simps]: "byte_of_char (char_of_byte b) = b"
proof -
  have "unat b < 256" using unsigned_less [of b] by simp
  then show ?thesis by (simp add: char_of_byte_def byte_of_char_def)
qed

lemma string_of_bytes_of_string [simp, byte_simps]: "string_of_bytes (bytes_of_string s) = s"
  by (simp add: string_of_bytes_def bytes_of_string_def comp_def)

lemma bytes_of_string_of_bytes [simp, byte_simps]: "bytes_of_string (string_of_bytes bs) = bs"
  by (simp add: string_of_bytes_def bytes_of_string_def comp_def)

lemma inj_bytes_of_string: "inj bytes_of_string"
  by (rule inj_on_inverseI [where g = string_of_bytes]) simp

lemma bytes_of_string_append [simp]:
  "bytes_of_string (s @ t) = bytes_of_string s @ bytes_of_string t"
  by (simp add: bytes_of_string_def)

section \<open>Slices\<close>

text \<open>The slice expression \<open>a[i:j]\<close> for \<open>i \<le> j \<le> len(a)\<close>.\<close>

definition slice :: "'a list \<Rightarrow> nat \<Rightarrow> nat \<Rightarrow> 'a list" where
  "slice a i j = take (j - i) (drop i a)"

lemma length_slice [simp]: "i \<le> j \<Longrightarrow> j \<le> length a \<Longrightarrow> length (slice a i j) = j - i"
  by (simp add: slice_def)

lemma slice_same [simp]: "slice a i i = []"
  by (simp add: slice_def)

lemma slice_append_slice:
  assumes "i \<le> k" "k \<le> j"
  shows "slice a i k @ slice a k j = slice a i j"
proof -
  have "take (k - i + (j - k)) (drop i a) = take (k - i) (drop i a) @ take (j - k) (drop k a)"
    using assms(1) by (simp only: take_add drop_drop le_add_diff_inverse2)
  with assms show ?thesis by (simp add: slice_def)
qed

lemma nth_slice: "k < j - i \<Longrightarrow> j \<le> length a \<Longrightarrow> slice a i j ! k = a ! (i + k)"
  by (simp add: slice_def)

section \<open>Grouping a list\<close>

text \<open>Consecutive groups of \<open>n\<close> elements, the last one possibly shorter.\<close>

function groups_of :: "nat \<Rightarrow> 'a list \<Rightarrow> 'a list list" where
  "groups_of n xs = (if xs = [] \<or> n = 0 then [] else take n xs # groups_of n (drop n xs))"
  by pat_completeness auto
termination
  by (relation "measure (\<lambda>(n, xs). length xs)") auto

declare groups_of.simps [simp del]

lemma groups_of_Nil [simp]: "groups_of n [] = []"
  by (simp add: groups_of.simps)

lemma groups_of_concat: "0 < n \<Longrightarrow> concat (groups_of n xs) = xs"
  by (induction n xs rule: groups_of.induct) (subst groups_of.simps, simp)

lemma groups_of_mem: "0 < n \<Longrightarrow> g \<in> set (groups_of n xs) \<Longrightarrow> x \<in> set g \<Longrightarrow> x \<in> set xs"
  using groups_of_concat [of n xs] by (metis UN_I set_concat)

lemma groups_of_lengths:
  "d \<in> set (groups_of n xs) \<Longrightarrow> d \<noteq> [] \<and> length d \<le> n"
proof (induction n xs rule: groups_of.induct)
  case (1 n xs)
  then show ?case by (auto simp: groups_of.simps [of n xs] split: if_splits)
qed

lemma groups_of_full:
  "Suc i < length (groups_of n xs) \<Longrightarrow> length (groups_of n xs ! i) = n"
proof (induction n xs arbitrary: i rule: groups_of.induct)
  case (1 n xs)
  have ne: "\<not> (xs = [] \<or> n = 0)"
    using "1.prems" by (auto simp: groups_of.simps [of n xs] split: if_splits)
  then have eq: "groups_of n xs = take n xs # groups_of n (drop n xs)"
    by (subst groups_of.simps) simp
  show ?case
  proof (cases i)
    case 0
    have "drop n xs \<noteq> []" using "1.prems" eq 0 by auto
    with 0 eq show ?thesis by simp
  next
    case (Suc j)
    with "1.IH" [OF ne, of j] "1.prems" eq show ?thesis by simp
  qed
qed

lemma groups_of_short: "xs \<noteq> [] \<Longrightarrow> length xs \<le> n \<Longrightarrow> groups_of n xs = [xs]"
  by (cases "n = 0") (simp_all add: groups_of.simps [of n xs])

lemma groups_of_append:
  "0 < n \<Longrightarrow> n dvd length xs \<Longrightarrow> groups_of n (xs @ ys) = groups_of n xs @ groups_of n ys"
proof (induction n xs rule: groups_of.induct)
  case (1 n xs)
  show ?case
  proof (cases "xs = []")
    case False
    then have le: "n \<le> length xs" using "1.prems" by (simp add: dvd_imp_le)
    then have "n dvd length (drop n xs)" using "1.prems" by simp
    with "1.IH" "1.prems"(1) False
    have "groups_of n (drop n xs @ ys) = groups_of n (drop n xs) @ groups_of n ys" by simp
    with le False "1.prems"(1) show ?thesis
      by (simp add: groups_of.simps [of n "xs @ ys"] groups_of.simps [of n xs])
  qed simp
qed

lemma length_groups_of_dvd:
  "0 < n \<Longrightarrow> n dvd length xs \<Longrightarrow> length (groups_of n xs) * n = length xs"
proof (induction n xs rule: groups_of.induct)
  case (1 n xs)
  show ?case
  proof (cases "xs = []")
    case False
    then have le: "n \<le> length xs" using "1.prems" by (simp add: dvd_imp_le)
    with "1.prems" have "n dvd length (drop n xs)" by simp
    with "1.IH" "1.prems"(1) False have "length (groups_of n (drop n xs)) * n = length xs - n"
      by simp
    with le False "1.prems"(1) show ?thesis by (simp add: groups_of.simps [of n xs])
  qed simp
qed

lemma length_groups_of_le: "length (groups_of n xs) \<le> length xs"
proof (induction n xs rule: groups_of.induct)
  case (1 n xs)
  show ?case
  proof (cases "xs = [] \<or> n = 0")
    case False
    with "1.IH" have "length (groups_of n (drop n xs)) \<le> length xs - n" by simp
    moreover have "0 < length xs" "0 < n" using False by simp_all
    ultimately have "Suc (length (groups_of n (drop n xs))) \<le> length xs" by linarith
    with False show ?thesis by (simp add: groups_of.simps [of n xs])
  qed (simp add: groups_of.simps [of n xs])
qed

lemma length_groups_of_less:
  assumes "Suc 0 < n" "Suc 0 < length xs"
  shows "length (groups_of n xs) < length xs"
proof -
  have "length (groups_of n (drop n xs)) \<le> length xs - n"
    using length_groups_of_le [of n "drop n xs"] by simp
  moreover have "length (groups_of n xs) = Suc (length (groups_of n (drop n xs)))"
    using assms by (auto simp: groups_of.simps [of n xs])
  ultimately show ?thesis using assms by linarith
qed

end
