(* ===== verification/Mid.thy ===== *)
theory Mid
  imports Sha256
begin

text \<open>
  core/mid/mid.go: the Membuss content identifier. A MID wraps a multihash envelope and a codec as
  a CIDv1 and caches its public string. The packages go-multihash and go-cid are not part of the
  repository: the operations the code calls are the fields of the record \<open>hashlib\<close>, an argument of
  every definition that uses them, and \<open>hashlib_ok\<close> names their documented behaviour.
\<close>

section \<open>The multihash and cid packages\<close>

record decoded_multihash =
  dm_Code :: u64
  dm_Length :: nat
  dm_Digest :: bytes

text \<open>What the accessors Version, Prefix().Codec and Hash of a parsed cid.Cid return.\<close>

record cid =
  c_version :: u64
  c_codec :: u64
  c_hash :: bytes

definition NewCidV1 :: "u64 \<Rightarrow> bytes \<Rightarrow> cid" where
  "NewCidV1 codec mh = \<lparr>c_version = 1, c_codec = codec, c_hash = mh\<rparr>"

record hashlib =
  mh_Sum :: "bytes \<Rightarrow> u64 \<Rightarrow> bytes option"
  mh_Decode :: "bytes \<Rightarrow> decoded_multihash option"
  mh_Encode :: "bytes \<Rightarrow> u64 \<Rightarrow> bytes option"
  cid_String :: "cid \<Rightarrow> string"
  cid_Decode :: "string \<Rightarrow> cid option"

section \<open>Constants and the default algorithm\<close>

definition Prefix :: string where "Prefix = ''mem''"
definition cidVersion1 :: byte where "cidVersion1 = 1"
definition CodecRaw :: u64 where "CodecRaw = 0x55"
definition CodecDAGPB :: u64 where "CodecDAGPB = 0x70"
definition CodecMemFS :: u64 where "CodecMemFS = 0x72"

definition mh_BLAKE3 :: u64 where "mh_BLAKE3 = 0x1e"
definition mh_SHA2_256 :: u64 where "mh_SHA2_256 = 0x12"
definition mh_SHA2_512 :: u64 where "mh_SHA2_512 = 0x13"
definition mh_KECCAK_256 :: u64 where "mh_KECCAK_256 = 0x1b"
definition mh_SHAKE_256 :: u64 where "mh_SHAKE_256 = 0x19"

definition isSupportedHash :: "u64 \<Rightarrow> bool" where
  "isSupportedHash code =
     (code = mh_BLAKE3 \<or> code = mh_SHA2_256 \<or> code = mh_SHA2_512 \<or>
      code = mh_KECCAK_256 \<or> code = mh_SHAKE_256)"

text \<open>The package variable defaultHashAlg is passed explicitly.\<close>

definition SetDefaultHash :: "u64 \<Rightarrow> u64 \<Rightarrow> gerror option \<times> u64" where
  "SetDefaultHash code defaultHashAlg =
     (if \<not> isSupportedHash code
      then (Some (Msg ''mid: unsupported hash algorithm code''), defaultHashAlg)
      else (None, code))"

text \<open>strings.ToLower and strings.TrimSpace on ASCII names, the only ones SetDefaultHashByName knows.\<close>

definition ascii_lower :: "string \<Rightarrow> string" where
  "ascii_lower s = map (\<lambda>c. if 65 \<le> (of_char c :: nat) \<and> (of_char c :: nat) \<le> 90
     then char_of (of_char c + 32 :: nat) else c) s"

definition ascii_space :: "char \<Rightarrow> bool" where
  "ascii_space c = ((of_char c :: nat) = 32 \<or> 9 \<le> (of_char c :: nat) \<and> (of_char c :: nat) \<le> 13)"

definition ascii_trim :: "string \<Rightarrow> string" where
  "ascii_trim s = rev (dropWhile ascii_space (rev (dropWhile ascii_space s)))"

definition SetDefaultHashByName :: "string \<Rightarrow> u64 \<Rightarrow> gerror option \<times> u64" where
  "SetDefaultHashByName name defaultHashAlg =
     (let n = ascii_lower (ascii_trim name)
      in if n \<in> {''blake3'', ''blake3-256'', ''blake''} then SetDefaultHash mh_BLAKE3 defaultHashAlg
         else if n \<in> {''sha256'', ''sha2-256''} then SetDefaultHash mh_SHA2_256 defaultHashAlg
         else if n \<in> {''sha512'', ''sha2-512''} then SetDefaultHash mh_SHA2_512 defaultHashAlg
         else (Some (Msg ''mid: unknown hash algorithm name''), defaultHashAlg))"

section \<open>MID values\<close>

record MID =
  m_Version :: byte
  m_codec :: u64
  m_Hash :: bytes
  m_cid :: cid
  m_str :: string

definition MID_zero :: MID where
  "MID_zero = \<lparr>m_Version = 0, m_codec = 0, m_Hash = [],
     m_cid = \<lparr>c_version = 0, c_codec = 0, c_hash = []\<rparr>, m_str = []\<rparr>"

definition IsZero :: "MID \<Rightarrow> bool" where
  "IsZero m = (length (m_Hash m) = 0)"

definition validateEnvelope :: "hashlib \<Rightarrow> bytes \<Rightarrow> unit result" where
  "validateEnvelope L mh =
     (if length mh = 0 then Inl (Msg ''empty multihash'')
      else case mh_Decode L mh of
        None \<Rightarrow> Inl (Wrap ''decode'' (Msg ''multihash''))
      | Some d \<Rightarrow>
          if \<not> isSupportedHash (dm_Code d) then Inl (Msg ''unsupported hash code'')
          else if length (dm_Digest d) \<noteq> dm_Length d then Inl (Msg ''length mismatch'')
          else Inr ())"

definition build :: "hashlib \<Rightarrow> byte \<Rightarrow> u64 \<Rightarrow> bytes \<Rightarrow> MID result" where
  "build L version codec mh =
     (if version \<noteq> cidVersion1 then Inl (Msg ''mid: unsupported CID version'')
      else let c = NewCidV1 codec mh
           in Inr \<lparr>m_Version = version, m_codec = codec, m_Hash = mh, m_cid = c,
                   m_str = Prefix @ cid_String L c\<rparr>)"

definition fromCodecAndHashErr :: "hashlib \<Rightarrow> byte \<Rightarrow> u64 \<Rightarrow> bytes \<Rightarrow> MID result" where
  "fromCodecAndHashErr L version codec mh =
     (if length mh = 0 then Inl (Msg ''mid: empty multihash'')
      else case mh_Decode L mh of
        None \<Rightarrow> Inl (Wrap ''mid: decode multihash'' (Msg ''multihash''))
      | Some _ \<Rightarrow>
          (case validateEnvelope L mh of
             Inl e \<Rightarrow> Inl (Wrap ''mid: validate multihash'' e)
           | Inr _ \<Rightarrow> build L version codec mh))"

definition FromMultihash :: "hashlib \<Rightarrow> u64 \<Rightarrow> bytes \<Rightarrow> MID result" where
  "FromMultihash L codec mh = fromCodecAndHashErr L cidVersion1 codec mh"

text \<open>FromCodecAndHash panics where the other constructor returns an error.\<close>

definition FromCodecAndHash :: "hashlib \<Rightarrow> byte \<Rightarrow> u64 \<Rightarrow> bytes \<Rightarrow> MID result" where
  "FromCodecAndHash L version codec mh =
     (case fromCodecAndHashErr L version codec mh of
        Inl e \<Rightarrow> Inl (Panic ''mid.FromCodecAndHash'')
      | Inr m \<Rightarrow> Inr m)"

definition FromBytesWithCodecAndHash :: "hashlib \<Rightarrow> bytes \<Rightarrow> u64 \<Rightarrow> u64 \<Rightarrow> MID result" where
  "FromBytesWithCodecAndHash L data codec hashAlg =
     (case mh_Sum L data hashAlg of
        None \<Rightarrow> Inl (Wrap ''mid: sum multihash algorithm'' (Msg ''multihash''))
      | Some mh \<Rightarrow> fromCodecAndHashErr L cidVersion1 codec mh)"

definition FromBytesWithHash :: "hashlib \<Rightarrow> bytes \<Rightarrow> u64 \<Rightarrow> MID result" where
  "FromBytesWithHash L data hashAlg = FromBytesWithCodecAndHash L data CodecRaw hashAlg"

text \<open>
  The fallback: SHA-256 through multihash.Encode, whose error is ignored (the envelope is then
  the nil slice), and the panicking constructor.
\<close>

definition sha_fallback :: "hashlib \<Rightarrow> bytes \<Rightarrow> u64 \<Rightarrow> MID result" where
  "sha_fallback L data codec =
     (let mh = (case mh_Encode L (Sum256 data) mh_SHA2_256 of None \<Rightarrow> [] | Some mh \<Rightarrow> mh)
      in FromCodecAndHash L cidVersion1 codec mh)"

definition FromBytes :: "hashlib \<Rightarrow> u64 \<Rightarrow> bytes \<Rightarrow> MID result" where
  "FromBytes L alg data =
     (case FromBytesWithCodecAndHash L data CodecRaw alg of
        Inl _ \<Rightarrow> sha_fallback L data CodecRaw
      | Inr m \<Rightarrow> Inr m)"

definition FromBytesWithCodec :: "hashlib \<Rightarrow> u64 \<Rightarrow> bytes \<Rightarrow> u64 \<Rightarrow> MID result" where
  "FromBytesWithCodec L alg data codec =
     (case FromBytesWithCodecAndHash L data codec alg of
        Inl _ \<Rightarrow> sha_fallback L data codec
      | Inr m \<Rightarrow> Inr m)"

section \<open>Strings\<close>

definition HasPrefix :: "string \<Rightarrow> string \<Rightarrow> bool" where
  "HasPrefix s p = (take (length p) s = p)"

definition TrimPrefix :: "string \<Rightarrow> string \<Rightarrow> string" where
  "TrimPrefix s p = (if HasPrefix s p then drop (length p) s else s)"

definition Parse :: "hashlib \<Rightarrow> string \<Rightarrow> MID result" where
  "Parse L s =
     (if \<not> HasPrefix s Prefix then Inl (Msg ''mid: missing prefix'')
      else let encoded = TrimPrefix s Prefix
        in if encoded = [] then Inl (Msg ''mid: empty encoded body'')
        else case cid_Decode L encoded of
          None \<Rightarrow> Inl (Msg ''mid: invalid encoded multihash'')
        | Some parsed \<Rightarrow>
            if c_version parsed \<noteq> ucast cidVersion1 then Inl (Msg ''mid: unsupported version'')
            else (case validateEnvelope L (c_hash parsed) of
                Inl e \<Rightarrow> Inl (Wrap ''mid: invalid multihash envelope'' e)
              | Inr _ \<Rightarrow>
                  let formatted = Prefix @ cid_String L parsed;
                      st = (if s \<noteq> formatted then formatted else s)
                  in Inr \<lparr>m_Version = ucast (c_version parsed), m_codec = c_codec parsed,
                          m_Hash = c_hash parsed, m_cid = parsed, m_str = st\<rparr>))"

definition MustParse :: "hashlib \<Rightarrow> string \<Rightarrow> MID result" where
  "MustParse L s = (case Parse L s of Inl e \<Rightarrow> Inl (Panic ''mid.MustParse'') | Inr m \<Rightarrow> Inr m)"

definition MID_String :: "hashlib \<Rightarrow> MID \<Rightarrow> string" where
  "MID_String L m =
     (if m_str m \<noteq> [] then m_str m
      else if length (m_Hash m) = 0 then []
      else Prefix @ cid_String L (NewCidV1 (m_codec m) (m_Hash m)))"

definition DigestBytes :: "hashlib \<Rightarrow> MID \<Rightarrow> bytes result" where
  "DigestBytes L m =
     (case mh_Decode L (m_Hash m) of
        None \<Rightarrow> Inl (Wrap ''mid: decode multihash'' (Msg ''multihash''))
      | Some d \<Rightarrow> Inr (dm_Digest d))"

definition MID_Equal :: "MID \<Rightarrow> MID \<Rightarrow> bool" where
  "MID_Equal m other = (if m_codec m \<noteq> m_codec other then False else m_Hash m = m_Hash other)"

section \<open>What the hash and cid packages promise\<close>

text \<open>
  The five supported algorithms are registered, so Sum succeeds on them; a computed or encoded
  envelope is not empty and decodes to the algorithm and a digest of the recorded length; the
  string of a CIDv1 over a well-formed multihash is not empty and decodes to that CID.
\<close>

definition mh_registered :: "hashlib \<Rightarrow> bool" where
  "mh_registered L = (\<forall>data alg. isSupportedHash alg \<longrightarrow> mh_Sum L data alg \<noteq> None)"

definition mh_sum_decodes :: "hashlib \<Rightarrow> bool" where
  "mh_sum_decodes L =
     (\<forall>data alg mh. mh_Sum L data alg = Some mh \<longrightarrow>
        mh \<noteq> [] \<and> (\<exists>d. mh_Decode L mh = Some d \<and> dm_Code d = alg \<and>
                        dm_Length d = length (dm_Digest d)))"

definition mh_encode_decodes :: "hashlib \<Rightarrow> bool" where
  "mh_encode_decodes L =
     (\<forall>digest code. isSupportedHash code \<longrightarrow>
        (\<exists>mh. mh_Encode L digest code = Some mh \<and> mh \<noteq> [] \<and>
           mh_Decode L mh =
             Some \<lparr>dm_Code = code, dm_Length = length digest, dm_Digest = digest\<rparr>))"

definition cid_decodes :: "hashlib \<Rightarrow> bool" where
  "cid_decodes L =
     (\<forall>codec mh. mh_Decode L mh \<noteq> None \<longrightarrow>
        cid_String L (NewCidV1 codec mh) \<noteq> [] \<and>
        cid_Decode L (cid_String L (NewCidV1 codec mh)) = Some (NewCidV1 codec mh))"

definition hashlib_ok :: "hashlib \<Rightarrow> bool" where
  "hashlib_ok L = (mh_registered L \<and> mh_sum_decodes L \<and> mh_encode_decodes L \<and> cid_decodes L)"

text \<open>The well-formed MIDs: every field agrees with the codec and a valid envelope.\<close>

definition mid_wf :: "hashlib \<Rightarrow> MID \<Rightarrow> bool" where
  "mid_wf L m =
     (m_Version m = cidVersion1 \<and> validateEnvelope L (m_Hash m) = Inr () \<and>
      m_cid m = NewCidV1 (m_codec m) (m_Hash m) \<and>
      m_str m = Prefix @ cid_String L (m_cid m))"

section \<open>Constructors give well-formed values\<close>

lemma validateEnvelope_ok_iff:
  "validateEnvelope L mh = Inr () \<longleftrightarrow>
     mh \<noteq> [] \<and> (\<exists>d. mh_Decode L mh = Some d \<and> isSupportedHash (dm_Code d) \<and>
                    length (dm_Digest d) = dm_Length d)"
  by (auto simp: validateEnvelope_def split: option.splits)

lemma fromCodecAndHashErr_ok_iff:
  "fromCodecAndHashErr L version codec mh = Inr m \<longleftrightarrow>
     version = cidVersion1 \<and> validateEnvelope L mh = Inr () \<and>
     m = \<lparr>m_Version = cidVersion1, m_codec = codec, m_Hash = mh, m_cid = NewCidV1 codec mh,
          m_str = Prefix @ cid_String L (NewCidV1 codec mh)\<rparr>"
  by (auto simp: fromCodecAndHashErr_def build_def Let_def validateEnvelope_def
      split: option.splits sum.splits if_splits)

lemma fromCodecAndHashErr_wf:
  "fromCodecAndHashErr L version codec mh = Inr m \<Longrightarrow>
     mid_wf L m \<and> m_codec m = codec \<and> m_Hash m = mh"
  by (simp add: fromCodecAndHashErr_ok_iff mid_wf_def)

lemma FromMultihash_wf:
  "FromMultihash L codec mh = Inr m \<Longrightarrow> mid_wf L m \<and> m_codec m = codec \<and> m_Hash m = mh"
  by (simp add: FromMultihash_def fromCodecAndHashErr_wf)

lemma FromBytesWithCodecAndHash_wf:
  "FromBytesWithCodecAndHash L data codec alg = Inr m \<Longrightarrow> mid_wf L m \<and> m_codec m = codec"
  by (auto simp: FromBytesWithCodecAndHash_def dest: fromCodecAndHashErr_wf split: option.splits)

lemma sha_fallback_wf:
  "sha_fallback L data codec = Inr m \<Longrightarrow> mid_wf L m \<and> m_codec m = codec"
  by (auto simp: sha_fallback_def FromCodecAndHash_def Let_def dest: fromCodecAndHashErr_wf
      split: sum.splits)

lemma sha_fallback_total:
  assumes "hashlib_ok L"
  shows "\<exists>m. sha_fallback L data codec = Inr m"
proof -
  have s: "isSupportedHash mh_SHA2_256" by (simp add: isSupportedHash_def)
  with assms obtain mh where
    mh: "mh_Encode L (Sum256 data) mh_SHA2_256 = Some mh" "mh \<noteq> []"
      "mh_Decode L mh = Some \<lparr>dm_Code = mh_SHA2_256, dm_Length = length (Sum256 data),
         dm_Digest = Sum256 data\<rparr>"
    unfolding hashlib_ok_def mh_encode_decodes_def by meson
  then have "validateEnvelope L mh = Inr ()"
    using s by (simp add: validateEnvelope_ok_iff)
  then have "is_ok (fromCodecAndHashErr L cidVersion1 codec mh)"
    by (simp add: is_ok_iff fromCodecAndHashErr_ok_iff)
  with mh(1) show ?thesis
    by (auto simp: sha_fallback_def FromCodecAndHash_def is_ok_iff)
qed

lemma FromBytesWithCodec_ok:
  "hashlib_ok L \<Longrightarrow>
     \<exists>m. FromBytesWithCodec L alg data codec = Inr m \<and> mid_wf L m \<and> m_codec m = codec"
  using sha_fallback_total [of L data codec]
  by (auto simp: FromBytesWithCodec_def dest: FromBytesWithCodecAndHash_wf sha_fallback_wf
      split: sum.splits)

lemma FromBytes_WithCodec: "FromBytes L alg data = FromBytesWithCodec L alg data CodecRaw"
  by (simp add: FromBytes_def FromBytesWithCodec_def)

lemma FromBytes_wf: "FromBytes L alg data = Inr m \<Longrightarrow> mid_wf L m \<and> m_codec m = CodecRaw"
  by (auto simp: FromBytes_def dest: FromBytesWithCodecAndHash_wf sha_fallback_wf
      split: sum.splits)

lemma FromBytes_ok: "hashlib_ok L \<Longrightarrow> \<exists>m. FromBytes L alg data = Inr m"
  using FromBytesWithCodec_ok [of L alg data CodecRaw] by (auto simp: FromBytes_WithCodec)

lemma mid_wf_not_zero [simp]: "mid_wf L m \<Longrightarrow> \<not> IsZero m"
  by (auto simp: mid_wf_def IsZero_def validateEnvelope_ok_iff)

lemma mid_wf_DigestBytes: "mid_wf L m \<Longrightarrow> \<exists>d. DigestBytes L m = Inr d"
  by (auto simp: mid_wf_def DigestBytes_def validateEnvelope_ok_iff)

lemma MID_String_wf: "mid_wf L m \<Longrightarrow> MID_String L m = Prefix @ cid_String L (m_cid m)"
  by (simp add: mid_wf_def MID_String_def Prefix_def)

section \<open>Parsing and printing\<close>

lemma HasPrefix_append [simp]: "HasPrefix (p @ s) p"
  by (simp add: HasPrefix_def)

lemma TrimPrefix_append [simp]: "TrimPrefix (p @ s) p = s"
  by (simp add: TrimPrefix_def)

lemma Parse_ok_wf:
  assumes "Parse L s = Inr m"
  shows "mid_wf L m"
proof -
  obtain c where c: "c_version c = 1" "validateEnvelope L (c_hash c) = Inr ()"
    "m = \<lparr>m_Version = 1, m_codec = c_codec c, m_Hash = c_hash c, m_cid = c,
          m_str = Prefix @ cid_String L c\<rparr>"
    using assms
    by (fastforce simp: Parse_def Let_def cidVersion1_def split: if_splits option.splits sum.splits)
  then have "c = NewCidV1 (c_codec c) (c_hash c)" by (simp add: NewCidV1_def)
  with c show ?thesis by (simp add: mid_wf_def cidVersion1_def)
qed

lemma Parse_String_wf:
  assumes "hashlib_ok L" "mid_wf L m"
  shows "Parse L (MID_String L m) = Inr m"
proof -
  let ?c = "NewCidV1 (m_codec m) (m_Hash m)"
  from assms(2) have env: "validateEnvelope L (m_Hash m) = Inr ()" and m:
    "m = \<lparr>m_Version = 1, m_codec = m_codec m, m_Hash = m_Hash m, m_cid = ?c,
          m_str = Prefix @ cid_String L ?c\<rparr>"
    by (simp_all add: mid_wf_def cidVersion1_def)
  from env have "mh_Decode L (m_Hash m) \<noteq> None" by (auto simp: validateEnvelope_ok_iff)
  with assms(1) have "cid_String L ?c \<noteq> []" "cid_Decode L (cid_String L ?c) = Some ?c"
    by (simp_all add: hashlib_ok_def cid_decodes_def)
  moreover have "MID_String L m = Prefix @ cid_String L ?c"
    using assms(2) by (simp add: MID_String_wf mid_wf_def)
  moreover have "c_version ?c = 1" "c_hash ?c = m_Hash m" "c_codec ?c = m_codec m"
    by (simp_all add: NewCidV1_def)
  ultimately show ?thesis
    using env m by (simp add: Parse_def cidVersion1_def)
qed

lemma mid_wf_eqI: "mid_wf L m \<Longrightarrow> mid_wf L m' \<Longrightarrow> MID_Equal m m' \<Longrightarrow> m = m'"
  by (rule MID.equality) (simp_all add: mid_wf_def MID_Equal_def split: if_splits)

lemma MID_String_inj:
  assumes "hashlib_ok L" "mid_wf L m" "mid_wf L m'" "MID_String L m = MID_String L m'"
  shows "m = m'"
proof -
  have "(Inr m :: MID result) = Parse L (MID_String L m)"
    using assms(1,2) by (simp only: Parse_String_wf)
  also have "\<dots> = Parse L (MID_String L m')" by (simp only: assms(4))
  also have "\<dots> = Inr m'" using assms(1,3) by (simp only: Parse_String_wf)
  finally show ?thesis by simp
qed

section \<open>A library that keeps the promises\<close>

text \<open>
  A concrete instance of the two packages, used only to show that hypotheses can hold: the
  "hash" of a string is the string itself behind the algorithm byte, and a CID prints as its
  version, codec and hash.
\<close>

definition demo_lib :: hashlib where
  "demo_lib = \<lparr>
     mh_Sum = (\<lambda>data alg. if isSupportedHash alg then Some (ucast alg # data) else None),
     mh_Decode = (\<lambda>mh. case mh of [] \<Rightarrow> None
        | c # d \<Rightarrow> Some \<lparr>dm_Code = ucast c, dm_Length = length d, dm_Digest = d\<rparr>),
     mh_Encode = (\<lambda>d code. Some (ucast code # d)),
     cid_String = (\<lambda>c. string_of_bytes (PutUint64 (c_version c) @ PutUint64 (c_codec c) @ c_hash c)),
     cid_Decode = (\<lambda>s. let b = bytes_of_string s in
        if length b < 16 then None
        else Some \<lparr>c_version = Uint64 (take 8 b), c_codec = Uint64 (take 8 (drop 8 b)),
                   c_hash = drop 16 b\<rparr>)\<rparr>"

lemma supported_is_byte: "isSupportedHash alg \<Longrightarrow> (ucast (ucast alg :: byte) :: u64) = alg"
  by (auto simp: isSupportedHash_def mh_BLAKE3_def mh_SHA2_256_def mh_SHA2_512_def
      mh_KECCAK_256_def mh_SHAKE_256_def)

lemma string_of_bytes_Nil [simp]: "string_of_bytes bs = [] \<longleftrightarrow> bs = []"
  by (simp add: string_of_bytes_def)

lemma demo_lib_ok: "hashlib_ok demo_lib"
proof -
  have "PutUint64 v \<noteq> []" for v by (metis length_PutUint64 list.size(3) zero_neq_numeral)
  then have "cid_decodes demo_lib"
    by (simp add: cid_decodes_def demo_lib_def NewCidV1_def Let_def)
  moreover have "mh_registered demo_lib" by (simp add: mh_registered_def demo_lib_def)
  moreover have "mh_sum_decodes demo_lib"
    by (auto simp: mh_sum_decodes_def demo_lib_def supported_is_byte split: if_splits)
  moreover have "mh_encode_decodes demo_lib"
    by (auto simp: mh_encode_decodes_def demo_lib_def supported_is_byte)
  ultimately show ?thesis by (simp add: hashlib_ok_def)
qed

section \<open>Properties\<close>



text \<open>
  Property C25. Parse canonicalises: whatever string it accepts, the MID it returns prints to a
  string that parses to the same MID, carries version 1, and its envelope names one of the
  supported hash algorithms with a digest of the recorded length.
\<close>

theorem mid_parse_canonical:
  assumes "hashlib_ok L" and "Parse L s = Inr m"
  shows "Parse L (MID_String L m) = Inr m \<and> m_Version m = cidVersion1 \<and>
    (\<exists>d. mh_Decode L (m_Hash m) = Some d \<and> isSupportedHash (dm_Code d) \<and>
         length (dm_Digest d) = dm_Length d)"
proof -
  from assms(2) have wf: "mid_wf L m" by (rule Parse_ok_wf)
  with assms(1) have "Parse L (MID_String L m) = Inr m" by (rule Parse_String_wf)
  with wf show ?thesis by (simp add: mid_wf_def validateEnvelope_ok_iff)
qed

theorem mid_parse_canonical_witness:
  "\<exists>m. Parse demo_lib (Prefix @ cid_String demo_lib (NewCidV1 CodecMemFS [0x12, 7])) = Inr m \<and>
     Parse demo_lib (MID_String demo_lib m) = Inr m \<and> m_Version m = cidVersion1"
proof -
  have "is_ok (Parse demo_lib (Prefix @ cid_String demo_lib (NewCidV1 CodecMemFS [0x12, 7])))"
    by code_simp
  then obtain m where
    m: "Parse demo_lib (Prefix @ cid_String demo_lib (NewCidV1 CodecMemFS [0x12, 7])) = Inr m"
    by (auto simp: is_ok_iff)
  from mid_parse_canonical [OF demo_lib_ok m] m show ?thesis by auto
qed

text \<open>
  Hashing content never panics, whatever default algorithm is configured (an
  unsupported one falls back to SHA-256), and the public strings of two content identifiers are
  equal exactly when Equal says so.
\<close>

theorem mid_of_content_total:
  assumes "hashlib_ok L"
  shows "\<exists>m m'. FromBytesWithCodec L alg data codec = Inr m \<and>
      FromBytesWithCodec L alg' data' codec' = Inr m' \<and>
      m_codec m = codec \<and> \<not> IsZero m \<and>
      (MID_String L m = MID_String L m') = MID_Equal m m'"
proof -
  from FromBytesWithCodec_ok [OF assms] obtain m where
    m: "FromBytesWithCodec L alg data codec = Inr m" "mid_wf L m" "m_codec m = codec" by blast
  from FromBytesWithCodec_ok [OF assms] obtain m' where
    m': "FromBytesWithCodec L alg' data' codec' = Inr m'" "mid_wf L m'" by blast
  have "(MID_String L m = MID_String L m') = MID_Equal m m'"
    using MID_String_inj [OF assms m(2) m'(2)] mid_wf_eqI [OF m(2) m'(2)]
    by (auto simp: MID_Equal_def)
  with m m' show ?thesis by auto
qed

theorem mid_of_content_total_witness:
  "\<exists>m m'. FromBytesWithCodec demo_lib mh_BLAKE3 [1] CodecRaw = Inr m \<and>
      FromBytesWithCodec demo_lib 0 [1] CodecRaw = Inr m' \<and>
      (MID_String demo_lib m = MID_String demo_lib m') = MID_Equal m m'"
  using mid_of_content_total [OF demo_lib_ok, of mh_BLAKE3 "[1]" CodecRaw 0 "[1]" CodecRaw]
  by blast

end
