(* ===== verification/Reader.thy ===== *)
theory Reader
  imports Prelude
begin

text \<open>
  The standard io.Reader as a script of the results its Read calls deliver. An entry is a piece of
  data with the error returned together with its last byte, if any; a Read with a smaller buffer
  takes a prefix of the piece. A drained script returns io.EOF. Every fragmentation of a stream
  into reads, including empty reads and data returned together with io.EOF, is a script.
\<close>

type_synonym read_script = "(bytes \<times> gerror option) list"

record reader =
  r_script :: read_script
  r_closed :: bool

fun read_call :: "read_script \<Rightarrow> nat \<Rightarrow> (bytes \<times> gerror option) \<times> read_script" where
  "read_call [] n = (([], Some io_EOF), [])"
| "read_call ((bs, e) # rs) n =
     (if length bs \<le> n then ((bs, e), rs) else ((take n bs, None), (drop n bs, e) # rs))"

text \<open>The number of calls a consumer of one byte per call can make before the end.\<close>

fun script_size :: "read_script \<Rightarrow> nat" where
  "script_size [] = 0"
| "script_size ((bs, e) # rs) = Suc (length bs) + script_size rs"

text \<open>Scripts that only ever end by io.EOF, and the bytes they deliver.\<close>

fun eof_only :: "read_script \<Rightarrow> bool" where
  "eof_only [] = True"
| "eof_only ((bs, e) # rs) = (case e of None \<Rightarrow> eof_only rs | Some err \<Rightarrow> err = io_EOF \<and> rs = [])"

definition stream :: "read_script \<Rightarrow> bytes" where
  "stream rs = concat (map fst rs)"

lemma stream_simps [simp]:
  "stream [] = []"
  "stream ((bs, e) # rs) = bs @ stream rs"
  by (simp_all add: stream_def)

lemma read_call_stream:
  "read_call rs n = ((bs, e), rs') \<Longrightarrow> stream rs = bs @ stream rs' \<and> length bs \<le> n"
  by (cases rs) (auto split: if_splits)

lemma read_call_eof_only:
  "eof_only rs \<Longrightarrow> read_call rs n = ((bs, e), rs') \<Longrightarrow>
     eof_only rs' \<and> (e = None \<or> e = Some io_EOF \<and> rs' = [])"
  by (cases rs) (auto split: if_splits option.splits)

lemma read_call_full:
  "read_call rs n = ((bs, None), rs') \<Longrightarrow> length rs' < length rs \<or> length bs = n \<and> length rs' = length rs"
  by (cases rs) (auto split: if_splits)

lemma read_call_length_le:
  "read_call rs n = ((bs, e), rs') \<Longrightarrow> length rs' \<le> length rs"
  by (cases rs) (auto split: if_splits)

lemma read_call_size:
  assumes "read_call rs n = ((bs, e), rs')" "bs \<noteq> [] \<or> e = None" "0 < n"
  shows "script_size rs' < script_size rs"
  using assms by (cases "(rs, n)" rule: read_call.cases) (auto split: if_splits)

end
