(* ===== verification/Chunk.thy ===== *)
theory Chunk
  imports Mid Reader
begin

text \<open>
  core/chunk: splitting a stream into content-addressed blocks. chunk.go gives the block type, the
  adaptive block size and the fixed-size chunker; fastcdc.go and rabin.go the content-defined ones.
  A chunker is its state record; Next returns a result and the new state. The buffer pool only
  recycles memory, so the state keeps whether a buffer is held.
\<close>

section \<open>chunk.go\<close>

definition DefaultBlockSize :: nat where "DefaultBlockSize = 256 * 1024"
definition MaxBlockSize :: nat where "MaxBlockSize = 4 * 1024 * 1024"
definition MinBlockSize :: nat where "MinBlockSize = 1024"

definition AdaptiveBlockSize :: "int \<Rightarrow> nat" where
  "AdaptiveBlockSize sz =
     (if sz \<le> 0 then DefaultBlockSize
      else if sz < 64 * 1024 * 1024 then DefaultBlockSize
      else if sz < 512 * 1024 * 1024 then 1024 * 1024
      else if sz < 2 * 1024 * 1024 * 1024 then 2 * 1024 * 1024
      else MaxBlockSize)"

text \<open>The protobuf message Block; the wrapper chunk.Block holds a pointer to one, or nil.\<close>

record pbBlock =
  b_Data :: bytes
  b_Mid :: string
  b_Size :: u64

type_synonym Block = "pbBlock option"

definition Block_Data :: "Block \<Rightarrow> bytes" where
  "Block_Data b = (case b of None \<Rightarrow> [] | Some p \<Rightarrow> b_Data p)"

definition Block_MID :: "hashlib \<Rightarrow> Block \<Rightarrow> MID result" where
  "Block_MID L b =
     (case b of None \<Rightarrow> Inr MID_zero
      | Some p \<Rightarrow> if b_Mid p = [] then Inr MID_zero else MustParse L (b_Mid p))"

definition Block_Size :: "Block \<Rightarrow> int" where
  "Block_Size b = (case b of None \<Rightarrow> 0 | Some p \<Rightarrow> sint (b_Size p))"

text \<open>makeBlock, makeFastCDCBlock and makeRabinBlock build the same message.\<close>

definition makeBlock :: "hashlib \<Rightarrow> u64 \<Rightarrow> bytes \<Rightarrow> Block result" where
  "makeBlock L alg data =
     (case FromBytes L alg data of
        Inl p \<Rightarrow> Inl p
      | Inr m \<Rightarrow> Inr (Some \<lparr>b_Data = data, b_Mid = MID_String L m, b_Size = of_nat (length data)\<rparr>))"

definition closeReader :: "reader \<Rightarrow> reader" where
  "closeReader r = r\<lparr>r_closed := True\<rparr>"

record fixedChunker =
  f_r :: reader
  f_size :: nat
  f_bufPtr :: bool
  f_eofSeen :: bool
  f_closed :: bool

definition NewFixed :: "int \<Rightarrow> reader option \<Rightarrow> fixedChunker result" where
  "NewFixed sz r =
     (case r of
        None \<Rightarrow> Inl (Msg ''chunk: nil reader'')
      | Some rd \<Rightarrow>
          if sz < int MinBlockSize then Inl (Msg ''chunk: fixed size below minimum'')
          else if int MaxBlockSize < sz then Inl (Msg ''chunk: fixed size above maximum'')
          else Inr \<lparr>f_r = rd, f_size = nat sz, f_bufPtr = True, f_eofSeen = False,
                    f_closed = False\<rparr>)"

definition fixed_Close :: "fixedChunker \<Rightarrow> fixedChunker" where
  "fixed_Close f =
     (let g = (if \<not> f_closed f then f\<lparr>f_closed := True, f_eofSeen := True, f_bufPtr := False\<rparr> else f)
      in g\<lparr>f_r := closeReader (f_r g)\<rparr>)"

text \<open>The loop \<open>for read < f.size\<close>: what it read, the error that ended it, and the reader.\<close>

function fixed_fill ::
    "nat \<Rightarrow> bytes \<Rightarrow> read_script \<Rightarrow> bytes \<times> gerror option \<times> read_script" where
  "fixed_fill sz buf rs =
     (if length buf < sz then
        (case read_call rs (sz - length buf) of
           ((bs, Some err), rs') \<Rightarrow> (buf @ bs, Some err, rs')
         | ((bs, None), rs') \<Rightarrow> fixed_fill sz (buf @ bs) rs')
      else (buf, None, rs))"
  by pat_completeness auto
termination
proof (relation "measure (\<lambda>(sz, buf, rs). length rs + (sz - length buf))", goal_cases)
  case (2 sz buf rs p rs' bs e)
  then have "read_call rs (sz - length buf) = ((bs, None), rs')" by simp
  from read_call_full [OF this] 2 show ?case by auto
qed simp

declare fixed_fill.simps [simp del]

definition fixed_Next :: "hashlib \<Rightarrow> u64 \<Rightarrow> fixedChunker \<Rightarrow> Block result \<times> fixedChunker" where
  "fixed_Next L alg f =
     (if f_eofSeen f then (Inl io_EOF, f\<lparr>f_bufPtr := False\<rparr>)
      else case fixed_fill (f_size f) [] (r_script (f_r f)) of
        (data, None, rs') \<Rightarrow>
          (makeBlock L alg data, f\<lparr>f_bufPtr := True, f_r := (f_r f)\<lparr>r_script := rs'\<rparr>\<rparr>)
      | (data, Some err, rs') \<Rightarrow>
          (let f' = f\<lparr>f_eofSeen := True, f_bufPtr := False,
                      f_r := closeReader ((f_r f)\<lparr>r_script := rs'\<rparr>)\<rparr>
           in if errors_Is err io_EOF
              then (if data = [] then (Inl io_EOF, f') else (makeBlock L alg data, f'))
              else (Inl (Wrap ''chunk: read'' err), f')))"

section \<open>The Chunker interface\<close>

text \<open>
  What the consumers of a Chunker rely on: Next delivers the remaining chunks in order, each as the
  block of its bytes, never an empty one, and then io.EOF on every further call.
\<close>

fun drain :: "('c \<Rightarrow> Block result \<times> 'c) \<Rightarrow> nat \<Rightarrow> 'c \<Rightarrow> (Block list \<times> gerror) option" where
  "drain next 0 c = None"
| "drain next (Suc n) c =
     (case next c of
        (Inl e, c') \<Rightarrow> Some ([], e)
      | (Inr b, c') \<Rightarrow> map_option (\<lambda>(bs, e). (b # bs, e)) (drain next n c'))"

locale chunker =
  fixes L :: hashlib and alg :: u64
    and Next :: "'c \<Rightarrow> Block result \<times> 'c"
    and chunks :: "'c \<Rightarrow> bytes list"
    and invar :: "'c \<Rightarrow> bool"
  assumes Next_end: "invar c \<Longrightarrow> chunks c = [] \<Longrightarrow>
      \<exists>c'. Next c = (Inl io_EOF, c') \<and> invar c' \<and> chunks c' = []"
    and Next_more: "invar c \<Longrightarrow> chunks c = d # ds \<Longrightarrow>
      \<exists>c' b. Next c = (Inr b, c') \<and> makeBlock L alg d = Inr b \<and> invar c' \<and> chunks c' = ds"
    and chunk_bounds: "invar c \<Longrightarrow> d \<in> set (chunks c) \<Longrightarrow> d \<noteq> [] \<and> length d \<le> MaxBlockSize"
begin

lemma drain_chunks:
  "invar c \<Longrightarrow> length (chunks c) < n \<Longrightarrow>
     \<exists>bs. drain Next n c = Some (bs, io_EOF) \<and> map (makeBlock L alg) (chunks c) = map Inr bs"
proof (induction n arbitrary: c)
  case (Suc n)
  show ?case
  proof (cases "chunks c")
    case Nil
    with Next_end [OF Suc.prems(1)] show ?thesis by auto
  next
    case (Cons d ds)
    from Next_more [OF Suc.prems(1) Cons] obtain c' b where
      n: "Next c = (Inr b, c')" "makeBlock L alg d = Inr b" "invar c'" "chunks c' = ds"
      by blast
    from Suc.IH [of c'] n Suc.prems(2) Cons obtain bs where
      "drain Next n c' = Some (bs, io_EOF)" "map (makeBlock L alg) ds = map Inr bs"
      by auto
    with n Cons show ?thesis by auto
  qed
qed simp

end

section \<open>Blocks\<close>

lemma makeBlock_data:
  "makeBlock L alg d = Inr b \<Longrightarrow> Block_Data b = d"
  by (auto simp: makeBlock_def Block_Data_def split: sum.splits)

lemma makeBlock_MID:
  assumes "hashlib_ok L" and "makeBlock L alg d = Inr b"
  shows "Block_MID L b = FromBytes L alg d"
proof -
  from assms(2) obtain m where m: "FromBytes L alg d = Inr m" "b = Some \<lparr>b_Data = d,
      b_Mid = MID_String L m, b_Size = of_nat (length d)\<rparr>"
    by (auto simp: makeBlock_def split: sum.splits)
  have wf: "mid_wf L m" using FromBytes_wf m(1) by blast
  then have "MID_String L m \<noteq> []" by (simp add: MID_String_wf Prefix_def)
  with m wf assms(1) show ?thesis by (simp add: Block_MID_def MustParse_def Parse_String_wf)
qed

lemma sint_of_nat_small: "n < 2 ^ 63 \<Longrightarrow> sint (of_nat n :: u64) = int n"
  by (simp add: signed_of_nat signed_take_bit_int_eq_self)

lemma makeBlock_size:
  "makeBlock L alg d = Inr b \<Longrightarrow> length d \<le> MaxBlockSize \<Longrightarrow> Block_Size b = int (length d)"
  by (auto simp: makeBlock_def Block_Size_def MaxBlockSize_def sint_of_nat_small split: sum.splits)

lemma makeBlock_total: "hashlib_ok L \<Longrightarrow> \<exists>b. makeBlock L alg d = Inr b"
  using FromBytes_ok [of L alg d] by (auto simp: makeBlock_def)

lemma blocks_data_concat:
  "map (makeBlock L alg) ds = map Inr bs \<Longrightarrow> map Block_Data bs = ds"
  by (induction ds arbitrary: bs) (auto dest: makeBlock_data)

lemma blocks_of_chunks:
  assumes "hashlib_ok L" "map (makeBlock L alg) ds = map Inr bs" "b \<in> set bs"
  shows "Block_Data b \<in> set ds \<and> Block_MID L b = FromBytes L alg (Block_Data b) \<and>
    makeBlock L alg (Block_Data b) = Inr b"
proof -
  from assms(2,3) have "(Inr b :: Block result) \<in> makeBlock L alg ` set ds"
    by (metis image_eqI set_map)
  then obtain d where "d \<in> set ds" "makeBlock L alg d = Inr b" by auto
  then show ?thesis using makeBlock_data makeBlock_MID [OF assms(1)] by metis
qed

lemma length_concat_ge: "(\<And>d. d \<in> set ds \<Longrightarrow> d \<noteq> []) \<Longrightarrow> length ds \<le> length (concat ds)"
proof (induction ds)
  case (Cons d ds)
  then have "length ds \<le> length (concat ds)" and "1 \<le> length d" by (simp_all add: Suc_le_eq)
  then show ?case by simp
qed simp

section \<open>The fixed-size chunker delivers the blocks of the stream\<close>

text \<open>One round of reads takes exactly the next \<open>size\<close> bytes, however the reader cuts them.\<close>

lemma fixed_fill_stream:
  "eof_only rs \<Longrightarrow> length buf \<le> sz \<Longrightarrow> fixed_fill sz buf rs = (data, e, rs') \<Longrightarrow>
     data = buf @ take (sz - length buf) (stream rs) \<and> eof_only rs' \<and>
     stream rs' = drop (sz - length buf) (stream rs) \<and>
     (e = None \<and> length data = sz \<or> e = Some io_EOF \<and> rs' = [])"
proof (induction sz buf rs rule: fixed_fill.induct)
  case (1 sz buf rs)
  show ?case
  proof (cases "length buf < sz")
    case False
    with "1.prems" show ?thesis by (auto simp: fixed_fill.simps [of sz buf rs])
  next
    case True
    obtain bs e0 rs0 where r: "read_call rs (sz - length buf) = ((bs, e0), rs0)"
      by (metis prod.exhaust)
    note st = read_call_stream [OF r] and eo = read_call_eof_only [OF "1.prems"(1) r]
    show ?thesis
    proof (cases e0)
      case None
      from "1.prems"(3) True r None have rec: "fixed_fill sz (buf @ bs) rs0 = (data, e, rs')"
        by (simp add: fixed_fill.simps [of sz buf rs])
      have le: "length (buf @ bs) \<le> sz" using st True by auto
      from "1.IH" [OF True r [symmetric] refl None _ le rec] eo st True
      show ?thesis by auto
    next
      case (Some err)
      with "1.prems"(3) True r have "data = buf @ bs" "e = Some err" "rs' = rs0"
        by (simp_all add: fixed_fill.simps [of sz buf rs])
      with Some eo st True show ?thesis by auto
    qed
  qed
qed

definition fixed_inv :: "hashlib \<Rightarrow> fixedChunker \<Rightarrow> bool" where
  "fixed_inv L f =
     (hashlib_ok L \<and> 0 < f_size f \<and> f_size f \<le> MaxBlockSize \<and> eof_only (r_script (f_r f)))"

definition fixed_chunks :: "fixedChunker \<Rightarrow> bytes list" where
  "fixed_chunks f =
     (if f_eofSeen f then [] else groups_of (f_size f) (stream (r_script (f_r f))))"

lemma fixed_Next_more:
  assumes inv: "fixed_inv L f" and ch: "fixed_chunks f = d # ds"
  shows "\<exists>f' b. fixed_Next L alg f = (Inr b, f') \<and> makeBlock L alg d = Inr b \<and>
    fixed_inv L f' \<and> fixed_chunks f' = ds"
proof -
  let ?n = "f_size f" and ?s = "stream (r_script (f_r f))"
  obtain data e rs' where fill: "fixed_fill ?n [] (r_script (f_r f)) = (data, e, rs')"
    by (metis prod.exhaust)
  from ch have open1: "\<not> f_eofSeen f" and sp: "groups_of ?n ?s = d # ds"
    by (auto simp: fixed_chunks_def split: if_splits)
  from sp have ds: "d = take ?n ?s" "ds = groups_of ?n (drop ?n ?s)" "?s \<noteq> []"
    by (auto simp: groups_of.simps [of ?n ?s] split: if_splits)
  from fixed_fill_stream [OF _ _ fill] inv have st: "data = d" "eof_only rs'"
    "stream rs' = drop ?n ?s" "e = None \<or> e = Some io_EOF \<and> rs' = []"
    by (auto simp: fixed_inv_def ds)
  have ne: "d \<noteq> []" using ds inv by (simp add: fixed_inv_def)
  obtain b where b: "makeBlock L alg d = Inr b"
    using makeBlock_total [of L alg d] inv by (auto simp: fixed_inv_def)
  have rest: "groups_of ?n (stream rs') = ds" by (simp only: st(3) ds(2))
  show ?thesis
  proof (cases e)
    case None
    with inv open1 st(1,2) fill b rest show ?thesis
      by (simp add: fixed_Next_def fixed_inv_def fixed_chunks_def)
  next
    case (Some err)
    with st(4) have "err = io_EOF" "rs' = []" by simp_all
    moreover from this rest have "ds = []" by simp
    ultimately show ?thesis using Some inv open1 st(1,2) fill b ne
      by (simp add: fixed_Next_def fixed_inv_def fixed_chunks_def closeReader_def)
  qed
qed

lemma fixed_Next_end:
  assumes inv: "fixed_inv L f" and ch: "fixed_chunks f = []"
  shows "\<exists>f'. fixed_Next L alg f = (Inl io_EOF, f') \<and> fixed_inv L f' \<and> fixed_chunks f' = []"
proof (cases "f_eofSeen f")
  case True
  with inv show ?thesis by (simp add: fixed_Next_def fixed_inv_def fixed_chunks_def)
next
  case False
  obtain data e rs' where fill: "fixed_fill (f_size f) [] (r_script (f_r f)) = (data, e, rs')"
    by (metis prod.exhaust)
  have "concat (fixed_chunks f) = stream (r_script (f_r f))"
    using False inv by (simp add: fixed_chunks_def fixed_inv_def groups_of_concat)
  with ch have "stream (r_script (f_r f)) = []" by simp
  with fixed_fill_stream [OF _ _ fill] inv have "data = []" "e = Some io_EOF" "rs' = []"
    by (auto simp: fixed_inv_def)
  with fill False inv show ?thesis
    by (auto simp: fixed_Next_def fixed_inv_def fixed_chunks_def closeReader_def Let_def)
qed

interpretation fixedc: chunker L alg "fixed_Next L alg" fixed_chunks "fixed_inv L" for L alg
proof
  fix f d
  assume "fixed_inv L f" "d \<in> set (fixed_chunks f)"
  then show "d \<noteq> [] \<and> length d \<le> MaxBlockSize"
    using groups_of_lengths [of d "f_size f"]
    by (fastforce simp: fixed_chunks_def fixed_inv_def split: if_splits)
qed (rule fixed_Next_end fixed_Next_more; assumption)+

section \<open>Properties\<close>



end
