(* ===== verification/FastCDC.thy ===== *)
theory FastCDC
  imports Chunk
begin

text \<open>
  core/chunk/fastcdc.go: content-defined chunking with a gear hash over a buffer of two maximal
  chunks. Next refills the buffer until it holds a maximal chunk or the input ended, then scans for
  a cut point. The main lemma is that the chunks are those of the reference \<open>cdc_split\<close> on the
  bytes of the stream, so they do not depend on how the reader fragments it.
\<close>

section \<open>The code\<close>

definition gear_next :: "u64 \<Rightarrow> u64" where
  "gear_next v = v * 6364136223846793005 + 1442695040888963407"

definition gearTable :: "u64 list" where
  "gearTable = map (\<lambda>i. (gear_next ^^ Suc i) 0x8a5cd789635d2d01) [0..<256]"

definition fastcdcMin :: nat where "fastcdcMin = 64 * 1024"
definition fastcdcMax :: nat where "fastcdcMax = 512 * 1024"
definition fastcdcMid :: nat where "fastcdcMid = 128 * 1024"
definition maskNormal :: u64 where "maskNormal = push_bit 17 1 - 1"
definition maskTight :: u64 where "maskTight = push_bit 19 1 - 1"

record fastCDCChunker =
  d_r :: reader
  d_buf :: bytes
  d_pos :: nat
  d_limit :: nat
  d_eofSeen :: bool

definition cdc_Close :: "fastCDCChunker \<Rightarrow> fastCDCChunker" where
  "cdc_Close c = c\<lparr>d_eofSeen := True, d_r := closeReader (d_r c)\<rparr>"

definition NewFastCDC :: "reader option \<Rightarrow> fastCDCChunker result" where
  "NewFastCDC r =
     (case r of
        None \<Rightarrow> Inl (Msg ''chunk: nil reader'')
      | Some rd \<Rightarrow> Inr \<lparr>d_r = rd, d_buf = replicate (fastcdcMax * 2) 0, d_pos = 0, d_limit = 0,
                         d_eofSeen = False\<rparr>)"

definition makeFastCDCBlock :: "hashlib \<Rightarrow> u64 \<Rightarrow> bytes \<Rightarrow> Block result" where
  "makeFastCDCBlock L alg data =
     (if length data = 0 then Inl (Msg ''chunk: refusing to emit empty block'')
      else makeBlock L alg data)"

text \<open>Shifting the unread bytes to the front and reading behind them.\<close>

definition cdc_refill :: "fastCDCChunker \<Rightarrow> gerror option \<times> fastCDCChunker" where
  "cdc_refill c =
     (let remaining = d_limit c - d_pos c;
          buf = slice (d_buf c) (d_pos c) (d_limit c) @ drop remaining (d_buf c)
      in case read_call (r_script (d_r c)) (fastcdcMax * 2 - remaining) of
           ((bs, e), rs') \<Rightarrow>
             (e, c\<lparr>d_buf := take remaining buf @ bs @ drop (remaining + length bs) buf,
                   d_pos := 0, d_limit := remaining + length bs,
                   d_r := (d_r c)\<lparr>r_script := rs'\<rparr>\<rparr>))"

text \<open>The head of the loop in Next, up to the point where the buffer suffices.\<close>

function cdc_fill :: "fastCDCChunker \<Rightarrow> gerror option \<times> fastCDCChunker" where
  "cdc_fill c =
     (if d_limit c - d_pos c < fastcdcMax \<and> \<not> d_eofSeen c then
        (case cdc_refill c of
           (None, c') \<Rightarrow> cdc_fill c'
         | (Some err, c') \<Rightarrow>
             if errors_Is err io_EOF then cdc_fill (c'\<lparr>d_eofSeen := True\<rparr>)
             else (Some (Wrap ''chunk: fastcdc read'' err),
                   c'\<lparr>d_eofSeen := True, d_r := closeReader (d_r c')\<rparr>))
      else (None, c))"
  by pat_completeness auto
termination
proof (relation "measure (\<lambda>c. length (r_script (d_r c)) +
    (if d_limit c - d_pos c < fastcdcMax \<and> \<not> d_eofSeen c then 1 else 0))", goal_cases)
  case (2 c e c')
  obtain bs rs' e' where r:
    "read_call (r_script (d_r c)) (fastcdcMax * 2 - (d_limit c - d_pos c)) = ((bs, e'), rs')"
    by (metis prod.exhaust)
  with 2 have "e' = None" and c': "length (r_script (d_r c')) = length rs'"
    "d_limit c' - d_pos c' = d_limit c - d_pos c + length bs"
    by (auto simp: cdc_refill_def Let_def)
  with read_call_full [of _ _ bs rs'] r
  have "length rs' < length (r_script (d_r c)) \<or>
    length bs = fastcdcMax * 2 - (d_limit c - d_pos c) \<and> length rs' = length (r_script (d_r c))"
    by blast
  with 2(1) c' show ?case by auto
next
  case (3 c e c' err)
  then have "length (r_script (d_r c')) \<le> length (r_script (d_r c))"
    by (auto simp: cdc_refill_def Let_def dest: read_call_length_le split: prod.splits)
  with 3(1) show ?case by simp
qed simp

declare cdc_fill.simps [simp del]

text \<open>The scan \<open>for i := c.pos + fastcdcMin; i < end; i++\<close>; the result is cutPos.\<close>

function cdc_scan :: "bytes \<Rightarrow> nat \<Rightarrow> nat \<Rightarrow> nat \<Rightarrow> u64 \<Rightarrow> nat" where
  "cdc_scan buf pos stop i h =
     (if i < stop then
        let h' = push_bit 1 h + gearTable ! unat (buf ! i);
            mask = (if i - pos < fastcdcMid then maskNormal else maskTight)
        in if h' AND mask = 0 then i else cdc_scan buf pos stop (Suc i) h'
      else stop)"
  by pat_completeness auto
termination
  by (relation "measure (\<lambda>(buf, pos, stop, i, h). stop - i)") auto

declare cdc_scan.simps [simp del]

definition cdc_Next :: "hashlib \<Rightarrow> u64 \<Rightarrow> fastCDCChunker \<Rightarrow> Block result \<times> fastCDCChunker" where
  "cdc_Next L alg c0 =
     (case cdc_fill c0 of
        (Some err, c) \<Rightarrow> (Inl err, c)
      | (None, c) \<Rightarrow>
          let available = d_limit c - d_pos c in
          if available = 0 then (Inl io_EOF, c\<lparr>d_r := closeReader (d_r c)\<rparr>)
          else if available \<le> fastcdcMin then
            (makeFastCDCBlock L alg (slice (d_buf c) (d_pos c) (d_limit c)),
             c\<lparr>d_pos := d_limit c\<rparr>)
          else
            let stop = (if d_pos c + fastcdcMax < d_pos c + available then d_pos c + fastcdcMax
                        else d_pos c + available);
                cutPos = cdc_scan (d_buf c) (d_pos c) stop (d_pos c + fastcdcMin) 0
            in (makeFastCDCBlock L alg (slice (d_buf c) (d_pos c) cutPos), c\<lparr>d_pos := cutPos\<rparr>))"

section \<open>The reference split\<close>

lemma fastcdc_consts [simp]:
  "0 < fastcdcMin" "fastcdcMin < fastcdcMax" "fastcdcMax \<le> MaxBlockSize" "fastcdcMax \<noteq> 0"
  by (simp_all add: fastcdcMin_def fastcdcMax_def MaxBlockSize_def)

lemma cdc_scan_bounds:
  "i \<le> stop \<Longrightarrow> i \<le> cdc_scan buf pos stop i h \<and> cdc_scan buf pos stop i h \<le> stop"
proof (induction buf pos stop i h rule: cdc_scan.induct)
  case (1 buf pos stop i h)
  show ?case
  proof (cases "i < stop")
    case True
    then show ?thesis
      using "1.IH" [OF True refl refl]
      by (auto simp: cdc_scan.simps [of buf pos stop i h] Let_def)
  next
    case False
    then have "cdc_scan buf pos stop i h = stop"
      by (simp add: cdc_scan.simps [of buf pos stop i h])
    with "1.prems" show ?thesis by simp
  qed
qed

definition cdc_cut :: "bytes \<Rightarrow> nat" where
  "cdc_cut bs =
     (if length bs \<le> fastcdcMin then length bs
      else cdc_scan bs 0 (min (length bs) fastcdcMax) fastcdcMin 0)"

lemma cdc_cut_bounds:
  "fastcdcMin < length bs \<Longrightarrow> fastcdcMin \<le> cdc_cut bs \<and> cdc_cut bs \<le> min (length bs) fastcdcMax"
  using cdc_scan_bounds [of fastcdcMin "min (length bs) fastcdcMax" bs 0 0] fastcdc_consts(2)
  by (simp add: cdc_cut_def)

lemma cdc_cut_pos: "bs \<noteq> [] \<Longrightarrow> 0 < cdc_cut bs \<and> cdc_cut bs \<le> length bs \<and> cdc_cut bs \<le> fastcdcMax"
proof (cases "fastcdcMin < length bs")
  case True
  have "0 < fastcdcMin" by simp
  with cdc_cut_bounds [OF True] show ?thesis by linarith
next
  case False
  moreover have "fastcdcMin < fastcdcMax" by simp
  ultimately have "length bs \<le> fastcdcMax" by linarith
  moreover assume "bs \<noteq> []"
  ultimately show ?thesis using False by (simp add: cdc_cut_def)
qed

function cdc_split :: "bytes \<Rightarrow> bytes list" where
  "cdc_split bs = (if bs = [] then [] else take (cdc_cut bs) bs # cdc_split (drop (cdc_cut bs) bs))"
  by pat_completeness auto
termination
  by (relation "measure length") (auto simp: cdc_cut_pos)

declare cdc_split.simps [simp del]

lemma cdc_split_Nil [simp]: "cdc_split [] = []"
  by (simp add: cdc_split.simps)

lemma cdc_split_Nil_iff [simp]: "cdc_split bs = [] \<longleftrightarrow> bs = []"
  by (auto simp: cdc_split.simps [of bs])

lemma cdc_split_concat: "concat (cdc_split bs) = bs"
  by (induction bs rule: cdc_split.induct) (subst cdc_split.simps, simp)

lemma cdc_split_bounds:
  "d \<in> set (cdc_split bs) \<Longrightarrow> d \<noteq> [] \<and> length d \<le> fastcdcMax"
proof (induction bs rule: cdc_split.induct)
  case (1 bs)
  then show ?case
    using cdc_cut_pos [of bs] by (auto simp: cdc_split.simps [of bs] split: if_splits)
qed

lemma cdc_split_min:
  "Suc i < length (cdc_split bs) \<Longrightarrow> fastcdcMin \<le> length (cdc_split bs ! i)"
proof (induction bs arbitrary: i rule: cdc_split.induct)
  case (1 bs)
  have ne: "bs \<noteq> []" using "1.prems" by auto
  then have eq: "cdc_split bs = take (cdc_cut bs) bs # cdc_split (drop (cdc_cut bs) bs)"
    by (simp add: cdc_split.simps [of bs])
  show ?case
  proof (cases i)
    case 0
    have "cdc_cut bs < length bs" using "1.prems" eq 0 by auto
    then have "fastcdcMin < length bs" by (auto simp: cdc_cut_def split: if_splits)
    with cdc_cut_bounds [OF this] eq 0 show ?thesis by simp
  next
    case (Suc j)
    with "1.IH" [OF ne, of j] "1.prems" eq show ?thesis by simp
  qed
qed

section \<open>The chunker delivers the reference split\<close>

lemma cdc_scan_window:
  "(\<And>k. k < e \<Longrightarrow> buf ! (pos + k) = w ! k) \<Longrightarrow>
     cdc_scan buf pos (pos + e) (pos + j) h = pos + cdc_scan w 0 e j h"
proof (induction "e - j" arbitrary: j h)
  case 0
  then show ?case by (simp add: cdc_scan.simps)
next
  case (Suc n)
  then have "j < e" "n = e - Suc j" by auto
  with Suc.hyps(1) [of "Suc j"] Suc.prems show ?case
    by (subst (1 2) cdc_scan.simps) (simp add: Let_def)
qed

definition cdc_inv :: "hashlib \<Rightarrow> fastCDCChunker \<Rightarrow> bool" where
  "cdc_inv L c =
     (hashlib_ok L \<and> d_pos c \<le> d_limit c \<and> d_limit c \<le> length (d_buf c) \<and>
      length (d_buf c) = fastcdcMax * 2 \<and> eof_only (r_script (d_r c)))"

definition cdc_window :: "fastCDCChunker \<Rightarrow> bytes" where
  "cdc_window c = slice (d_buf c) (d_pos c) (d_limit c)"

definition cdc_rest :: "fastCDCChunker \<Rightarrow> bytes" where
  "cdc_rest c = cdc_window c @ (if d_eofSeen c then [] else stream (r_script (d_r c)))"

lemma length_cdc_window: "cdc_inv L c \<Longrightarrow> length (cdc_window c) = d_limit c - d_pos c"
  by (simp add: cdc_inv_def cdc_window_def)

lemma cdc_refill_rest:
  assumes inv: "cdc_inv L c" and short: "d_limit c - d_pos c < fastcdcMax"
    and open1: "\<not> d_eofSeen c" and re: "cdc_refill c = (e, c')"
  shows "cdc_inv L c' \<and> cdc_rest c' = cdc_rest c \<and> \<not> d_eofSeen c' \<and>
    (e = None \<or> e = Some io_EOF \<and> r_script (d_r c') = [])"
proof -
  let ?n = "d_limit c - d_pos c" and ?w = "cdc_window c"
  obtain bs rs' where r: "read_call (r_script (d_r c)) (fastcdcMax * 2 - ?n) = ((bs, e), rs')"
    and c': "c' = c\<lparr>d_buf := ?w @ bs @ drop (length bs) (drop ?n (d_buf c)),
               d_pos := 0, d_limit := ?n + length bs, d_r := (d_r c)\<lparr>r_script := rs'\<rparr>\<rparr>"
    using re length_cdc_window [OF inv]
    by (auto simp: cdc_refill_def Let_def cdc_window_def add.commute split: prod.splits)
  note st = read_call_stream [OF r]
  from inv have "eof_only (r_script (d_r c))" by (simp add: cdc_inv_def)
  note eo = read_call_eof_only [OF this r]
  have len: "length ?w = ?n" using inv by (rule length_cdc_window)
  have "cdc_inv L c'"
    using inv st eo len short by (auto simp: c' cdc_inv_def)
  moreover have "cdc_window c' = ?w @ bs"
    using len by (simp add: c' cdc_window_def slice_def)
  ultimately show ?thesis using st eo open1 by (auto simp: cdc_rest_def c')
qed

text \<open>Refilling keeps the bytes still to come and ends with a full window or the whole input.\<close>

lemma cdc_fill_rest:
  "cdc_inv L c \<Longrightarrow> \<exists>c'. cdc_fill c = (None, c') \<and> cdc_inv L c' \<and> cdc_rest c' = cdc_rest c \<and>
     (fastcdcMax \<le> length (cdc_window c') \<or> cdc_rest c' = cdc_window c' \<and> d_eofSeen c')"
proof (induction c rule: cdc_fill.induct)
  case (1 c)
  show ?case
  proof (cases "d_limit c - d_pos c < fastcdcMax \<and> \<not> d_eofSeen c")
    case False
    with "1.prems" show ?thesis
      by (auto simp: cdc_fill.simps [of c] length_cdc_window cdc_rest_def)
  next
    case True
    obtain e c' where re: "cdc_refill c = (e, c')" by fastforce
    with cdc_refill_rest [OF "1.prems" _ _ re] True have c': "cdc_inv L c'"
      "cdc_rest c' = cdc_rest c" "e = None \<or> e = Some io_EOF \<and> r_script (d_r c') = []" by auto
    show ?thesis
    proof (cases e)
      case None
      with "1.IH"(1) [OF True _ None] re c' True show ?thesis
        by (simp add: cdc_fill.simps [of c])
    next
      case (Some err)
      with c' have "cdc_inv L (c'\<lparr>d_eofSeen := True\<rparr>)" "err = io_EOF"
        "cdc_rest (c'\<lparr>d_eofSeen := True\<rparr>) = cdc_rest c"
        by (auto simp: cdc_inv_def cdc_rest_def cdc_window_def split: if_splits)
      with "1.IH"(2) [OF True _ Some] re Some True show ?thesis
        by (simp add: cdc_fill.simps [of c])
    qed
  qed
qed

text \<open>Cutting at a position of the buffer is cutting the bytes still to come.\<close>

lemma cdc_advance:
  assumes inv: "cdc_inv L c" and k: "k \<le> length (cdc_window c)"
  shows "slice (d_buf c) (d_pos c) (d_pos c + k) = take k (cdc_rest c)"
    and "cdc_rest (c\<lparr>d_pos := d_pos c + k\<rparr>) = drop k (cdc_rest c)"
    and "cdc_inv L (c\<lparr>d_pos := d_pos c + k\<rparr>)"
proof -
  note len = length_cdc_window [OF inv]
  with inv k have b: "d_pos c \<le> d_pos c + k" "d_pos c + k \<le> d_limit c"
    by (auto simp: cdc_inv_def)
  from slice_append_slice [OF b, of "d_buf c"]
  have w: "cdc_window c = slice (d_buf c) (d_pos c) (d_pos c + k) @
      slice (d_buf c) (d_pos c + k) (d_limit c)"
    by (simp add: cdc_window_def)
  moreover have l: "length (slice (d_buf c) (d_pos c) (d_pos c + k)) = k"
    using inv b by (simp add: cdc_inv_def)
  ultimately show "slice (d_buf c) (d_pos c) (d_pos c + k) = take k (cdc_rest c)"
    and "cdc_rest (c\<lparr>d_pos := d_pos c + k\<rparr>) = drop k (cdc_rest c)"
    by (simp_all add: cdc_rest_def cdc_window_def)
  show "cdc_inv L (c\<lparr>d_pos := d_pos c + k\<rparr>)"
    using inv b by (simp add: cdc_inv_def)
qed

lemma cdc_cut_window:
  assumes inv: "cdc_inv L c"
    and full: "fastcdcMax \<le> length (cdc_window c) \<or> cdc_rest c = cdc_window c"
    and long: "fastcdcMin < length (cdc_window c)"
  shows "cdc_scan (d_buf c) (d_pos c) (d_pos c + min (length (cdc_window c)) fastcdcMax)
      (d_pos c + fastcdcMin) 0 = d_pos c + cdc_cut (cdc_rest c)"
    and "cdc_cut (cdc_rest c) \<le> length (cdc_window c)"
proof -
  let ?w = "cdc_window c" and ?r = "cdc_rest c"
  have pre: "length ?w \<le> length ?r" by (simp add: cdc_rest_def)
  with long have longr: "fastcdcMin < length ?r" by simp
  have e: "min (length ?w) fastcdcMax = min (length ?r) fastcdcMax" using full pre by auto
  have nth: "d_buf c ! (d_pos c + k) = ?r ! k" if "k < min (length ?w) fastcdcMax" for k
    using that inv by (simp add: cdc_rest_def nth_append cdc_window_def nth_slice cdc_inv_def)
  from cdc_scan_window [of "min (length ?w) fastcdcMax" "d_buf c" "d_pos c" ?r fastcdcMin 0] nth
  show "cdc_scan (d_buf c) (d_pos c) (d_pos c + min (length ?w) fastcdcMax)
      (d_pos c + fastcdcMin) 0 = d_pos c + cdc_cut ?r"
    using longr by (simp add: cdc_cut_def e)
  show "cdc_cut ?r \<le> length ?w" using cdc_cut_bounds [OF longr] e by linarith
qed

lemma cdc_Next_cut:
  assumes inv: "cdc_inv L c" and ne: "cdc_rest c \<noteq> []"
  shows "\<exists>c'. cdc_Next L alg c = (makeBlock L alg (take (cdc_cut (cdc_rest c)) (cdc_rest c)), c') \<and>
    cdc_inv L c' \<and> cdc_rest c' = drop (cdc_cut (cdc_rest c)) (cdc_rest c)"
proof -
  from cdc_fill_rest [OF inv] obtain c1 where f: "cdc_fill c = (None, c1)" "cdc_inv L c1"
    "cdc_rest c1 = cdc_rest c"
    "fastcdcMax \<le> length (cdc_window c1) \<or> cdc_rest c1 = cdc_window c1 \<and> d_eofSeen c1"
    by blast
  let ?k = "cdc_cut (cdc_rest c)"
  have len: "d_limit c1 - d_pos c1 = length (cdc_window c1)"
    using f(2) by (simp add: length_cdc_window)
  have w0: "cdc_window c1 \<noteq> []" using f(3,4) ne fastcdc_consts(4) by auto
  have kpos: "0 < ?k" "?k \<le> length (cdc_rest c)" using cdc_cut_pos [OF ne] by auto
  show ?thesis
  proof (cases "length (cdc_window c1) \<le> fastcdcMin")
    case True
    then have "cdc_rest c1 = cdc_window c1" using f(4) fastcdc_consts(2) by linarith
    with True f(3) have k: "?k = length (cdc_window c1)" by (simp add: cdc_cut_def)
    moreover have "d_limit c1 = d_pos c1 + ?k"
      using len k f(2) unfolding cdc_inv_def by linarith
    ultimately show ?thesis
      using f True w0 kpos cdc_advance [OF f(2), of ?k] len
      by (auto simp: cdc_Next_def makeFastCDCBlock_def Let_def)
  next
    case False
    note cut = cdc_cut_window [OF f(2)] f(4)
    have stop: "(if d_pos c1 + fastcdcMax < d_pos c1 + length (cdc_window c1)
        then d_pos c1 + fastcdcMax else d_pos c1 + length (cdc_window c1)) =
      d_pos c1 + min (length (cdc_window c1)) fastcdcMax"
      by simp
    have scan: "cdc_scan (d_buf c1) (d_pos c1) (d_pos c1 + min (length (cdc_window c1)) fastcdcMax)
        (d_pos c1 + fastcdcMin) 0 = d_pos c1 + ?k" and k: "?k \<le> length (cdc_window c1)"
      using cut False f(3) by auto
    have "cdc_Next L alg c = (makeFastCDCBlock L alg (slice (d_buf c1) (d_pos c1) (d_pos c1 + ?k)),
        c1\<lparr>d_pos := d_pos c1 + ?k\<rparr>)"
      using False w0
      unfolding cdc_Next_def f(1) prod.case option.case Let_def len stop scan by simp
    with k kpos cdc_advance [OF f(2), of ?k] f(3) show ?thesis
      by (auto simp: makeFastCDCBlock_def)
  qed
qed

lemma cdc_Next_end:
  assumes inv: "cdc_inv L c" and "cdc_rest c = []"
  shows "\<exists>c'. cdc_Next L alg c = (Inl io_EOF, c') \<and> cdc_inv L c' \<and> cdc_rest c' = []"
proof -
  from cdc_fill_rest [OF inv] obtain c1 where f: "cdc_fill c = (None, c1)" "cdc_inv L c1"
    "cdc_rest c1 = []"
    using assms(2) by auto
  then have "cdc_window c1 = []" by (simp add: cdc_rest_def)
  then have "d_limit c1 - d_pos c1 = 0" using length_cdc_window [OF f(2)] by simp
  with f show ?thesis
    by (auto simp: cdc_Next_def cdc_inv_def cdc_rest_def cdc_window_def closeReader_def)
qed

interpretation fastcdc: chunker L alg "cdc_Next L alg" "\<lambda>c. cdc_split (cdc_rest c)" "cdc_inv L"
  for L alg
proof
  fix c
  assume "cdc_inv L c" "cdc_split (cdc_rest c) = []"
  then show "\<exists>c'. cdc_Next L alg c = (Inl io_EOF, c') \<and> cdc_inv L c' \<and> cdc_split (cdc_rest c') = []"
    using cdc_Next_end [of L c alg] by auto
next
  fix c d ds
  assume inv: "cdc_inv L c" and sp: "cdc_split (cdc_rest c) = d # ds"
  then have ne: "cdc_rest c \<noteq> []" by auto
  from sp have "d = take (cdc_cut (cdc_rest c)) (cdc_rest c)"
    "ds = cdc_split (drop (cdc_cut (cdc_rest c)) (cdc_rest c))"
    by (simp_all add: cdc_split.simps [of "cdc_rest c"] ne)
  moreover obtain b where "makeBlock L alg d = Inr b"
    using makeBlock_total [of L alg d] inv by (auto simp: cdc_inv_def)
  ultimately show "\<exists>c' b. cdc_Next L alg c = (Inr b, c') \<and> makeBlock L alg d = Inr b \<and>
      cdc_inv L c' \<and> cdc_split (cdc_rest c') = ds"
    using cdc_Next_cut [OF inv ne, of alg] by auto
next
  fix c d
  assume "d \<in> set (cdc_split (cdc_rest c))"
  then have "d \<noteq> []" "length d \<le> fastcdcMax" by (simp_all add: cdc_split_bounds)
  moreover have "fastcdcMax \<le> MaxBlockSize" by simp
  ultimately show "d \<noteq> [] \<and> length d \<le> MaxBlockSize" by linarith
qed

section \<open>Properties\<close>

text \<open>
  Property C13. FastCDC over any reader that ends with io.EOF delivers, however the reader cuts its
  reads, exactly the chunks of the reference split of the stream's bytes: cut points are a
  function of the content alone, the data concatenate to the stream, every chunk has at most 512
  KiB and every chunk but the last at least 64 KiB.
\<close>

theorem fastcdc_content_defined:
  assumes "hashlib_ok L" and "NewFastCDC (Some rd) = Inr c" and "eof_only (r_script rd)"
  shows "\<exists>bs. drain (cdc_Next L alg) (Suc (length (stream (r_script rd)))) c = Some (bs, io_EOF) \<and>
    map Block_Data bs = cdc_split (stream (r_script rd)) \<and>
    concat (map Block_Data bs) = stream (r_script rd) \<and>
    (\<forall>i. i < length bs \<longrightarrow> length (Block_Data (bs ! i)) \<le> fastcdcMax \<and>
        (Suc i < length bs \<longrightarrow> fastcdcMin \<le> length (Block_Data (bs ! i))))"
proof -
  let ?s = "stream (r_script rd)"
  from assms(2) have c: "d_r c = rd" "\<not> d_eofSeen c" "cdc_window c = []"
    "length (d_buf c) = fastcdcMax * 2" "d_pos c = 0" "d_limit c = 0"
    by (auto simp: NewFastCDC_def cdc_window_def)
  then have inv: "cdc_inv L c" and rest: "cdc_rest c = ?s"
    using assms(1,3) by (simp_all add: cdc_inv_def cdc_rest_def)
  have "length (cdc_split ?s) \<le> length ?s"
    using length_concat_ge [of "cdc_split ?s"] cdc_split_bounds by (metis cdc_split_concat)
  with fastcdc.drain_chunks [OF inv, of "Suc (length ?s)"] obtain bs where
    bs: "drain (cdc_Next L alg) (Suc (length ?s)) c = Some (bs, io_EOF)"
      "map (makeBlock L alg) (cdc_split ?s) = map Inr bs"
    by (auto simp: rest)
  from blocks_data_concat [OF bs(2)] have data: "map Block_Data bs = cdc_split ?s" .
  then have nth: "Block_Data (bs ! i) = cdc_split ?s ! i" if "i < length bs" for i
    using that by (metis nth_map)
  have len: "length bs = length (cdc_split ?s)" using data by (metis length_map)
  have "length (Block_Data (bs ! i)) \<le> fastcdcMax" if "i < length bs" for i
    using that nth len cdc_split_bounds [of "cdc_split ?s ! i" ?s] by simp
  moreover have "fastcdcMin \<le> length (Block_Data (bs ! i))" if "Suc i < length bs" for i
    using that nth [of i] len cdc_split_min [of i ?s] by simp
  ultimately show ?thesis using bs(1) data by (metis cdc_split_concat)
qed

theorem fastcdc_content_defined_witness:
  "\<exists>c bs. NewFastCDC (Some \<lparr>r_script = [([7], None), ([], None), ([8, 9], None)], r_closed = False\<rparr>) = Inr c \<and>
     drain (cdc_Next demo_lib mh_BLAKE3) 4 c = Some (bs, io_EOF) \<and>
     concat (map Block_Data bs) = [7, 8, 9]"
proof -
  let ?rd = "\<lparr>r_script = [([7], None), ([], None), ([8, 9], None)], r_closed = False\<rparr> :: reader"
  have e: "eof_only (r_script ?rd)" and s: "stream (r_script ?rd) = [7, 8, 9]" by simp_all
  obtain c where c: "NewFastCDC (Some ?rd) = Inr c" by (simp add: NewFastCDC_def)
  from fastcdc_content_defined [OF demo_lib_ok c e, of mh_BLAKE3] c show ?thesis
    by (auto simp: s numeral_eq_Suc)
qed

end
