(* ===== verification/Rabin.thy ===== *)
theory Rabin
  imports Chunk
begin

text \<open>
  core/chunk/rabin.go: content-defined chunking by a rolling fingerprint, one byte at a time. The
  chunks are those of the reference \<open>rabin_split\<close> of the stream's bytes. The fingerprint is
  determined by the last 128 bytes since the previous cut, and not by the 64 bytes of the window.
\<close>

section \<open>The code\<close>

definition rabinMin :: nat where "rabinMin = 64 * 1024"
definition rabinMax :: nat where "rabinMax = 512 * 1024"
definition rabinWindow :: nat where "rabinWindow = 64"
definition rabinPolynomial :: u64 where "rabinPolynomial = 0x3DA3358B4DC173"
definition rabinMask :: u64 where "rabinMask = push_bit 18 1 - 1"

definition shiftTable :: "byte \<Rightarrow> u64" where
  "shiftTable i = ucast i * rabinPolynomial"

definition io_ErrNoProgress :: gerror where
  "io_ErrNoProgress = Sentinel ''multiple Read calls return no data or error''"

record rabinChunker =
  e_r :: reader
  e_buf :: bytes
  e_start :: nat
  e_filled :: nat
  e_carry :: u64
  e_pending :: bytes
  e_eofSeen :: bool

definition rabin_Close :: "rabinChunker \<Rightarrow> rabinChunker" where
  "rabin_Close c = c\<lparr>e_eofSeen := True, e_r := closeReader (e_r c)\<rparr>"

definition NewRabin :: "reader option \<Rightarrow> rabinChunker result" where
  "NewRabin r =
     (case r of
        None \<Rightarrow> Inl (Msg ''chunk: nil reader'')
      | Some rd \<Rightarrow> Inr \<lparr>e_r = rd, e_buf = replicate rabinWindow 0, e_start = 0, e_filled = 0,
                         e_carry = 0, e_pending = [], e_eofSeen = False\<rparr>)"

definition rollByte :: "byte \<Rightarrow> rabinChunker \<Rightarrow> rabinChunker" where
  "rollByte b c =
     (let outgoing = e_buf c ! e_start c
      in c\<lparr>e_buf := (e_buf c)[e_start c := b],
            e_start := (e_start c + 1) mod rabinWindow,
            e_filled := (if e_filled c < rabinWindow then e_filled c + 1 else e_filled c),
            e_carry := push_bit 1 (e_carry c - shiftTable outgoing) + shiftTable b\<rparr>)"

definition makeRabinBlock :: "hashlib \<Rightarrow> u64 \<Rightarrow> bytes \<Rightarrow> Block result" where
  "makeRabinBlock L alg data =
     (if length data = 0 then Inl (Msg ''chunk: refusing to emit empty block'')
      else makeBlock L alg data)"

definition rabin_cut :: "hashlib \<Rightarrow> u64 \<Rightarrow> rabinChunker \<Rightarrow> Block result \<times> rabinChunker" where
  "rabin_cut L alg c =
     (if length (e_pending c) = 0 then (Inl io_ErrNoProgress, c)
      else (makeRabinBlock L alg (e_pending c),
            c\<lparr>e_pending := [], e_filled := 0, e_start := 0, e_carry := 0,
               e_buf := replicate rabinWindow 0\<rparr>))"

text \<open>The loop of Next. A byte that arrives together with an error hides the error, as in the code.\<close>

function rabin_loop :: "hashlib \<Rightarrow> u64 \<Rightarrow> rabinChunker \<Rightarrow> Block result \<times> rabinChunker" where
  "rabin_loop L alg c =
     (case read_call (r_script (e_r c)) 1 of
        ((b # _, _), rs') \<Rightarrow>
          (let c1 = rollByte b (c\<lparr>e_r := (e_r c)\<lparr>r_script := rs'\<rparr>\<rparr>);
               c2 = c1\<lparr>e_pending := e_pending c1 @ [b]\<rparr>
           in if rabinMax \<le> length (e_pending c2) then rabin_cut L alg c2
              else if rabinMin \<le> length (e_pending c2) \<and> e_carry c2 AND rabinMask = 0
              then rabin_cut L alg c2
              else rabin_loop L alg c2)
      | (([], Some err), rs') \<Rightarrow>
          (let c1 = c\<lparr>e_eofSeen := True, e_r := closeReader ((e_r c)\<lparr>r_script := rs'\<rparr>)\<rparr>
           in if errors_Is err io_EOF
              then (if length (e_pending c1) = 0 then (Inl io_EOF, c1) else rabin_cut L alg c1)
              else (Inl (Wrap ''chunk: rabin read'' err), c1))
      | (([], None), rs') \<Rightarrow> rabin_loop L alg (c\<lparr>e_r := (e_r c)\<lparr>r_script := rs'\<rparr>\<rparr>))"
  by pat_completeness auto
termination
  by (relation "measure (\<lambda>(L, alg, c). script_size (r_script (e_r c)))")
    (auto simp: rollByte_def Let_def dest!: read_call_size [OF sym])

declare rabin_loop.simps [simp del]

definition rabin_Next :: "hashlib \<Rightarrow> u64 \<Rightarrow> rabinChunker \<Rightarrow> Block result \<times> rabinChunker" where
  "rabin_Next L alg c = (if e_eofSeen c then (Inl io_EOF, c) else rabin_loop L alg c)"

section \<open>The reference split\<close>

text \<open>The state of the fingerprint: the circular window, its start and the carry.\<close>

type_synonym roll = "bytes \<times> nat \<times> u64"

definition roll_init :: roll where "roll_init = (replicate rabinWindow 0, 0, 0)"

fun roll_step :: "roll \<Rightarrow> byte \<Rightarrow> roll" where
  "roll_step (buf, start, carry) b =
     (buf[start := b], (start + 1) mod rabinWindow,
      push_bit 1 (carry - shiftTable (buf ! start)) + shiftTable b)"

text \<open>How many of the bytes are taken before a cut, with \<open>n\<close> bytes already pending.\<close>

fun rabin_run :: "roll \<Rightarrow> nat \<Rightarrow> bytes \<Rightarrow> nat" where
  "rabin_run st n [] = 0"
| "rabin_run st n (b # bs) =
     (let st' = roll_step st b
      in if rabinMax \<le> Suc n \<or> rabinMin \<le> Suc n \<and> snd (snd st') AND rabinMask = 0 then 1
         else Suc (rabin_run st' (Suc n) bs))"

function rabin_split :: "bytes \<Rightarrow> bytes list" where
  "rabin_split bs =
     (if bs = [] then []
      else let k = rabin_run roll_init 0 bs in take k bs # rabin_split (drop k bs))"
  by pat_completeness auto
termination
proof (relation "measure length", goal_cases)
  case (2 bs k)
  then show ?case by (cases bs) (auto simp: Let_def)
qed simp

declare rabin_split.simps [simp del]

lemma rabin_split_Nil [simp]: "rabin_split [] = []"
  by (simp add: rabin_split.simps)

lemma rabin_split_Nil_iff [simp]: "rabin_split bs = [] \<longleftrightarrow> bs = []"
  by (auto simp: rabin_split.simps [of bs] Let_def)

lemma rabin_split_concat: "concat (rabin_split bs) = bs"
  by (induction bs rule: rabin_split.induct) (subst rabin_split.simps, simp add: Let_def)

lemma rabin_run_bounds:
  "n < rabinMax \<Longrightarrow> rabin_run st n bs \<le> length bs \<and> n + rabin_run st n bs \<le> rabinMax"
  by (induction st n bs rule: rabin_run.induct) (auto simp: Let_def)

lemma rabin_run_pos: "bs \<noteq> [] \<Longrightarrow> 0 < rabin_run st n bs"
  by (cases bs) (auto simp: Let_def)

lemma rabin_run_min:
  "rabin_run st n bs < length bs \<Longrightarrow> rabinMin \<le> n + rabin_run st n bs"
proof (induction st n bs rule: rabin_run.induct)
  case (2 st n b bs)
  have "rabinMin \<le> rabinMax" by (simp add: rabinMin_def rabinMax_def)
  with 2 show ?case by (auto simp: Let_def split: if_splits)
qed simp

lemma rabinMax_pos [simp]: "0 < rabinMax" "rabinMax \<le> MaxBlockSize"
  by (simp_all add: rabinMax_def MaxBlockSize_def)

lemma rabin_split_bounds:
  "d \<in> set (rabin_split bs) \<Longrightarrow> d \<noteq> [] \<and> length d \<le> rabinMax"
proof (induction bs rule: rabin_split.induct)
  case (1 bs)
  show ?case
  proof (cases "bs = []")
    case False
    let ?k = "rabin_run roll_init 0 bs"
    from 1(2) False have "d = take ?k bs \<or> d \<in> set (rabin_split (drop ?k bs))"
      by (simp add: rabin_split.simps [of bs] Let_def)
    moreover have "0 < ?k" "?k \<le> rabinMax"
      using rabin_run_pos [OF False] rabin_run_bounds [of 0 roll_init bs] by simp_all
    ultimately show ?thesis using "1.IH" [OF False refl] False by auto
  qed (use 1 in simp)
qed

lemma rabin_split_min:
  "Suc i < length (rabin_split bs) \<Longrightarrow> rabinMin \<le> length (rabin_split bs ! i)"
proof (induction bs arbitrary: i rule: rabin_split.induct)
  case (1 bs)
  let ?k = "rabin_run roll_init 0 bs"
  have ne: "bs \<noteq> []" using "1.prems" by auto
  then have eq: "rabin_split bs = take ?k bs # rabin_split (drop ?k bs)"
    by (simp add: rabin_split.simps [of bs] Let_def)
  show ?case
  proof (cases i)
    case 0
    have "?k < length bs" using "1.prems" eq 0 by auto
    with rabin_run_min [of roll_init 0 bs] eq 0 show ?thesis by simp
  next
    case (Suc j)
    with "1.IH" [OF ne refl, of j] "1.prems" eq show ?thesis by simp
  qed
qed

section \<open>The chunker delivers the reference split\<close>

definition roll_of :: "rabinChunker \<Rightarrow> roll" where
  "roll_of c = (e_buf c, e_start c, e_carry c)"

definition rabin_fresh :: "rabinChunker \<Rightarrow> bool" where
  "rabin_fresh c = (e_pending c = [] \<and> roll_of c = roll_init)"

definition rabin_rest :: "rabinChunker \<Rightarrow> bytes" where
  "rabin_rest c = (if e_eofSeen c then [] else stream (r_script (e_r c)))"

lemma rollByte_roll: "roll_of (rollByte b c) = roll_step (roll_of c) b"
  by (simp add: rollByte_def roll_of_def Let_def)

lemma rollByte_frame [simp]:
  "e_pending (rollByte b c) = e_pending c" "e_eofSeen (rollByte b c) = e_eofSeen c"
  "e_r (rollByte b c) = e_r c"
  by (simp_all add: rollByte_def Let_def)

lemma rabin_cut_fresh:
  "e_pending c \<noteq> [] \<Longrightarrow> rabin_cut L alg c = (r, c') \<Longrightarrow>
     r = makeBlock L alg (e_pending c) \<and> rabin_fresh c' \<and> e_r c' = e_r c \<and> e_eofSeen c' = e_eofSeen c"
  by (auto simp: rabin_cut_def rabin_fresh_def roll_of_def roll_init_def makeRabinBlock_def)

lemma rabin_loop_run:
  assumes "eof_only (r_script (e_r c))" "\<not> e_eofSeen c" "rabin_loop L alg c = (r, c')"
    "e_pending c @ rabin_rest c \<noteq> []"
  defines "k \<equiv> rabin_run (roll_of c) (length (e_pending c)) (rabin_rest c)"
  shows "r = makeBlock L alg (e_pending c @ take k (rabin_rest c)) \<and> rabin_fresh c' \<and>
    rabin_rest c' = drop k (rabin_rest c) \<and> eof_only (r_script (e_r c'))"
  using assms(1-4) unfolding k_def
proof (induction L alg c rule: rabin_loop.induct)
  case (1 L alg c)
  let ?rs = "r_script (e_r c)"
  obtain bs e rs' where rd: "read_call ?rs 1 = ((bs, e), rs')" by (metis prod.exhaust)
  note st = read_call_stream [OF rd] and eo = read_call_eof_only [OF "1.prems"(1) rd]
  show ?case
  proof (cases bs)
    case (Cons b bs')
    with st have bs: "bs = [b]" and rest: "rabin_rest c = b # stream rs'"
      using "1.prems"(2) by (auto simp: rabin_rest_def)
    define c2 where "c2 = rollByte b (c\<lparr>e_r := (e_r c)\<lparr>r_script := rs'\<rparr>\<rparr>)
        \<lparr>e_pending := e_pending c @ [b]\<rparr>"
    have c2: "e_pending c2 = e_pending c @ [b]" "r_script (e_r c2) = rs'" "\<not> e_eofSeen c2"
      "roll_of c2 = roll_step (roll_of c) b" "snd (snd (roll_of c2)) = e_carry c2"
      "rabin_rest c2 = stream rs'"
      using rollByte_roll [of b "c\<lparr>e_r := (e_r c)\<lparr>r_script := rs'\<rparr>\<rparr>"] "1.prems"(2)
      by (simp_all add: c2_def roll_of_def rabin_rest_def)
    let ?stop = "rabinMax \<le> length (e_pending c2) \<or>
        rabinMin \<le> length (e_pending c2) \<and> e_carry c2 AND rabinMask = 0"
    have loop: "rabin_loop L alg c = (if ?stop then rabin_cut L alg c2 else rabin_loop L alg c2)"
      using rd bs by (simp add: rabin_loop.simps [of L alg c] c2_def Let_def)
    show ?thesis
    proof (cases ?stop)
      case True
      have "rabin_cut L alg c2 = (r, c')"
        using loop "1.prems"(3) unfolding if_P [OF True] by simp
      from rabin_cut_fresh [OF _ this] c2(1-3) eo True rest c2(4-6) show ?thesis
        by (auto simp: Let_def rabin_rest_def)
    next
      case False
      have nempty: "e_pending c2 @ rabin_rest c2 \<noteq> []" using c2(1) by simp
      have rec: "rabin_loop L alg c2 = (r, c')"
        using loop "1.prems"(3) unfolding if_not_P [OF False] by simp
      have "eof_only (r_script (e_r c2))" using eo c2(2) by simp
      with "1.IH"(2) [OF rd [symmetric] refl _ refl _ _ _ _ c2(3) rec nempty] Cons False
      show ?thesis
        using c2 rest bs by (auto simp: Let_def c2_def)
    qed
  next
    case Nil
    show ?thesis
    proof (cases e)
      case None
      let ?c1 = "c\<lparr>e_r := (e_r c)\<lparr>r_script := rs'\<rparr>\<rparr>"
      have same: "rabin_rest ?c1 = rabin_rest c" "roll_of ?c1 = roll_of c"
        using st Nil by (simp_all add: rabin_rest_def roll_of_def)
      from "1.prems"(3) rd Nil None have "rabin_loop L alg ?c1 = (r, c')"
        by (simp add: rabin_loop.simps [of L alg c])
      with "1.IH"(1) [OF rd [symmetric] refl Nil None] eo "1.prems" same show ?thesis by simp
    next
      case (Some err)
      with eo have "err = io_EOF" "rs' = []" by auto
      moreover from this st Nil have rest: "rabin_rest c = []" by (simp add: rabin_rest_def)
      ultimately show ?thesis
        using "1.prems"(3,4) rd Nil Some
        by (auto simp: rabin_loop.simps [of L alg c] Let_def rabin_rest_def closeReader_def
            dest!: rabin_cut_fresh [rotated])
    qed
  qed
qed

definition rabin_inv :: "hashlib \<Rightarrow> rabinChunker \<Rightarrow> bool" where
  "rabin_inv L c =
     (hashlib_ok L \<and> rabin_fresh c \<and> eof_only (r_script (e_r c)))"

lemma rabin_Next_more:
  assumes inv: "rabin_inv L c" and sp: "rabin_split (rabin_rest c) = d # ds"
  shows "\<exists>c' b. rabin_Next L alg c = (Inr b, c') \<and> makeBlock L alg d = Inr b \<and>
    rabin_inv L c' \<and> rabin_split (rabin_rest c') = ds"
proof -
  let ?k = "rabin_run roll_init 0 (rabin_rest c)"
  have ne: "rabin_rest c \<noteq> []" using sp by auto
  then have open1: "\<not> e_eofSeen c" by (auto simp: rabin_rest_def)
  from sp ne have d: "d = take ?k (rabin_rest c)" "ds = rabin_split (drop ?k (rabin_rest c))"
    by (auto simp: rabin_split.simps [of "rabin_rest c"] Let_def)
  obtain r c' where l: "rabin_loop L alg c = (r, c')" by fastforce
  have "r = makeBlock L alg d \<and> rabin_fresh c' \<and> rabin_rest c' = drop ?k (rabin_rest c) \<and>
      eof_only (r_script (e_r c'))"
    using rabin_loop_run [OF _ open1 l] inv ne d(1) by (simp add: rabin_inv_def rabin_fresh_def)
  moreover obtain b where "makeBlock L alg d = Inr b"
    using makeBlock_total [of L alg d] inv by (auto simp: rabin_inv_def)
  ultimately show ?thesis
    using l open1 d(2) inv by (auto simp: rabin_Next_def rabin_inv_def)
qed

lemma rabin_Next_end:
  assumes inv: "rabin_inv L c" and "rabin_rest c = []"
  shows "\<exists>c'. rabin_Next L alg c = (Inl io_EOF, c') \<and> rabin_inv L c' \<and> rabin_rest c' = []"
proof (cases "e_eofSeen c")
  case True
  with inv show ?thesis by (simp add: rabin_Next_def rabin_rest_def)
next
  case False
  have "\<exists>c'. rabin_loop L alg c = (Inl io_EOF, c') \<and> rabin_inv L c' \<and> rabin_rest c' = []"
    if "eof_only (r_script (e_r c))" "stream (r_script (e_r c)) = []" "\<not> e_eofSeen c"
      "rabin_inv L c" for c
    using that
  proof (induction L alg c rule: rabin_loop.induct)
    case (1 L alg c)
    obtain bs e rs' where rd: "read_call (r_script (e_r c)) 1 = ((bs, e), rs')"
      by (metis prod.exhaust)
    note st = read_call_stream [OF rd] and eo = read_call_eof_only [OF "1.prems"(1) rd]
    have bs: "bs = []" using st "1.prems"(2) by simp
    show ?case
    proof (cases e)
      case None
      with "1.IH"(1) [OF rd [symmetric] refl bs None] "1.prems" st eo rd bs show ?thesis
        by (simp add: rabin_loop.simps [of L alg c] rabin_inv_def rabin_fresh_def roll_of_def)
    next
      case (Some err)
      with "1.prems" eo rd bs show ?thesis
        by (auto simp: rabin_loop.simps [of L alg c] rabin_inv_def rabin_fresh_def roll_of_def
            rabin_rest_def closeReader_def Let_def)
    qed
  qed
  with False assms show ?thesis by (simp add: rabin_Next_def rabin_rest_def rabin_inv_def)
qed

interpretation rabin: chunker L alg "rabin_Next L alg" "\<lambda>c. rabin_split (rabin_rest c)" "rabin_inv L"
  for L alg
proof
  fix c
  assume "rabin_inv L c" "rabin_split (rabin_rest c) = []"
  then show "\<exists>c'. rabin_Next L alg c = (Inl io_EOF, c') \<and> rabin_inv L c' \<and>
      rabin_split (rabin_rest c') = []"
    using rabin_Next_end [of L c alg] by auto
next
  fix c d
  assume "d \<in> set (rabin_split (rabin_rest c))"
  then have "d \<noteq> []" "length d \<le> rabinMax" by (simp_all add: rabin_split_bounds)
  moreover have "rabinMax \<le> MaxBlockSize" by simp
  ultimately show "d \<noteq> [] \<and> length d \<le> MaxBlockSize" by linarith
qed (rule rabin_Next_more)

section \<open>What the fingerprint depends on\<close>

text \<open>The fingerprint after a history of bytes since the last cut, newest byte first.\<close>

fun rcarry :: "bytes \<Rightarrow> u64" where
  "rcarry [] = 0"
| "rcarry (b # h) =
     push_bit 1 (rcarry h - shiftTable ((h @ replicate rabinWindow 0) ! (rabinWindow - 1)))
       + shiftTable b"

text \<open>The circular window holds the last 64 bytes of the history, padded with zeros.\<close>

definition window_ok :: "bytes \<Rightarrow> roll \<Rightarrow> bool" where
  "window_ok h st =
     (case st of (buf, start, carry) \<Rightarrow>
        length buf = rabinWindow \<and> start < rabinWindow \<and> carry = rcarry h \<and>
        (\<forall>j < rabinWindow. buf ! ((start + j) mod rabinWindow) =
            (h @ replicate rabinWindow 0) ! (rabinWindow - 1 - j)))"

lemma window_ok_init: "window_ok [] roll_init"
  by (simp add: window_ok_def roll_init_def rabinWindow_def)

lemma window_ok_step: "window_ok h st \<Longrightarrow> window_ok (b # h) (roll_step st b)"
proof -
  obtain buf start carry where st: "st = (buf, start, carry)" by (cases st)
  assume "window_ok h st"
  then have len: "length buf = 64" "start < 64" and carry: "carry = rcarry h"
    and win: "\<And>j. j < 64 \<Longrightarrow> buf ! ((start + j) mod 64) = (h @ replicate 64 0) ! (63 - j)"
    by (simp_all add: st window_ok_def rabinWindow_def)
  have out: "buf ! start = (h @ replicate 64 0) ! 63" using win [of 0] len by simp
  have "buf[start := b] ! ((start + 1 + j) mod 64) = (b # h @ replicate 64 0) ! (63 - j)"
    if j: "j < 64" for j
  proof (cases "j = 63")
    case True
    then show ?thesis using len by simp
  next
    case False
    then have "(start + 1 + j) mod 64 \<noteq> start" using j len by (auto simp: mod_if split: if_splits)
    moreover have "63 - j = Suc (63 - Suc j)" using False j by simp
    ultimately show ?thesis using win [of "Suc j"] False j by simp
  qed
  then show ?thesis
    using len carry out by (simp add: st window_ok_def rabinWindow_def mod_simps)
qed

lemma roll_carry: "snd (snd (foldl roll_step roll_init bs)) = rcarry (rev bs)"
proof -
  have "window_ok (rev bs) (foldl roll_step roll_init bs)"
    by (induction bs rule: rev_induct) (simp_all add: window_ok_init window_ok_step)
  then show ?thesis by (auto simp: window_ok_def split: prod.splits)
qed

lemma rcarry_far:
  assumes "length ys = rabinWindow"
  shows "rcarry (zs @ ys @ h) - rcarry (zs @ ys @ h') =
    push_bit (length zs) (rcarry (ys @ h) - rcarry (ys @ h'))"
proof (induction zs)
  case (Cons z zs)
  have "((zs @ ys @ h) @ r) ! (rabinWindow - 1) = ((zs @ ys @ h') @ r) ! (rabinWindow - 1)" for r
    using assms by (auto simp: nth_append rabinWindow_def)
  from this [of "replicate rabinWindow 0"] have "rcarry ((z # zs) @ ys @ h) - rcarry ((z # zs) @ ys @ h') =
      2 * (rcarry (zs @ ys @ h) - rcarry (zs @ ys @ h'))"
    by (simp add: push_bit_eq_mult algebra_simps)
  then show ?case
    unfolding Cons.IH by (simp add: push_bit_eq_mult)
qed simp

lemma roll_of_fold: "roll_of (fold rollByte bs c) = foldl roll_step (roll_of c) bs"
  by (induction bs arbitrary: c) (simp_all add: rollByte_roll)

lemma fold_carry:
  assumes "NewRabin r = Inr c"
  shows "e_carry (fold rollByte bs c) = rcarry (rev bs)"
proof -
  from assms have "roll_of c = roll_init"
    by (auto simp: NewRabin_def roll_of_def roll_init_def split: option.splits)
  with roll_of_fold [of bs c] have "roll_of (fold rollByte bs c) = foldl roll_step roll_init bs"
    by simp
  then have "e_carry (fold rollByte bs c) = snd (snd (foldl roll_step roll_init bs))"
    by (metis roll_of_def snd_conv)
  then show ?thesis by (simp only: roll_carry)
qed

section \<open>Properties\<close>

text \<open>
  Property C27. The Rabin chunker over any reader that ends with io.EOF delivers, however the
  reader cuts its reads, the chunks of the reference split of the stream's bytes; the data
  concatenate to the stream, every chunk has at most 512 KiB and every chunk but the last at least
  64 KiB.
\<close>

theorem rabin_content_defined:
  assumes "hashlib_ok L" and "NewRabin (Some rd) = Inr c" and "eof_only (r_script rd)"
  shows "\<exists>bs. drain (rabin_Next L alg) (Suc (length (stream (r_script rd)))) c = Some (bs, io_EOF) \<and>
    map Block_Data bs = rabin_split (stream (r_script rd)) \<and>
    concat (map Block_Data bs) = stream (r_script rd) \<and>
    (\<forall>i. i < length bs \<longrightarrow> length (Block_Data (bs ! i)) \<le> rabinMax \<and>
        (Suc i < length bs \<longrightarrow> rabinMin \<le> length (Block_Data (bs ! i))))"
proof -
  let ?s = "stream (r_script rd)"
  from assms have inv: "rabin_inv L c" and rest: "rabin_rest c = ?s"
    by (auto simp: NewRabin_def rabin_inv_def rabin_fresh_def roll_of_def roll_init_def
        rabin_rest_def)
  have "length (rabin_split ?s) \<le> length ?s"
    using length_concat_ge [of "rabin_split ?s"] rabin_split_bounds by (metis rabin_split_concat)
  with rabin.drain_chunks [OF inv, of "Suc (length ?s)"] obtain bs where
    bs: "drain (rabin_Next L alg) (Suc (length ?s)) c = Some (bs, io_EOF)"
      "map (makeBlock L alg) (rabin_split ?s) = map Inr bs"
    by (auto simp: rest)
  from blocks_data_concat [OF bs(2)] have data: "map Block_Data bs = rabin_split ?s" .
  then have nth: "Block_Data (bs ! i) = rabin_split ?s ! i" if "i < length bs" for i
    using that by (metis nth_map)
  have len: "length bs = length (rabin_split ?s)" using data by (metis length_map)
  have "length (Block_Data (bs ! i)) \<le> rabinMax" if "i < length bs" for i
    using that nth len rabin_split_bounds [of "rabin_split ?s ! i" ?s] by simp
  moreover have "rabinMin \<le> length (Block_Data (bs ! i))" if "Suc i < length bs" for i
    using that nth [of i] len rabin_split_min [of i ?s] by simp
  ultimately show ?thesis using bs(1) data by (metis rabin_split_concat)
qed

theorem rabin_content_defined_witness:
  "\<exists>c bs. NewRabin (Some \<lparr>r_script = [([7, 8], None), ([9], Some io_EOF)], r_closed = False\<rparr>) = Inr c \<and>
     drain (rabin_Next demo_lib mh_BLAKE3) 4 c = Some (bs, io_EOF) \<and>
     concat (map Block_Data bs) = [7, 8, 9]"
proof -
  let ?rd = "\<lparr>r_script = [([7, 8], None), ([9], Some io_EOF)], r_closed = False\<rparr> :: reader"
  have e: "eof_only (r_script ?rd)" and s: "stream (r_script ?rd) = [7, 8, 9]" by simp_all
  obtain c where c: "NewRabin (Some ?rd) = Inr c" by (simp add: NewRabin_def)
  from rabin_content_defined [OF demo_lib_ok c e, of mh_BLAKE3] c show ?thesis
    by (auto simp: s numeral_eq_Suc)
qed

text \<open>
  Cut decisions are local: after any 128 common bytes the rolling fingerprint no
  longer depends on what came before them, so an edit moves the cut points of a bounded stretch
  only.
\<close>

theorem rabin_fingerprint_local:
  assumes "NewRabin r = Inr c" and "128 \<le> length ys"
  shows "e_carry (fold rollByte (xs @ ys) c) = e_carry (fold rollByte (xs' @ ys) c)"
proof -
  define old where "old = take 64 (drop (length ys - 128) ys)"
  define recent where "recent = drop (length ys - 64) ys"
  define pre where "pre = take (length ys - 128) ys"
  have ys: "ys = pre @ old @ recent"
  proof -
    have "drop (length ys - 128) ys = old @ recent"
      using assms(2) append_take_drop_id [of 64 "drop (length ys - 128) ys"]
      by (simp add: old_def recent_def)
    then show ?thesis using append_take_drop_id [of "length ys - 128" ys] by (simp add: pre_def)
  qed
  have len: "length (rev old) = rabinWindow" "length (rev recent) = 64"
    using assms(2) by (simp_all add: old_def recent_def rabinWindow_def)
  have zero: "push_bit 64 (x :: u64) = 0" for x
    by (rule bit_word_eqI) (simp add: bit_push_bit_iff)
  have "rcarry (rev recent @ rev old @ rev (xs @ pre)) =
      rcarry (rev recent @ rev old @ rev (xs' @ pre))"
    using rcarry_far [OF len(1), of "rev recent" "rev (xs @ pre)" "rev (xs' @ pre)"] len(2) zero
    by simp
  then show ?thesis by (simp only: fold_carry [OF assms(1)] ys rev_append append_assoc)
qed

theorem rabin_fingerprint_local_witness:
  "\<exists>c. NewRabin (Some \<lparr>r_script = [], r_closed = False\<rparr>) = Inr c \<and>
     e_carry (fold rollByte ([1, 2, 3] @ replicate 128 5) c) =
     e_carry (fold rollByte ([9] @ replicate 128 5) c)"
proof -
  obtain c where c: "NewRabin (Some \<lparr>r_script = [], r_closed = False\<rparr>) = Inr c"
    by (simp add: NewRabin_def)
  have "128 \<le> length (replicate 128 (5 :: byte))" by simp
  from rabin_fingerprint_local [OF c this] c show ?thesis by blast
qed

text \<open>
  The 64 bytes of the window do not determine the fingerprint: the byte that leaves
  the window is subtracted after its weight has already overflowed, so two histories with the same
  last 64 bytes can have different fingerprints.
\<close>

theorem rabin_window_not_enough:
  "\<exists>c xs xs' ys. NewRabin (Some \<lparr>r_script = [], r_closed = False\<rparr>) = Inr c \<and>
     length ys = rabinWindow \<and>
     e_carry (fold rollByte (xs @ ys) c) \<noteq> e_carry (fold rollByte (xs' @ ys) c)"
proof -
  obtain c where c: "NewRabin (Some \<lparr>r_script = [], r_closed = False\<rparr>) = Inr c"
    by (simp add: NewRabin_def)
  have "rcarry (rev ([1] @ replicate 64 0)) \<noteq> rcarry (rev ([2] @ replicate 64 0))" by code_simp
  then have "e_carry (fold rollByte ([1] @ replicate 64 0) c) \<noteq>
      e_carry (fold rollByte ([2] @ replicate 64 0) c)" by (simp only: fold_carry [OF c] not_False_eq_True)
  then show ?thesis using c by (metis length_replicate rabinWindow_def)
qed

end
