(* ===== verification/Messages.thy ===== *)
theory Messages
  imports Mid
begin

text \<open>
  The protobuf messages of proto/membuss.pb.go that the storage core reads and writes, as records of
  their fields. The protobuf runtime is not part of the repository: the (un)marshalling calls are
  the fields of \<open>protolib\<close>, an argument of the definitions that use them.
\<close>

record DAGNode =
  dn_Links :: "string list"
  dn_Data :: bytes
  dn_Mid :: string

text \<open>MemFSType is an open int32 enumeration.\<close>

type_synonym MemFSType = "32 word"

definition MemFSType_RAW :: MemFSType where "MemFSType_RAW = 0"
definition MemFSType_FILE :: MemFSType where "MemFSType_FILE = 1"
definition MemFSType_DIR :: MemFSType where "MemFSType_DIR = 2"
definition MemFSType_SYMLINK :: MemFSType where "MemFSType_SYMLINK = 3"
definition MemFSType_METADATA :: MemFSType where "MemFSType_METADATA = 4"

record MemFSBlock =
  fb_Mid :: bytes
  fb_Size :: u64

record DirEntry =
  de_Name :: string
  de_Mid :: bytes
  de_Type :: MemFSType
  de_Size :: u64

record MemFSMeta =
  mm_MimeType :: string
  mm_Attrs :: "string \<rightharpoonup> string"

text \<open>Repeated message fields are slices of pointers, so an element may be nil.\<close>

record MemFSNode =
  fn_Type :: MemFSType
  fn_Data :: bytes
  fn_FileSize :: u64
  fn_Blocks :: "MemFSBlock option list"
  fn_Entries :: "DirEntry option list"
  fn_SymlinkTarget :: string
  fn_Meta :: "MemFSMeta option"
  fn_Mode :: "32 word"
  fn_Mtime :: u64

record DescriptorBlock =
  db_Mid :: string
  db_Size :: u64
  db_Index :: "32 word"

record DescriptorErasure =
  ders_DataShards :: "32 word"
  ders_ParityShards :: "32 word"
  ders_OriginalMids :: "string list"
  ders_ShardMids :: "string list"

text \<open>
  The elements of \<open>Blocks\<close> are dereferenced without a nil check where the code reads them; proto.Unmarshal
  never leaves a nil element, so they are not optional here.
\<close>

record DescriptorPayload =
  dp_RootMid :: string
  dp_TotalSize :: u64
  dp_BlockCount :: "32 word"
  dp_Name :: string
  dp_MimeType :: string
  dp_CreatedAt :: u64
  dp_Chunker :: string
  dp_ChunkSize :: "32 word"
  dp_Blocks :: "DescriptorBlock list"
  dp_Erasure :: "DescriptorErasure option"
  dp_BootstrapPeers :: "string list"
  dp_MemnsName :: string
  dp_Signature :: bytes

record ErasureManifest =
  em_OriginalMid :: string
  em_DataShards :: "32 word"
  em_ParityShards :: "32 word"
  em_ShardMids :: "string list"
  em_OriginalSize :: u64

record protolib =
  pb_DAGNode_Marshal :: "DAGNode \<Rightarrow> bytes option"
  pb_DAGNode_Unmarshal :: "bytes \<Rightarrow> DAGNode option"
  pb_MemFSNode_Unmarshal :: "bytes \<Rightarrow> MemFSNode option"
  pb_Descriptor_Unmarshal :: "bytes \<Rightarrow> DescriptorPayload option"
  pb_Manifest_Unmarshal :: "bytes \<Rightarrow> ErasureManifest option"

text \<open>
  A node that holds only links which are public MID strings (valid UTF-8) is marshalled without
  error, and unmarshalling gives it back.
\<close>

definition links_node :: "string list \<Rightarrow> DAGNode" where
  "links_node links = \<lparr>dn_Links = links, dn_Data = [], dn_Mid = []\<rparr>"

definition protolib_ok :: "hashlib \<Rightarrow> protolib \<Rightarrow> bool" where
  "protolib_ok L P =
     (\<forall>ms. (\<forall>m \<in> set ms. mid_wf L m) \<longrightarrow>
        (\<exists>raw. pb_DAGNode_Marshal P (links_node (map (MID_String L) ms)) = Some raw \<and>
               pb_DAGNode_Unmarshal P raw = Some (links_node (map (MID_String L) ms))))"

section \<open>A runtime that keeps the promise\<close>

text \<open>
  A concrete instance, used only to show that hypotheses can hold: a node with links alone is a tag
  followed by its links, each byte of a link behind a 1 and each link closed by a 0. Nothing else
  decodes.
\<close>

definition demo_link :: "string \<Rightarrow> bytes" where
  "demo_link s = concat (map (\<lambda>c. [1, byte_of_char c]) s) @ [0]"

fun demo_links :: "string \<Rightarrow> bytes \<Rightarrow> string list option" where
  "demo_links acc [] = (if acc = [] then Some [] else None)"
| "demo_links acc (t # bs) =
     (if t = 0 then map_option (\<lambda>ls. acc # ls) (demo_links [] bs)
      else case bs of [] \<Rightarrow> None | b # bs' \<Rightarrow> demo_links (acc @ [char_of_byte b]) bs')"

definition demo_proto :: protolib where
  "demo_proto = \<lparr>
     pb_DAGNode_Marshal = (\<lambda>n. if dn_Data n = [] \<and> dn_Mid n = []
        then Some (0x0A # concat (map demo_link (dn_Links n))) else None),
     pb_DAGNode_Unmarshal = (\<lambda>bs. case bs of [] \<Rightarrow> Some (links_node [])
        | t # bs' \<Rightarrow> if t = 0x0A then map_option links_node (demo_links [] bs') else None),
     pb_MemFSNode_Unmarshal = (\<lambda>_. None), pb_Descriptor_Unmarshal = (\<lambda>_. None),
     pb_Manifest_Unmarshal = (\<lambda>_. None)\<rparr>"

lemma demo_links_one: "demo_links acc (demo_link s @ bs) = map_option (\<lambda>ls. (acc @ s) # ls) (demo_links [] bs)"
  by (induction s arbitrary: acc) (simp_all add: demo_link_def)

lemma demo_links_all: "demo_links [] (concat (map demo_link ls)) = Some ls"
  by (induction ls) (simp_all add: demo_links_one)

lemma demo_proto_ok: "protolib_ok L demo_proto"
  by (simp add: protolib_ok_def demo_proto_def links_node_def demo_links_all del: map_map)

end
