(* ===== verification/Blockstore.thy ===== *)
theory Blockstore
  imports Messages
begin

text \<open>
  core/store: the Blockstore interface, the content check every Put makes, and the contract its
  clients (the DAG builder and resolver) rely on. The in-memory and the database store interpret
  the contract.
\<close>

definition ErrNotFound :: gerror where "ErrNotFound = Sentinel ''store: block not found''"

text \<open>verifyContent (pebble.go): the data must hash to the digest of the claimed MID.\<close>

definition verifyContent :: "hashlib \<Rightarrow> u64 \<Rightarrow> MID \<Rightarrow> bytes \<Rightarrow> gerror option" where
  "verifyContent L alg m data =
     (case DigestBytes L m of
        Inl e \<Rightarrow> Some (Wrap ''store: claim MID has no digest'' e)
      | Inr want \<Rightarrow>
          (case FromBytes L alg data of
             Inl p \<Rightarrow> Some p
           | Inr got \<Rightarrow>
               (case DigestBytes L got of
                  Inl e \<Rightarrow> Some (Wrap ''store: derive digest'' e)
                | Inr gotDigest \<Rightarrow>
                    if want \<noteq> gotDigest
                    then Some (Msg ''store: data does not hash to claimed MID'') else None)))"

lemma verifyContent_FromBytes:
  assumes "FromBytes L alg data = Inr m"
  shows "verifyContent L alg m data = None"
proof -
  from assms have "mid_wf L m" using FromBytes_wf by blast
  then obtain d where "DigestBytes L m = Inr d" using mid_wf_DigestBytes by blast
  with assms show ?thesis by (simp add: verifyContent_def)
qed

section \<open>The contract\<close>

text \<open>
  A store holds blocks under keys derived from MIDs; \<open>blocks\<close> is its abstraction. A verified Put
  succeeds and changes exactly the block of its key, an unverified one fails and changes nothing,
  and Get reads the abstraction.
\<close>

locale blockstore =
  fixes L :: hashlib and alg :: u64
    and put :: "'s \<Rightarrow> MID \<Rightarrow> bytes \<Rightarrow> gerror option \<times> 's"
    and get :: "'s \<Rightarrow> MID \<Rightarrow> bytes result"
    and blocks :: "'s \<Rightarrow> 'k \<Rightarrow> bytes option"
    and key :: "MID \<Rightarrow> 'k"
    and invar :: "'s \<Rightarrow> bool"
  assumes put_stores: "invar s \<Longrightarrow> mid_wf L m \<Longrightarrow> verifyContent L alg m data = None \<Longrightarrow>
      \<exists>s'. put s m data = (None, s') \<and> invar s' \<and> blocks s' = (blocks s)(key m \<mapsto> data)"
    and put_rejects: "invar s \<Longrightarrow> mid_wf L m \<Longrightarrow> verifyContent L alg m data = Some e \<Longrightarrow>
      put s m data = (Some e, s)"
    and get_reads: "invar s \<Longrightarrow> mid_wf L m \<Longrightarrow>
      get s m = (case blocks s (key m) of None \<Rightarrow> Inl ErrNotFound | Some data \<Rightarrow> Inr data)"
    and key_inj: "invar s \<Longrightarrow> mid_wf L m \<Longrightarrow> mid_wf L m' \<Longrightarrow> m_codec m = m_codec m' \<Longrightarrow>
      key m = key m' \<Longrightarrow> m = m'"
begin

lemma get_put_same:
  "invar s \<Longrightarrow> mid_wf L m \<Longrightarrow> verifyContent L alg m data = None \<Longrightarrow>
     \<exists>s'. put s m data = (None, s') \<and> invar s' \<and> get s' m = Inr data"
  using put_stores [of s m data] get_reads [of _ m] by fastforce

end

end
