(* ===== verification/Dag.thy ===== *)
theory Dag
  imports Chunk Blockstore
begin

text \<open>
  core/dag/dag.go: the streaming Merkle DAG builder. The Blockstore and the Chunker are interfaces, so
  their operations Put and Next are arguments. Results are paired with the store they leave behind.
  The level stack is compared with the level-by-level reduction of the whole leaf list.
\<close>

section \<open>The code\<close>

definition Fanout :: nat where "Fanout = 174"

text \<open>The accessors of Node, a wrapper of the protobuf message; MustParse panics on a bad link.\<close>

fun must_parse_all :: "hashlib \<Rightarrow> string list \<Rightarrow> MID list result" where
  "must_parse_all L [] = Inr []"
| "must_parse_all L (s # ss) =
     (case MustParse L s of
        Inl p \<Rightarrow> Inl p
      | Inr m \<Rightarrow> (case must_parse_all L ss of Inl p \<Rightarrow> Inl p | Inr ms \<Rightarrow> Inr (m # ms)))"

definition Node_Links :: "hashlib \<Rightarrow> DAGNode \<Rightarrow> MID list result" where
  "Node_Links L n = must_parse_all L (dn_Links n)"

definition Node_IsLeaf :: "DAGNode \<Rightarrow> bool" where
  "Node_IsLeaf n = (length (dn_Links n) = 0)"

definition Node_MID :: "hashlib \<Rightarrow> DAGNode option \<Rightarrow> MID result" where
  "Node_MID L n =
     (case n of
        None \<Rightarrow> Inr MID_zero
      | Some n \<Rightarrow> if dn_Mid n = [] then Inr MID_zero else MustParse L (dn_Mid n))"

record 's levelStack =
  ls_bs :: 's
  ls_levels :: "MID list list"

type_synonym 's put_op = "'s \<Rightarrow> MID \<Rightarrow> bytes \<Rightarrow> gerror option \<times> 's"

definition collapse ::
    "hashlib \<Rightarrow> protolib \<Rightarrow> u64 \<Rightarrow> 's put_op \<Rightarrow> MID list \<Rightarrow> 's \<Rightarrow> MID result \<times> 's" where
  "collapse L P alg put children bs =
     (if length children = 0 then (Inl (Msg ''dag: collapse called on empty group''), bs)
      else case pb_DAGNode_Marshal P (links_node (map (MID_String L) children)) of
        None \<Rightarrow> (Inl (Wrap ''dag: marshal node'' (Msg ''proto'')), bs)
      | Some raw \<Rightarrow>
          (case FromBytes L alg raw of
             Inl p \<Rightarrow> (Inl p, bs)
           | Inr nodeMID \<Rightarrow>
               (case put bs nodeMID raw of
                  (Some e, bs') \<Rightarrow> (Inl (Wrap ''dag: store internal'' e), bs')
                | (None, bs') \<Rightarrow> (Inr nodeMID, bs'))))"

text \<open>The levels after the loop \<open>for len(s.levels) <= level\<close> and the append to one of them.\<close>

definition grow_levels :: "nat \<Rightarrow> 'a \<Rightarrow> 'a list list \<Rightarrow> 'a list list" where
  "grow_levels level m levels =
     (let lv = levels @ replicate (Suc level - length levels) []
      in lv[level := lv ! level @ [m]])"

lemma grow_levels_new: "length levels \<le> level \<Longrightarrow> grow_levels level m levels ! level = [m]"
  by (simp add: grow_levels_def Let_def nth_append)

lemma length_grow_levels: "length (grow_levels level m levels) = max (length levels) (Suc level)"
  by (simp add: grow_levels_def Let_def)

function push ::
    "hashlib \<Rightarrow> protolib \<Rightarrow> u64 \<Rightarrow> 's put_op \<Rightarrow> nat \<Rightarrow> MID \<Rightarrow> 's levelStack
     \<Rightarrow> gerror option \<times> 's levelStack" where
  "push L P alg put level m s =
     (let lv = grow_levels level m (ls_levels s)
      in if length (lv ! level) < Fanout then (None, s\<lparr>ls_levels := lv\<rparr>)
         else case collapse L P alg put (lv ! level) (ls_bs s) of
           (Inl e, bs') \<Rightarrow> (Some e, s\<lparr>ls_levels := lv, ls_bs := bs'\<rparr>)
         | (Inr parent, bs') \<Rightarrow>
             push L P alg put (level + 1) parent (s\<lparr>ls_levels := lv[level := []], ls_bs := bs'\<rparr>))"
  by pat_completeness auto
termination
proof (relation "measure (\<lambda>(L, P, alg, put, level, m, s). length (ls_levels s) - level)", goal_cases)
  case (2 L P alg put level m s lv)
  then have "level < length (ls_levels s)"
    using grow_levels_new [of "ls_levels s" level m] by (force simp: Fanout_def)
  with 2 show ?case by (auto simp: length_grow_levels)
qed simp

declare push.simps [simp del]

definition topmost :: "nat \<Rightarrow> 'a list list \<Rightarrow> bool" where
  "topmost i levels = list_all (\<lambda>l. l = []) (drop (Suc i) levels)"

text \<open>
  The loop of finalize from level \<open>i\<close>. It may push new levels while it runs; the fuel bounds the
  number of iterations, and \<open>None\<close> means it did not suffice.
\<close>

fun finalize_loop ::
    "hashlib \<Rightarrow> protolib \<Rightarrow> u64 \<Rightarrow> 's put_op \<Rightarrow> nat \<Rightarrow> nat \<Rightarrow> 's levelStack
     \<Rightarrow> (MID result \<times> 's) option" where
  "finalize_loop L P alg put 0 i s = None"
| "finalize_loop L P alg put (Suc n) i s =
     (if \<not> i < length (ls_levels s) then Some (Inl (Msg ''dag: empty input''), ls_bs s)
      else let l = ls_levels s ! i in
        if length l = 0 then finalize_loop L P alg put n (i + 1) s
        else if length l = 1 \<and> topmost i (ls_levels s) then Some (Inr (l ! 0), ls_bs s)
        else case collapse L P alg put l (ls_bs s) of
          (Inl e, bs') \<Rightarrow> Some (Inl e, bs')
        | (Inr parent, bs') \<Rightarrow>
            (case push L P alg put (i + 1) parent
                (s\<lparr>ls_levels := (ls_levels s)[i := []], ls_bs := bs'\<rparr>) of
               (Some e, s') \<Rightarrow> Some (Inl e, ls_bs s')
             | (None, s') \<Rightarrow> finalize_loop L P alg put n (i + 1) s'))"

text \<open>The loop of Build over the chunker.\<close>

fun build_loop ::
    "hashlib \<Rightarrow> protolib \<Rightarrow> u64 \<Rightarrow> 's put_op \<Rightarrow> ('c \<Rightarrow> Block result \<times> 'c) \<Rightarrow> nat \<Rightarrow> 'c
     \<Rightarrow> bool \<Rightarrow> 's levelStack \<Rightarrow> (MID result \<times> 's) option" where
  "build_loop L P alg put next 0 c sawLeaf s = None"
| "build_loop L P alg put next (Suc n) c sawLeaf s =
     (case next c of
        (Inl err, c') \<Rightarrow>
          if errors_Is err io_EOF then
            (if \<not> sawLeaf then Some (Inl (Msg ''dag: empty input''), ls_bs s)
             else finalize_loop L P alg put n 0 s)
          else Some (Inl (Wrap ''dag: read chunk'' err), ls_bs s)
      | (Inr blk, c') \<Rightarrow>
          if Block_Size blk = 0 then Some (Inl (Msg ''dag: empty chunk''), ls_bs s)
          else case Block_MID L blk of
            Inl p \<Rightarrow> Some (Inl p, ls_bs s)
          | Inr leafMID \<Rightarrow>
              if IsZero leafMID then Some (Inl (Msg ''dag: chunk has zero MID''), ls_bs s)
              else (case put (ls_bs s) leafMID (Block_Data blk) of
                (Some e, bs') \<Rightarrow> Some (Inl (Wrap ''dag: store leaf'' e), bs')
              | (None, bs') \<Rightarrow>
                  (case push L P alg put 0 leafMID (s\<lparr>ls_bs := bs'\<rparr>) of
                     (Some e, s') \<Rightarrow> Some (Inl e, ls_bs s')
                   | (None, s') \<Rightarrow> build_loop L P alg put next n c' True s')))"

text \<open>Build; a nil blockstore or chunker is \<open>None\<close>.\<close>

definition Build ::
    "hashlib \<Rightarrow> protolib \<Rightarrow> u64 \<Rightarrow> 's put_op \<Rightarrow> ('c \<Rightarrow> Block result \<times> 'c) \<Rightarrow> nat
     \<Rightarrow> 's option \<Rightarrow> 'c option \<Rightarrow> (MID result \<times> 's option) option" where
  "Build L P alg put next fuel bs c =
     (case bs of
        None \<Rightarrow> Some (Inl (Msg ''dag: nil blockstore''), None)
      | Some b \<Rightarrow>
          (case c of
             None \<Rightarrow> Some (Inl (Msg ''dag: nil chunker''), Some b)
           | Some ch \<Rightarrow>
               map_option (\<lambda>(r, b'). (r, Some b'))
                 (build_loop L P alg put next fuel ch False \<lparr>ls_bs = b, ls_levels = []\<rparr>)))"

section \<open>Trees and the level-complete reduction\<close>

datatype dtree = Leaf bytes | Node "dtree list"

fun content :: "dtree \<Rightarrow> bytes" where
  "content (Leaf d) = d"
| "content (Node ts) = concat (map content ts)"

fun subtrees :: "dtree \<Rightarrow> dtree set" where
  "subtrees (Leaf d) = {Leaf d}"
| "subtrees (Node ts) = insert (Node ts) (\<Union> (subtrees ` set ts))"

lemma subtrees_self [simp]: "t \<in> subtrees t"
  by (cases t) simp_all

text \<open>The batch algorithm the comments of Build describe: reduce whole levels until one is left.\<close>

lemma Fanout_gt [simp]: "0 < Fanout" "Suc 0 < Fanout"
  by (simp_all add: Fanout_def)

lemma groups_shrink: "Suc 0 < length xs \<Longrightarrow> length (groups_of Fanout xs) < length xs"
  by (simp add: length_groups_of_less)

function tbatch :: "dtree list \<Rightarrow> dtree" where
  "tbatch [] = Leaf []"
| "tbatch [t] = t"
| "tbatch (t # u # ts) = tbatch (map Node (groups_of Fanout (t # u # ts)))"
  by pat_completeness auto
termination
  by (relation "measure length") (simp_all add: groups_shrink [of "_ # _ # _", simplified])

lemma tbatch_more: "Suc 0 < length xs \<Longrightarrow> tbatch xs = tbatch (map Node (groups_of Fanout xs))"
  by (cases xs rule: tbatch.cases) auto

declare tbatch.simps(3) [simp del]

text \<open>The content of the batch tree is the content of its leaves in order.\<close>

lemma content_groups:
  "0 < n \<Longrightarrow> concat (map content (map Node (groups_of n xs))) = concat (map content xs)"
proof (induction n xs rule: groups_of.induct)
  case (1 n xs)
  show ?case
  proof (cases "xs = []")
    case False
    with 1 have "concat (map content (map Node (groups_of n (drop n xs)))) =
        concat (map content (drop n xs))" by simp
    with False "1.prems" show ?thesis
      by (simp add: groups_of.simps [of n xs])
        (metis append_take_drop_id concat_append map_append)
  qed simp
qed

lemma content_tbatch: "content (tbatch xs) = concat (map content xs)"
  by (induction xs rule: tbatch.induct)
    (simp_all only: tbatch.simps content_groups Fanout_gt content.simps list.map concat.simps append_Nil2)

section \<open>The stack of levels\<close>

fun tpush :: "dtree list list \<Rightarrow> dtree \<Rightarrow> dtree list list" where
  "tpush [] t = [[t]]"
| "tpush (l # ls) t =
     (if Suc (length l) < Fanout then (l @ [t]) # ls else [] # tpush ls (Node (l @ [t])))"

fun tfin :: "nat \<Rightarrow> dtree list list \<Rightarrow> dtree option" where
  "tfin 0 ls = None"
| "tfin (Suc n) [] = None"
| "tfin (Suc n) (l # ls) =
     (if l = [] then tfin n ls
      else if length l = 1 \<and> list_all (\<lambda>l. l = []) ls then Some (l ! 0)
      else tfin n (tpush ls (Node l)))"

definition complete :: "'a list \<Rightarrow> nat" where
  "complete xs = Fanout * (length xs div Fanout)"

lemma complete_le: "complete xs \<le> length xs"
  by (simp add: complete_def)

lemma length_complete_groups: "length (groups_of Fanout (take (complete xs) xs)) = length xs div Fanout"
proof -
  have "length (take (complete xs) xs) = Fanout * (length xs div Fanout)"
    using complete_le [of xs] by (simp add: complete_def)
  with length_groups_of_dvd [of Fanout "take (complete xs) xs"]
  have "length (groups_of Fanout (take (complete xs) xs)) * Fanout = (length xs div Fanout) * Fanout"
    by (simp add: mult.commute)
  then show ?thesis by (simp add: Fanout_def)
qed

function tstack :: "dtree list \<Rightarrow> dtree list list" where
  "tstack xs =
     (if xs = [] then []
      else drop (complete xs) xs # tstack (map Node (groups_of Fanout (take (complete xs) xs))))"
  by pat_completeness auto
termination
  by (relation "measure length") (simp_all add: length_complete_groups)

declare tstack.simps [simp del]

lemma tstack_Nil [simp]: "tstack [] = []"
  by (simp add: tstack.simps)

lemma length_open_group: "length (drop (complete xs) xs) = length xs mod Fanout"
  by (simp add: complete_def minus_mult_div_eq_mod)

text \<open>Pushing a leaf is the stack of one more leaf.\<close>

lemma tpush_tstack: "tpush (tstack xs) t = tstack (xs @ [t])"
proof (induction xs arbitrary: t rule: tstack.induct)
  case (1 xs)
  show ?case
  proof (cases "xs = []")
    case True
    then show ?thesis by (simp add: tstack.simps [of "[t]"] complete_def)
  next
    case ne: False
    let ?r = "drop (complete xs) xs" and ?gs = "groups_of Fanout (take (complete xs) xs)"
    have st: "tstack xs = ?r # tstack (map Node ?gs)" using ne by (simp add: tstack.simps [of xs])
    have len: "length ?r = length xs mod Fanout" by (rule length_open_group)
    show ?thesis
    proof (cases "Suc (length xs mod Fanout) < Fanout")
      case True
      then have "Suc (length xs) div Fanout = length xs div Fanout"
        by (simp add: div_Suc mod_Suc)
      then have "complete (xs @ [t]) = complete xs" by (simp add: complete_def)
      with True st len complete_le [of xs] show ?thesis
        by (simp add: tstack.simps [of "xs @ [t]"])
    next
      case False
      have "length xs mod Fanout < Fanout" by simp
      with False have full: "Suc (length xs mod Fanout) = Fanout" by linarith
      then have "Suc (length xs) mod Fanout = 0" by (simp add: mod_Suc)
      then have c: "complete (xs @ [t]) = Suc (length xs)" by (auto simp: complete_def)
      have "groups_of Fanout (xs @ [t]) = groups_of Fanout (take (complete xs) xs @ (?r @ [t]))"
        by (metis append.assoc append_take_drop_id)
      also have "\<dots> = ?gs @ [?r @ [t]]"
        using full len complete_le [of xs]
        by (subst groups_of_append) (simp_all add: groups_of_short complete_def)
      finally have "tstack (xs @ [t]) = [] # tstack (map Node ?gs @ [Node (?r @ [t])])"
        using c by (simp add: tstack.simps [of "xs @ [t]"])
      also have "\<dots> = [] # tpush (tstack (map Node ?gs)) (Node (?r @ [t]))"
        using "1.IH" [OF ne] by simp
      finally show ?thesis using st full len by simp
    qed
  qed
qed

lemma tstack_all_empty: "list_all (\<lambda>l. l = []) (tstack xs) \<longleftrightarrow> xs = []"
proof (induction xs rule: tstack.induct)
  case (1 xs)
  show ?case
  proof (cases "xs = []")
    case ne: False
    let ?gs = "groups_of Fanout (take (complete xs) xs)"
    have "\<not> list_all (\<lambda>l. l = []) (tstack xs)"
    proof (cases "drop (complete xs) xs = []")
      case True
      then have "length xs mod Fanout = 0" using length_open_group [of xs] by simp
      then have "0 < length xs div Fanout" using ne by (auto simp: div_greater_zero_iff dvd_imp_le)
      then have "?gs \<noteq> []" using length_complete_groups [of xs] by auto
      with "1.IH" [OF ne] ne show ?thesis by (simp add: tstack.simps [of xs])
    next
      case False
      with ne show ?thesis by (simp add: tstack.simps [of xs])
    qed
    with ne show ?thesis by simp
  qed simp
qed

lemma groups_split:
  assumes "drop (complete xs) xs \<noteq> []"
  shows "groups_of Fanout xs =
    groups_of Fanout (take (complete xs) xs) @ [drop (complete xs) xs]"
proof -
  have "length (drop (complete xs) xs) \<le> Fanout"
    by (metis Fanout_gt(1) length_open_group less_imp_le mod_less_divisor)
  with assms have "groups_of Fanout (drop (complete xs) xs) = [drop (complete xs) xs]"
    by (rule groups_of_short)
  then show ?thesis
    using groups_of_append [of Fanout "take (complete xs) xs" "drop (complete xs) xs"]
      complete_le [of xs]
    by (simp add: complete_def)
qed

text \<open>Flushing the stack bottom-up is the level-complete reduction.\<close>

lemma tfin_tstack: "xs \<noteq> [] \<Longrightarrow> length xs \<le> n \<Longrightarrow> tfin n (tstack xs) = Some (tbatch xs)"
proof (induction n arbitrary: xs)
  case (Suc n)
  let ?r = "drop (complete xs) xs" and ?gs = "groups_of Fanout (take (complete xs) xs)"
  have st: "tstack xs = ?r # tstack (map Node ?gs)"
    using Suc.prems by (simp add: tstack.simps [of xs])
  show ?case
  proof (cases "length xs = 1")
    case True
    then obtain x where x: "xs = [x]" by (auto simp: length_Suc_conv)
    then have "complete xs = 0" by (simp add: complete_def)
    with st x show ?thesis by simp
  next
    case False
    with Suc.prems have two: "Suc 0 < length xs" by (cases xs) auto
    have shrink: "length (groups_of Fanout xs) < length xs" using two by (rule groups_shrink)
    have ne: "groups_of Fanout xs \<noteq> []" using Suc.prems(1) by (simp add: groups_of.simps [of Fanout xs])
    have rec: "tfin n (tstack (map Node (groups_of Fanout xs))) = Some (tbatch xs)"
      using Suc.IH [of "map Node (groups_of Fanout xs)"] Suc.prems shrink ne tbatch_more [OF two]
      by simp
    show ?thesis
    proof (cases "?r = []")
      case True
      then have "take (complete xs) xs = xs" by (metis append_Nil2 append_take_drop_id)
      with True st rec show ?thesis by simp
    next
      case False
      have single: "\<not> (length ?r = 1 \<and> list_all (\<lambda>l. l = []) (tstack (map Node ?gs)))"
      proof
        assume a: "length ?r = 1 \<and> list_all (\<lambda>l. l = []) (tstack (map Node ?gs))"
        then have "?gs = []" using tstack_all_empty [of "map Node ?gs"] by simp
        then have "length xs div Fanout = 0" using length_complete_groups [of xs] by simp
        then have "length ?r = length xs" by (simp add: complete_def)
        with a two show False by simp
      qed
      have "tpush (tstack (map Node ?gs)) (Node ?r) = tstack (map Node (groups_of Fanout xs))"
        by (simp add: tpush_tstack groups_split [OF False])
      with rec show ?thesis
        unfolding st tfin.simps if_not_P [OF False] if_not_P [OF single] by simp
    qed
  qed
qed simp

lemma foldl_tpush: "foldl tpush (tstack ys) xs = tstack (ys @ xs)"
  by (induction xs arbitrary: ys) (simp_all add: tpush_tstack)

section \<open>Blocks of a tree\<close>

text \<open>The MID of content under \<open>hashlib_ok\<close>, where FromBytes never fails.\<close>

definition mid_of :: "hashlib \<Rightarrow> u64 \<Rightarrow> bytes \<Rightarrow> MID" where
  "mid_of L alg d = (case FromBytes L alg d of Inl _ \<Rightarrow> MID_zero | Inr m \<Rightarrow> m)"

fun tdata :: "hashlib \<Rightarrow> protolib \<Rightarrow> u64 \<Rightarrow> dtree \<Rightarrow> bytes" where
  "tdata L P alg (Leaf d) = d"
| "tdata L P alg (Node ts) =
     (case pb_DAGNode_Marshal P
         (links_node (map (\<lambda>t. MID_String L (mid_of L alg (tdata L P alg t))) ts)) of
        None \<Rightarrow> [] | Some raw \<Rightarrow> raw)"

definition tmid :: "hashlib \<Rightarrow> protolib \<Rightarrow> u64 \<Rightarrow> dtree \<Rightarrow> MID" where
  "tmid L P alg t = mid_of L alg (tdata L P alg t)"

definition write_tree ::
    "(MID \<Rightarrow> 'k) \<Rightarrow> hashlib \<Rightarrow> protolib \<Rightarrow> u64 \<Rightarrow> dtree \<Rightarrow> ('k \<rightharpoonup> bytes) \<Rightarrow> ('k \<rightharpoonup> bytes)" where
  "write_tree key L P alg u b = b(key (tmid L P alg u) \<mapsto> tdata L P alg u)"

definition forest :: "dtree list list \<Rightarrow> dtree set" where
  "forest ls = \<Union> (subtrees ` set (concat ls))"

lemma forest_simps [simp]:
  "forest [] = {}"
  "forest (l # ls) = \<Union> (subtrees ` set l) \<union> forest ls"
  by (auto simp: forest_def)

lemma mid_of_ok:
  assumes "hashlib_ok L"
  shows "FromBytes L alg d = Inr (mid_of L alg d)" "mid_wf L (mid_of L alg d)"
    "m_codec (mid_of L alg d) = CodecRaw"
proof -
  obtain m where m: "FromBytes L alg d = Inr m" using FromBytes_ok [OF assms] by blast
  then show "FromBytes L alg d = Inr (mid_of L alg d)" by (simp add: mid_of_def)
  with FromBytes_wf [of L alg d] show "mid_wf L (mid_of L alg d)"
    "m_codec (mid_of L alg d) = CodecRaw" by blast+
qed

lemma tmid_wf: "hashlib_ok L \<Longrightarrow> mid_wf L (tmid L P alg t)"
  by (simp add: tmid_def mid_of_ok)

lemma tdata_Node:
  assumes "hashlib_ok L" "protolib_ok L P"
  shows "pb_DAGNode_Marshal P (links_node (map (MID_String L) (map (tmid L P alg) ts))) =
      Some (tdata L P alg (Node ts))"
    and "pb_DAGNode_Unmarshal P (tdata L P alg (Node ts)) =
      Some (links_node (map (MID_String L) (map (tmid L P alg) ts)))"
proof -
  have "\<forall>m \<in> set (map (tmid L P alg) ts). mid_wf L m" using assms(1) by (auto simp: tmid_wf)
  with assms(2) obtain raw where raw:
    "pb_DAGNode_Marshal P (links_node (map (MID_String L) (map (tmid L P alg) ts))) = Some raw"
    "pb_DAGNode_Unmarshal P raw = Some (links_node (map (MID_String L) (map (tmid L P alg) ts)))"
    unfolding protolib_ok_def by blast
  have "map (MID_String L) (map (tmid L P alg) ts) =
      map (\<lambda>t. MID_String L (mid_of L alg (tdata L P alg t))) ts"
    by (simp add: tmid_def)
  then have "tdata L P alg (Node ts) = raw"
    using raw(1) by (simp only: tdata.simps option.case)
  with raw show "pb_DAGNode_Marshal P (links_node (map (MID_String L) (map (tmid L P alg) ts))) =
      Some (tdata L P alg (Node ts))"
    and "pb_DAGNode_Unmarshal P (tdata L P alg (Node ts)) =
      Some (links_node (map (MID_String L) (map (tmid L P alg) ts)))" by blast+
qed

section \<open>The builder on any blockstore\<close>

context blockstore begin

lemma put_tree:
  assumes "hashlib_ok L" "invar s"
  shows "\<exists>s'. put s (tmid L P alg t) (tdata L P alg t) = (None, s') \<and> invar s' \<and>
    blocks s' = write_tree key L P alg t (blocks s)"
proof -
  have "verifyContent L alg (tmid L P alg t) (tdata L P alg t) = None"
    using assms(1) mid_of_ok(1) [of L alg] by (simp add: verifyContent_FromBytes tmid_def)
  with put_stores [OF assms(2) tmid_wf [OF assms(1)]] show ?thesis
    by (auto simp: write_tree_def)
qed

lemma collapse_tree:
  assumes "hashlib_ok L" "protolib_ok L P" "invar s" "ts \<noteq> []"
  shows "\<exists>s'. collapse L P alg put (map (tmid L P alg) ts) s = (Inr (tmid L P alg (Node ts)), s') \<and>
    invar s' \<and> blocks s' = write_tree key L P alg (Node ts) (blocks s)"
proof -
  from put_tree [OF assms(1,3)] obtain s' where
    "put s (tmid L P alg (Node ts)) (tdata L P alg (Node ts)) = (None, s')" "invar s'"
    "blocks s' = write_tree key L P alg (Node ts) (blocks s)" by blast
  moreover have "FromBytes L alg (tdata L P alg (Node ts)) = Inr (tmid L P alg (Node ts))"
    using mid_of_ok(1) [OF assms(1)] by (simp add: tmid_def)
  ultimately show ?thesis
    using assms(4) tdata_Node(1) [OF assms(1,2), of alg ts] by (simp add: collapse_def)
qed

text \<open>A push refines the push on trees and writes the internal nodes it creates.\<close>

lemma push_tree:
  assumes "hashlib_ok L" "protolib_ok L P" "invar (ls_bs s)"
    "ls_levels s = low @ map (map (tmid L P alg)) ls" "length low = level"
  shows "\<exists>s' us. push L P alg put level (tmid L P alg t) s = (None, s') \<and> invar (ls_bs s') \<and>
    ls_levels s' = low @ map (map (tmid L P alg)) (tpush ls t) \<and>
    blocks (ls_bs s') = fold (write_tree key L P alg) us (blocks (ls_bs s)) \<and>
    forest (tpush ls t) = forest ls \<union> subtrees t \<union> set us"
  using assms(3-5)
proof (induction ls arbitrary: s low level t)
  case Nil
  then have "grow_levels level (tmid L P alg t) (ls_levels s) = low @ [[tmid L P alg t]]"
    by (simp add: grow_levels_def nth_append list_update_append)
  with Nil show ?case
    by (subst push.simps) (auto simp: nth_append intro!: exI [of _ "[]"])
next
  case (Cons l ls)
  let ?t = "tmid L P alg"
  have grow: "grow_levels level (?t t) (ls_levels s) = low @ map ?t (l @ [t]) # map (map ?t) ls"
    using Cons.prems by (simp add: grow_levels_def nth_append list_update_append)
  show ?case
  proof (cases "Suc (length l) < Fanout")
    case True
    with Cons.prems grow show ?thesis
      by (subst push.simps) (auto simp: nth_append Let_def intro!: exI [of _ "[]"])
  next
    case False
    from collapse_tree [OF assms(1,2) Cons.prems(1), of "l @ [t]"] obtain bs' where
      bs': "collapse L P alg put (map ?t (l @ [t])) (ls_bs s) = (Inr (?t (Node (l @ [t]))), bs')"
      "invar bs'" "blocks bs' = write_tree key L P alg (Node (l @ [t])) (blocks (ls_bs s))" by auto
    let ?s1 = "s\<lparr>ls_levels := low @ [] # map (map ?t) ls, ls_bs := bs'\<rparr>"
    from Cons.IH [of ?s1 "low @ [[]]" "Suc level" "Node (l @ [t])"] bs' Cons.prems(3)
    obtain s' us where
      s': "push L P alg put (Suc level) (?t (Node (l @ [t]))) ?s1 = (None, s')" "invar (ls_bs s')"
      "ls_levels s' = low @ [] # map (map ?t) (tpush ls (Node (l @ [t])))"
      "blocks (ls_bs s') = fold (write_tree key L P alg) us (blocks bs')"
      "forest (tpush ls (Node (l @ [t]))) = forest ls \<union> subtrees (Node (l @ [t])) \<union> set us"
      by auto
    have "push L P alg put level (?t t) s = (None, s')"
      using bs'(1) s'(1) grow False Cons.prems(3)
      by (subst push.simps) (simp add: nth_append list_update_append)
    moreover have "blocks (ls_bs s') =
        fold (write_tree key L P alg) (Node (l @ [t]) # us) (blocks (ls_bs s))"
      using s'(4) bs'(3) by simp
    moreover have "forest (tpush (l # ls) t) =
        forest (l # ls) \<union> subtrees t \<union> set (Node (l @ [t]) # us)"
      using s'(5) False by auto
    ultimately show ?thesis
      using s'(2,3) False by (intro exI [of _ s'] exI [of _ "Node (l @ [t]) # us"]) simp
  qed
qed

lemma finalize_tree:
  assumes "hashlib_ok L" "protolib_ok L P"
  shows "invar (ls_bs s) \<Longrightarrow> ls_levels s = low @ map (map (tmid L P alg)) ls \<Longrightarrow> length low = i \<Longrightarrow>
    tfin n ls = Some t \<Longrightarrow>
    \<exists>s' us. finalize_loop L P alg put n i s = Some (Inr (tmid L P alg t), s') \<and> invar s' \<and>
      blocks s' = fold (write_tree key L P alg) us (blocks (ls_bs s)) \<and>
      subtrees t = forest ls \<union> set us"
proof (induction n ls arbitrary: i s low rule: tfin.induct)
  case (3 n l ls)
  let ?t = "tmid L P alg"
  have nth: "ls_levels s ! i = map ?t l" "i < length (ls_levels s)"
    "topmost i (ls_levels s) = list_all (\<lambda>l. l = []) ls"
    using "3.prems" by (simp_all add: topmost_def nth_append list_all_iff)
  show ?case
  proof (cases "l = []")
    case True
    with "3.IH"(1) [OF True, of s "low @ [[]]" "Suc i"] "3.prems" nth show ?thesis by simp
  next
    case ne: False
    show ?thesis
    proof (cases "length l = 1 \<and> list_all (\<lambda>l. l = []) ls")
      case True
      then obtain x where "l = [x]" by (auto simp: length_Suc_conv)
      moreover have "forest ls = {}" using True by (auto simp: forest_def list_all_iff)
      ultimately show ?thesis using True "3.prems" nth by (auto intro!: exI [of _ "[]"])
    next
      case False
      from collapse_tree [OF assms "3.prems"(1) ne] obtain bs' where
        bs': "collapse L P alg put (map ?t l) (ls_bs s) = (Inr (?t (Node l)), bs')" "invar bs'"
        "blocks bs' = write_tree key L P alg (Node l) (blocks (ls_bs s))" by blast
      let ?s1 = "s\<lparr>ls_levels := (low @ [[]]) @ map (map ?t) ls, ls_bs := bs'\<rparr>"
      from push_tree [OF assms, of ?s1 "low @ [[]]" ls "Suc i" "Node l"] bs'(2) "3.prems"(3)
      obtain s' us where
        s': "push L P alg put (Suc i) (?t (Node l)) ?s1 = (None, s')" "invar (ls_bs s')"
        "ls_levels s' = (low @ [[]]) @ map (map ?t) (tpush ls (Node l))"
        "blocks (ls_bs s') = fold (write_tree key L P alg) us (blocks bs')"
        "forest (tpush ls (Node l)) = forest ls \<union> subtrees (Node l) \<union> set us"
        by auto
      have "tfin n (tpush ls (Node l)) = Some t"
        using "3.prems"(4) unfolding tfin.simps if_not_P [OF ne] if_not_P [OF False] .
      with "3.IH"(2) [OF ne False s'(2,3)] "3.prems"(3) obtain s'' us' where
        s'': "finalize_loop L P alg put n (Suc i) s' = Some (Inr (?t t), s'')" "invar s''"
        "blocks s'' = fold (write_tree key L P alg) us' (blocks (ls_bs s'))"
        "subtrees t = forest (tpush ls (Node l)) \<union> set us'"
        by auto
      have upd: "(ls_levels s)[i := []] = (low @ [[]]) @ map (map ?t) ls"
        using "3.prems" by (simp add: list_update_append)
      have not1: "\<not> (length (map ?t l) = 1 \<and> topmost i (ls_levels s))" using False nth by simp
      have "finalize_loop L P alg put (Suc n) i s = Some (Inr (?t t), s'')"
        using bs'(1) s'(1) s''(1) nth(2) ne
        unfolding finalize_loop.simps Let_def nth(1) if_not_P [OF not1] upd by (simp del: append_assoc)
      moreover have "blocks s'' =
          fold (write_tree key L P alg) (Node l # us @ us') (blocks (ls_bs s))"
        using s''(3) s'(4) bs'(3) by simp
      moreover have "subtrees t = forest (l # ls) \<union> set (Node l # us @ us')"
        using s''(4) s'(5) by auto
      ultimately show ?thesis using s''(2) by blast
    qed
  qed
qed simp_all

text \<open>
  Where no two blocks of a tree share a MID, a store that received them all holds them all.
\<close>

lemma fold_write_tree:
  assumes "hashlib_ok L" "invar s" "inj_on (mid_of L alg) (tdata L P alg ` set us)" "u \<in> set us"
  shows "fold (write_tree key L P alg) us b (key (tmid L P alg u)) = Some (tdata L P alg u)"
  using assms(3,4)
proof (induction us rule: rev_induct)
  case (snoc v us)
  show ?case
  proof (cases "key (tmid L P alg u) = key (tmid L P alg v)")
    case True
    then have "tmid L P alg u = tmid L P alg v"
      using key_inj [OF assms(2)] tmid_wf [OF assms(1)] mid_of_ok(3) [OF assms(1)]
      by (simp add: tmid_def)
    then have "tdata L P alg u = tdata L P alg v"
      using inj_onD [OF snoc.prems(1), of "tdata L P alg u" "tdata L P alg v"] snoc.prems(2)
      by (auto simp: tmid_def)
    with True show ?thesis by (simp add: write_tree_def)
  next
    case False
    then have "u \<in> set us" using snoc.prems(2) by auto
    moreover have "inj_on (mid_of L alg) (tdata L P alg ` set us)"
      using snoc.prems(1) by (rule inj_on_subset) auto
    ultimately show ?thesis using snoc.IH False by (simp add: write_tree_def)
  qed
qed simp

end

section \<open>Build over a chunker and a blockstore\<close>

locale dag_builder =
  st: blockstore L alg put get blocks key sinv + ch: chunker L alg Next chunks cinv
  for L :: hashlib and alg :: u64 and put :: "'s \<Rightarrow> MID \<Rightarrow> bytes \<Rightarrow> gerror option \<times> 's"
    and get :: "'s \<Rightarrow> MID \<Rightarrow> bytes result" and blocks :: "'s \<Rightarrow> 'k \<Rightarrow> bytes option"
    and key :: "MID \<Rightarrow> 'k" and sinv :: "'s \<Rightarrow> bool"
    and Next :: "'c \<Rightarrow> Block result \<times> 'c" and chunks :: "'c \<Rightarrow> bytes list"
    and cinv :: "'c \<Rightarrow> bool"
begin

lemma build_loop_tree:
  assumes "hashlib_ok L" "protolib_ok L P"
  shows "sinv (ls_bs s) \<Longrightarrow> cinv c \<Longrightarrow> pre @ chunks c \<noteq> [] \<Longrightarrow> saw = (pre \<noteq> []) \<Longrightarrow>
    length (chunks c) + length (pre @ chunks c) < n \<Longrightarrow>
    ls_levels s = map (map (tmid L P alg)) (tstack (map Leaf pre)) \<Longrightarrow>
    \<exists>s' us. build_loop L P alg put Next n c saw s =
        Some (Inr (tmid L P alg (tbatch (map Leaf (pre @ chunks c)))), s') \<and> sinv s' \<and>
      blocks s' = fold (write_tree key L P alg) us (blocks (ls_bs s)) \<and>
      subtrees (tbatch (map Leaf (pre @ chunks c))) = forest (tstack (map Leaf pre)) \<union> set us"
proof (induction n arbitrary: c pre saw s)
  case (Suc n)
  show ?case
  proof (cases "chunks c")
    case Nil
    from ch.Next_end [OF Suc.prems(2) Nil] obtain c' where next1: "Next c = (Inl io_EOF, c')" by blast
    have "tfin n (tstack (map Leaf pre)) = Some (tbatch (map Leaf pre))"
      using Suc.prems(3,5) Nil by (intro tfin_tstack) auto
    from st.finalize_tree [OF assms Suc.prems(1) _ _ this, of "[]" 0] Suc.prems(3,4,6) next1 Nil
    show ?thesis by auto
  next
    case (Cons d ds)
    from ch.Next_more [OF Suc.prems(2) Cons] obtain c' b where
      nx: "Next c = (Inr b, c')" "makeBlock L alg d = Inr b" "cinv c'" "chunks c' = ds" by blast
    have d: "d \<noteq> []" "length d \<le> MaxBlockSize"
      using ch.chunk_bounds [OF Suc.prems(2), of d] Cons by simp_all
    have blk: "Block_Size b \<noteq> 0" "Block_Data b = d" "Block_MID L b = Inr (tmid L P alg (Leaf d))"
      using nx(2) d makeBlock_size [OF nx(2) d(2)] makeBlock_data [OF nx(2)]
        makeBlock_MID [OF assms(1) nx(2)] mid_of_ok(1) [OF assms(1)]
      by (simp_all add: tmid_def)
    from st.put_tree [OF assms(1) Suc.prems(1), of P "Leaf d"] obtain bs' where
      bs': "put (ls_bs s) (tmid L P alg (Leaf d)) d = (None, bs')" "sinv bs'"
      "blocks bs' = write_tree key L P alg (Leaf d) (blocks (ls_bs s))" by auto
    from st.push_tree [OF assms, of "s\<lparr>ls_bs := bs'\<rparr>" "[]" "tstack (map Leaf pre)" 0 "Leaf d"]
      bs'(2) Suc.prems(6)
    obtain s1 us where
      s1: "push L P alg put 0 (tmid L P alg (Leaf d)) (s\<lparr>ls_bs := bs'\<rparr>) = (None, s1)"
      "sinv (ls_bs s1)" "ls_levels s1 = map (map (tmid L P alg)) (tstack (map Leaf (pre @ [d])))"
      "blocks (ls_bs s1) = fold (write_tree key L P alg) us (blocks bs')"
      "forest (tstack (map Leaf (pre @ [d]))) = forest (tstack (map Leaf pre)) \<union> {Leaf d} \<union> set us"
      by (auto simp: tpush_tstack)
    have fuel: "length (chunks c') + length ((pre @ [d]) @ chunks c') < n"
      using Suc.prems(5) Cons nx(4) by simp
    from Suc.IH [OF s1(2) nx(3) _ _ fuel s1(3), of True] Cons nx(4) obtain s' us' where
      s': "build_loop L P alg put Next n c' True s1 =
        Some (Inr (tmid L P alg (tbatch (map Leaf (pre @ chunks c)))), s')" "sinv s'"
      "blocks s' = fold (write_tree key L P alg) us' (blocks (ls_bs s1))"
      "subtrees (tbatch (map Leaf (pre @ chunks c))) =
        forest (tstack (map Leaf (pre @ [d]))) \<union> set us'"
      by auto
    have "build_loop L P alg put Next (Suc n) c saw s =
        Some (Inr (tmid L P alg (tbatch (map Leaf (pre @ chunks c)))), s')"
      using nx(1) blk bs'(1) s1(1) s'(1) tmid_wf [OF assms(1), of P alg "Leaf d"] by simp
    moreover have "blocks s' =
        fold (write_tree key L P alg) (Leaf d # us @ us') (blocks (ls_bs s))"
      using s'(3) s1(4) bs'(3) by simp
    moreover have "subtrees (tbatch (map Leaf (pre @ chunks c))) =
        forest (tstack (map Leaf pre)) \<union> set (Leaf d # us @ us')"
      using s'(4) s1(5) by auto
    ultimately show ?thesis using s'(2) by blast
  qed
qed simp

text \<open>Build writes exactly the blocks of the batch tree and returns the MID of its root.\<close>

lemma Build_tree:
  assumes "hashlib_ok L" "protolib_ok L P" "sinv s" "cinv c" "chunks c \<noteq> []"
    "2 * length (chunks c) < fuel"
  shows "\<exists>s' us. Build L P alg put Next fuel (Some s) (Some c) =
      Some (Inr (tmid L P alg (tbatch (map Leaf (chunks c)))), Some s') \<and> sinv s' \<and>
      blocks s' = fold (write_tree key L P alg) us (blocks s) \<and>
      set us = subtrees (tbatch (map Leaf (chunks c)))"
  using build_loop_tree [OF assms(1,2), of "\<lparr>ls_bs = s, ls_levels = []\<rparr>" c "[]" False fuel] assms(3-6)
  by (auto simp: Build_def)

end

end
