(* ===== verification/Walk.thy ===== *)
theory Walk
  imports Blockstore
begin

text \<open>
  core/store/walk.go: the depth-first walk over everything reachable from a root, the building
  block of Seal, Unseal and GC. The block getter is an argument; the walk threads the set of
  visited keys and the state of the visit callback. The fuel bounds the depth of the recursion.
\<close>

section \<open>The code\<close>

text \<open>err.Error() and errors.Unwrap.\<close>

fun error_text :: "gerror \<Rightarrow> string" where
  "error_text (Sentinel s) = s"
| "error_text (Msg s) = s"
| "error_text (Wrap s e) = s @ '': '' @ error_text e"
| "error_text (Panic s) = s"

fun errors_Unwrap :: "gerror \<Rightarrow> gerror option" where
  "errors_Unwrap (Wrap s e) = Some e"
| "errors_Unwrap e = None"

definition tryParseDescriptor :: "protolib \<Rightarrow> bytes \<Rightarrow> DescriptorPayload result" where
  "tryParseDescriptor P data =
     (let wrapped =
        (if length data < 5 + 32 then Inl (Msg ''descriptor: too short'')
         else if take 4 data \<noteq> bytes_of_string ''MEMB'' then Inl (Msg ''descriptor: invalid magic'')
         else if data ! 4 \<noteq> 1 then Inl (Msg ''descriptor: unsupported version'')
         else case pb_Descriptor_Unmarshal P (slice data 5 (length data - 32)) of
           None \<Rightarrow> Inl (Msg ''descriptor: failed to parse wrapped'')
         | Some desc \<Rightarrow>
             if dp_RootMid desc \<noteq> [] then Inr desc
             else Inl (Msg ''descriptor: failed to parse wrapped''))
      in case pb_Descriptor_Unmarshal P data of
        None \<Rightarrow> wrapped
      | Some desc \<Rightarrow> if dp_RootMid desc \<noteq> [] then Inr desc else wrapped)"

text \<open>The values a list of calls returns without error, the others skipped.\<close>

definition oks :: "'a result list \<Rightarrow> 'a list" where
  "oks rs = concat (map (\<lambda>r. case r of Inl e \<Rightarrow> [] | Inr x \<Rightarrow> [x]) rs)"

definition file_children :: "hashlib \<Rightarrow> MemFSBlock option list \<Rightarrow> MID list" where
  "file_children L bs =
     oks (map (\<lambda>b. FromMultihash L (if 0 < fb_Size b then CodecRaw else CodecMemFS) (fb_Mid b))
       (filter (\<lambda>b. fb_Mid b \<noteq> []) (map the (filter (\<lambda>b. b \<noteq> None) bs))))"

definition dir_children :: "hashlib \<Rightarrow> DirEntry option list \<Rightarrow> MID list" where
  "dir_children L es =
     oks (map (\<lambda>e. FromMultihash L (if de_Type e = MemFSType_RAW then CodecRaw else CodecMemFS) (de_Mid e))
       (filter (\<lambda>e. de_Mid e \<noteq> []) (map the (filter (\<lambda>e. e \<noteq> None) es))))"

text \<open>The classification of a loaded block: is it internal, and which MIDs does it refer to.\<close>

definition node_children :: "hashlib \<Rightarrow> protolib \<Rightarrow> MID \<Rightarrow> bytes \<Rightarrow> bool \<times> MID list" where
  "node_children L P m data =
     (let other =
        (if m_codec m = CodecMemFS then
           (case pb_MemFSNode_Unmarshal P data of
              None \<Rightarrow> (False, [])
            | Some node \<Rightarrow>
                if fn_Type node = MemFSType_FILE then
                  (if fn_Data node \<noteq> [] \<and> length (fn_Blocks node) \<le> 1 then (False, [])
                   else (fn_Blocks node \<noteq> [], file_children L (fn_Blocks node)))
                else if fn_Type node = MemFSType_DIR then
                  (fn_Entries node \<noteq> [], dir_children L (fn_Entries node))
                else (False, []))
         else
           (case pb_DAGNode_Unmarshal P data of
              None \<Rightarrow> (False, [])
            | Some node \<Rightarrow>
                if dn_Links node \<noteq> [] then (True, oks (map (Parse L) (dn_Links node)))
                else (False, [])))
      in case tryParseDescriptor P data of
        Inl e \<Rightarrow> other
      | Inr desc \<Rightarrow>
          if dp_RootMid desc \<noteq> [] \<and> dp_Blocks desc \<noteq> [] then
            (True, oks [Parse L (dp_RootMid desc)] @ oks (map (\<lambda>b. Parse L (db_Mid b)) (dp_Blocks desc)))
          else other)"

text \<open>
  The getter: Get, and GetSize where the concrete type has it. The visit callback is a function on
  an explicit state, and may fail.
\<close>

record 's getter =
  g_Get :: "'s \<Rightarrow> MID \<Rightarrow> bytes result"
  g_GetSize :: "('s \<Rightarrow> MID \<Rightarrow> int result) option"

definition missing :: "bool \<Rightarrow> gerror \<Rightarrow> bool" where
  "missing ignoreMissing e =
     (ignoreMissing \<and> (errors_Is e ErrNotFound \<or> error_text e = ''store: block not found'' \<or>
        (case errors_Unwrap e of None \<Rightarrow> False | Some e' \<Rightarrow> errors_Is e' ErrNotFound)))"

text \<open>
  What the closure walk does with one unvisited block before it recurses: return (an error, or
  nothing because the block is missing and ignored), report a leaf, or report an internal node
  and go on to its children.
\<close>

datatype visit_step = Return "gerror option" | VisitLeaf | VisitInternal "MID list"

definition inspect ::
    "hashlib \<Rightarrow> protolib \<Rightarrow> 's getter \<Rightarrow> 's \<Rightarrow> bool \<Rightarrow> MID \<Rightarrow> visit_step" where
  "inspect L P G bs ignoreMissing m =
     (case (case g_GetSize G of None \<Rightarrow> Inr (- 1) | Some GetSize \<Rightarrow> GetSize bs m) of
        Inl err \<Rightarrow> if missing ignoreMissing err then Return None
                   else Return (Some (Wrap (''store: walk size '' @ MID_String L m) err))
      | Inr sz \<Rightarrow>
          if m_codec m = CodecRaw \<and> 16384 < sz then VisitLeaf
          else case g_Get G bs m of
            Inl err \<Rightarrow> if missing ignoreMissing err then Return None
                       else Return (Some (Wrap (''store: walk get '' @ MID_String L m) err))
          | Inr data \<Rightarrow>
              if m_codec m = CodecRaw \<and> 16384 < length data then VisitLeaf
              else case node_children L P m data of
                (isInternal, childMIDs) \<Rightarrow> if isInternal then VisitInternal childMIDs else VisitLeaf)"

type_synonym 'v visitor = "MID \<Rightarrow> bool \<Rightarrow> 'v \<Rightarrow> gerror option \<times> 'v"

text \<open>
  The closure walk and its loop over the children. The block store does not change while the walk
  reads it. \<open>None\<close>: the fuel did not bound the depth.
\<close>

fun walk :: "hashlib \<Rightarrow> (MID \<Rightarrow> visit_step) \<Rightarrow> 'v visitor \<Rightarrow> nat \<Rightarrow> MID \<Rightarrow> string set \<times> 'v
      \<Rightarrow> (gerror option \<times> string set \<times> 'v) option"
  and walk_children :: "hashlib \<Rightarrow> (MID \<Rightarrow> visit_step) \<Rightarrow> 'v visitor \<Rightarrow> nat \<Rightarrow> MID list \<Rightarrow> string set \<times> 'v
      \<Rightarrow> (gerror option \<times> string set \<times> 'v) option" where
  "walk L look visit 0 m st = None"
| "walk L look visit (Suc n) m (visited, v) =
     (if MID_String L m \<in> visited then Some (None, visited, v)
      else let visited' = insert (MID_String L m) visited in
        case look m of
          Return r \<Rightarrow> Some (r, visited', v)
        | VisitLeaf \<Rightarrow> (case visit m True v of (r, v') \<Rightarrow> Some (r, visited', v'))
        | VisitInternal childMIDs \<Rightarrow>
            (case visit m False v of
               (Some e, v') \<Rightarrow> Some (Some e, visited', v')
             | (None, v') \<Rightarrow> walk_children L look visit n childMIDs (visited', v')))"
| "walk_children L look visit n [] st = Some (None, st)"
| "walk_children L look visit n (c # cs) st =
     (case walk L look visit n c st of
        None \<Rightarrow> None
      | Some (Some e, st') \<Rightarrow> Some (Some e, st')
      | Some (None, st') \<Rightarrow> walk_children L look visit n cs st')"

definition WalkOptions ::
    "hashlib \<Rightarrow> protolib \<Rightarrow> 's getter \<Rightarrow> nat \<Rightarrow> 's option \<Rightarrow> MID \<Rightarrow> bool \<Rightarrow> 'v visitor \<Rightarrow> 'v
     \<Rightarrow> (gerror option \<times> 'v) option" where
  "WalkOptions L P G fuel bs root ignoreMissing visit v =
     (case bs of
        None \<Rightarrow> Some (Some (Msg ''store: nil blockstore''), v)
      | Some b \<Rightarrow>
          if IsZero root then Some (Some (Msg ''store: zero root MID''), v)
          else map_option (\<lambda>(r, st). (r, snd st))
            (walk L (inspect L P G b ignoreMissing) visit fuel root ({}, v)))"

definition Walk_store ::
    "hashlib \<Rightarrow> protolib \<Rightarrow> 's getter \<Rightarrow> nat \<Rightarrow> 's option \<Rightarrow> MID \<Rightarrow> 'v visitor \<Rightarrow> 'v
     \<Rightarrow> (gerror option \<times> 'v) option" where
  "Walk_store L P G fuel bs root visit v = WalkOptions L P G fuel bs root False visit v"

section \<open>Reachability and depth-first search\<close>

text \<open>A visitor that only records what it is shown.\<close>

definition recorder :: "(MID \<times> bool) list visitor" where
  "recorder m leaf l = (None, l @ [(m, leaf)])"

lemma recorder_apply: "(case recorder m leaf l of (r, l') \<Rightarrow> f r l') = f None (l @ [(m, leaf)])"
  by (simp add: recorder_def)

definition succs :: "(MID \<Rightarrow> visit_step) \<Rightarrow> MID \<Rightarrow> MID list" where
  "succs look m = (case look m of VisitInternal cs \<Rightarrow> cs | _ \<Rightarrow> [])"

inductive reaches :: "(MID \<Rightarrow> visit_step) \<Rightarrow> MID \<Rightarrow> MID \<Rightarrow> bool" for look where
  here: "reaches look m m"
| step: "c \<in> set (succs look m) \<Longrightarrow> reaches look c x \<Longrightarrow> reaches look m x"

text \<open>The reports a completed walk makes of a block: none if it is missing.\<close>

fun report :: "visit_step \<Rightarrow> bool \<Rightarrow> bool" where
  "report (Return r) leaf = False"
| "report VisitLeaf leaf = leaf"
| "report (VisitInternal cs) leaf = (\<not> leaf)"

definition reports :: "(MID \<Rightarrow> visit_step) \<Rightarrow> MID set \<Rightarrow> (MID \<times> bool) set" where
  "reports look X = {(x, leaf). x \<in> X \<and> report (look x) leaf}"

text \<open>What a walk from \<open>roots\<close> that grows the visited set from \<open>W\<close> to \<open>W'\<close> guarantees.\<close>

definition span ::
    "(MID \<Rightarrow> visit_step) \<Rightarrow> (MID \<Rightarrow> bool) \<Rightarrow> MID set \<Rightarrow> MID set \<Rightarrow> MID set \<Rightarrow> gerror option
     \<Rightarrow> (MID \<times> bool) list \<Rightarrow> bool" where
  "span look good roots W W' r ms =
     (W \<subseteq> W' \<and> (\<forall>x \<in> W' - W. good x \<and> (\<exists>c \<in> roots. reaches look c x)) \<and>
      distinct (map fst ms) \<and> set ms \<subseteq> reports look (W' - W) \<and>
      (r = None \<longrightarrow> roots \<subseteq> W' \<and> (\<forall>x \<in> W' - W. set (succs look x) \<subseteq> W') \<and>
         set ms = reports look (W' - W)) \<and>
      (\<forall>e. r = Some e \<longrightarrow> (\<exists>x \<in> W' - W. look x = Return (Some e))))"

text \<open>
  The contract of a graph the walk can traverse: keys identify the blocks it may meet, and links
  lead only to such blocks.
\<close>

lemma reaches_trans: "reaches look m x \<Longrightarrow> c \<in> set (succs look x) \<Longrightarrow> reaches look m c"
  by (induction rule: reaches.induct) (auto intro: reaches.intros)

lemma reaches_within:
  "reaches look m x \<Longrightarrow> m \<in> R \<Longrightarrow> (\<And>y. y \<in> R \<Longrightarrow> set (succs look y) \<subseteq> R) \<Longrightarrow> x \<in> R"
  by (induction rule: reaches.induct) auto

locale linked_blocks =
  fixes L :: hashlib and look :: "MID \<Rightarrow> visit_step" and good :: "MID \<Rightarrow> bool"
  assumes key_inj: "good m \<Longrightarrow> good m' \<Longrightarrow> MID_String L m = MID_String L m' \<Longrightarrow> m = m'"
    and succ_good: "good m \<Longrightarrow> c \<in> set (succs look m) \<Longrightarrow> good c"
begin

lemma key_image: "good m \<Longrightarrow> \<forall>x \<in> W. good x \<Longrightarrow> MID_String L m \<in> MID_String L ` W \<longleftrightarrow> m \<in> W"
  using key_inj by blast

lemma span_done: "roots \<subseteq> W \<Longrightarrow> span look good roots W W None []"
  by (simp add: span_def reports_def)

lemma span_one:
  assumes "good m" "m \<notin> W" "succs look m = []" "distinct (map fst ms)"
    "set ms \<subseteq> reports look {m}" "r = None \<Longrightarrow> set ms = reports look {m}"
    "\<And>e. r = Some e \<Longrightarrow> look m = Return (Some e)"
  shows "span look good {m} W (insert m W) r ms"
proof -
  have "insert m W - W = {m}" using assms(2) by auto
  with assms show ?thesis by (auto simp: span_def intro: reaches.here)
qed

lemma span_trans:
  assumes "span look good A W W1 None ms" "span look good B W1 W2 r ms'"
  shows "span look good (A \<union> B) W W2 r (ms @ ms')"
proof -
  have d: "W2 - W = (W1 - W) \<union> (W2 - W1)" using assms by (auto simp: span_def)
  have "fst ` set ms \<subseteq> W1" "fst ` set ms' \<inter> W1 = {}"
    using assms by (auto simp: span_def reports_def)
  then have "distinct (map fst (ms @ ms'))" using assms by (auto simp: span_def)
  moreover have "reports look (W2 - W) = reports look (W1 - W) \<union> reports look (W2 - W1)"
    by (auto simp: d reports_def)
  moreover have "\<forall>x \<in> W2 - W. good x \<and> (\<exists>c \<in> A \<union> B. reaches look c x)"
    using assms unfolding span_def d by blast
  moreover have "\<forall>x \<in> W2 - W. set (succs look x) \<subseteq> W2" if "r = None"
    using assms that unfolding span_def d by blast
  moreover have "W \<subseteq> W2" "r = None \<Longrightarrow> A \<union> B \<subseteq> W2"
    using assms unfolding span_def by blast+
  moreover have "\<exists>x \<in> W2 - W. look x = Return (Some e)" if "r = Some e" for e
    using assms that unfolding span_def by blast
  ultimately show ?thesis using assms unfolding span_def by auto
qed

lemma span_node:
  assumes "good m" "m \<notin> W" "look m = VisitInternal cs" "span look good (set cs) (insert m W) W' r ms"
  shows "span look good {m} W W' r ((m, False) # ms)"
proof -
  have d: "W' - W = insert m (W' - insert m W)" and m: "m \<in> W'"
    using assms(2,4) by (auto simp: span_def)
  have s: "set (succs look m) = set cs" using assms(3) by (simp add: succs_def)
  have "reports look (W' - W) = insert (m, False) (reports look (W' - insert m W))"
    using assms(3) by (auto simp: d reports_def)
  moreover have "m \<notin> fst ` set ms" using assms(4) by (auto simp: span_def reports_def)
  moreover have "\<forall>x \<in> W' - W. good x \<and> (\<exists>c \<in> {m}. reaches look c x)"
  proof
    fix x assume x: "x \<in> W' - W"
    show "good x \<and> (\<exists>c \<in> {m}. reaches look c x)"
    proof (cases "x = m")
      case False
      then obtain c where "good x" "c \<in> set cs" "reaches look c x"
        using x assms(4) unfolding span_def by blast
      then show ?thesis using s by (auto intro: reaches.step)
    qed (use assms(1) in \<open>auto intro: reaches.here\<close>)
  qed
  moreover have "\<forall>x \<in> W' - W. set (succs look x) \<subseteq> W'" if "r = None"
    using assms(4) that s unfolding span_def d by blast
  moreover have "\<exists>x \<in> W' - W. look x = Return (Some e)" if "r = Some e" for e
    using assms(4) that unfolding span_def by blast
  moreover have "W \<subseteq> W'" "distinct (map fst ms)" "set ms \<subseteq> reports look (W' - insert m W)"
    "r = None \<Longrightarrow> set ms = reports look (W' - insert m W)"
    using assms(4) by (simp_all add: span_def)
  ultimately show ?thesis using m by (auto simp: span_def)
qed

lemma walk_children_span:
  assumes "\<And>m W l r V' l'. good m \<Longrightarrow> \<forall>x \<in> W. good x \<Longrightarrow>
      walk L look recorder n m (MID_String L ` W, l) = Some (r, V', l') \<Longrightarrow>
      \<exists>W' ms. V' = MID_String L ` W' \<and> l' = l @ ms \<and> span look good {m} W W' r ms"
  shows "\<forall>c \<in> set cs. good c \<Longrightarrow> \<forall>x \<in> W. good x \<Longrightarrow>
      walk_children L look recorder n cs (MID_String L ` W, l) = Some (r, V', l') \<Longrightarrow>
      \<exists>W' ms. V' = MID_String L ` W' \<and> l' = l @ ms \<and> span look good (set cs) W W' r ms"
proof (induction cs arbitrary: W l)
  case Nil
  then show ?case using span_done by (intro exI [of _ W] exI [of _ "[]"]) auto
next
  case (Cons c cs)
  obtain r1 V1 l1 where w1: "walk L look recorder n c (MID_String L ` W, l) = Some (r1, V1, l1)"
    using Cons.prems(3) by (auto split: option.splits)
  from assms [OF _ Cons.prems(2) w1] Cons.prems(1) obtain W1 ms where
    W1: "V1 = MID_String L ` W1" "l1 = l @ ms" "span look good {c} W W1 r1 ms" by auto
  show ?case
  proof (cases r1)
    case None
    have "\<forall>x \<in> W1. good x" using W1(3) Cons.prems(2) unfolding span_def by blast
    moreover have "walk_children L look recorder n cs (MID_String L ` W1, l1) = Some (r, V', l')"
      using Cons.prems(3) w1 None W1(1) by simp
    ultimately obtain W' ms' where
      "V' = MID_String L ` W'" "l' = l1 @ ms'" "span look good (set cs) W1 W' r ms'"
      using Cons.IH [of W1 l1] Cons.prems(1) by auto
    moreover from this have "span look good ({c} \<union> set cs) W W' r (ms @ ms')"
      using span_trans W1(3) None by blast
    ultimately show ?thesis using W1(2) by auto
  next
    case (Some e)
    then have "span look good (set (c # cs)) W W1 r1 ms" using W1(3) by (auto simp: span_def)
    then show ?thesis using Some w1 W1 Cons.prems(3) by auto
  qed
qed

lemma walk_span:
  "good m \<Longrightarrow> \<forall>x \<in> W. good x \<Longrightarrow> walk L look recorder n m (MID_String L ` W, l) = Some (r, V', l') \<Longrightarrow>
     \<exists>W' ms. V' = MID_String L ` W' \<and> l' = l @ ms \<and> span look good {m} W W' r ms"
proof (induction n arbitrary: m W l r V' l')
  case (Suc n)
  show ?case
  proof (cases "m \<in> W")
    case True
    then show ?thesis using Suc.prems span_done [of "{m}" W]
      by (intro exI [of _ W] exI [of _ "[]"]) auto
  next
    case new: False
    then have nk: "MID_String L m \<notin> MID_String L ` W" using key_image Suc.prems(1,2) by blast
    have ins: "insert (MID_String L m) (MID_String L ` W) = MID_String L ` insert m W" by simp
    note eq = Suc.prems(3) [unfolded walk.simps Let_def if_not_P [OF nk] ins]
    show ?thesis
    proof (cases "look m")
      case (Return r')
      have "span look good {m} W (insert m W) r' []"
        using Suc.prems(1) new Return by (intro span_one) (auto simp: succs_def reports_def)
      then show ?thesis using eq Return by (intro exI [of _ "insert m W"] exI [of _ "[]"]) auto
    next
      case VisitLeaf
      have "span look good {m} W (insert m W) None [(m, True)]"
        using Suc.prems(1) new VisitLeaf by (intro span_one) (auto simp: succs_def reports_def)
      then show ?thesis using eq VisitLeaf
        by (intro exI [of _ "insert m W"] exI [of _ "[(m, True)]"]) (auto simp: recorder_def)
    next
      case (VisitInternal cs)
      then have "\<forall>c \<in> set cs. good c" using succ_good [OF Suc.prems(1)] by (simp add: succs_def)
      moreover have "\<forall>x \<in> insert m W. good x" using Suc.prems(1,2) by simp
      moreover have "walk_children L look recorder n cs (MID_String L ` insert m W, l @ [(m, False)])
          = Some (r, V', l')" using eq VisitInternal by (simp add: recorder_def)
      ultimately obtain W' ms where
        "V' = MID_String L ` W'" "l' = (l @ [(m, False)]) @ ms" "span look good (set cs) (insert m W) W' r ms"
        using walk_children_span [OF Suc.IH] by blast
      then show ?thesis using span_node [OF Suc.prems(1) new VisitInternal]
        by (intro exI [of _ W'] exI [of _ "(m, False) # ms"]) auto
    qed
  qed
qed simp

text \<open>A walk that ends without error has reported everything reachable, each block once.\<close>

lemma walk_reports:
  assumes "good root" "walk L look recorder n root ({}, []) = Some (None, V, l)"
  shows "distinct (map fst l)" "set l = reports look {x. reaches look root x}"
proof -
  from walk_span [of root "{}" n "[]"] assms obtain W where
    W: "span look good {root} {} W None l" by auto
  have "x \<in> W" if "reaches look y x" "y \<in> W" for x y
    using that W by (induction) (auto simp: span_def)
  then have "W = {x. reaches look root x}" using W by (auto simp: span_def)
  with W show "distinct (map fst l)" "set l = reports look {x. reaches look root x}"
    by (auto simp: span_def)
qed

lemma walk_error:
  assumes "good root" "walk L look recorder n root ({}, []) = Some (Some e, V, l)"
  shows "\<exists>x. reaches look root x \<and> look x = Return (Some e)"
  using walk_span [of root "{}" n "[]"] assms by (auto simp: span_def)

text \<open>Depth is bounded by the number of reachable blocks, so that much fuel is enough.\<close>

lemma walk_children_ends:
  assumes "\<And>m W v. m \<in> R \<Longrightarrow> W \<subseteq> R \<Longrightarrow> card (R - W) < n \<Longrightarrow>
      \<exists>r W' v'. walk L look visit n m (MID_String L ` W, v) = Some (r, MID_String L ` W', v') \<and>
        W \<subseteq> W' \<and> W' \<subseteq> R"
    and "finite R"
  shows "set cs \<subseteq> R \<Longrightarrow> W \<subseteq> R \<Longrightarrow> card (R - W) < n \<Longrightarrow>
      \<exists>r W' v'. walk_children L look visit n cs (MID_String L ` W, v) =
        Some (r, MID_String L ` W', v') \<and> W \<subseteq> W' \<and> W' \<subseteq> R"
proof (induction cs arbitrary: W v)
  case (Cons c cs)
  from assms(1) [of c W v] Cons.prems obtain r W1 v1 where
    w1: "walk L look visit n c (MID_String L ` W, v) = Some (r, MID_String L ` W1, v1)"
      "W \<subseteq> W1" "W1 \<subseteq> R" by auto
  have "card (R - W1) \<le> card (R - W)" using assms(2) w1(2) by (intro card_mono) auto
  then have "card (R - W1) < n" using Cons.prems(3) by simp
  with Cons.IH [of W1 v1] Cons.prems(1) w1(3) obtain r2 W2 v2 where
    "walk_children L look visit n cs (MID_String L ` W1, v1) = Some (r2, MID_String L ` W2, v2)"
    "W1 \<subseteq> W2" "W2 \<subseteq> R" by auto
  with w1 show ?case by (cases r) auto
qed auto

lemma walk_ends:
  assumes "finite R" "\<forall>x \<in> R. good x" "\<forall>x \<in> R. set (succs look x) \<subseteq> R"
  shows "m \<in> R \<Longrightarrow> W \<subseteq> R \<Longrightarrow> card (R - W) < n \<Longrightarrow>
      \<exists>r W' v'. walk L look visit n m (MID_String L ` W, v) = Some (r, MID_String L ` W', v') \<and>
        W \<subseteq> W' \<and> W' \<subseteq> R"
proof (induction n arbitrary: m W v)
  case (Suc n)
  show ?case
  proof (cases "m \<in> W")
    case False
    have nk: "MID_String L m \<notin> MID_String L ` W"
      using key_image [of m W] False Suc.prems(1,2) assms(2) by blast
    have ins: "insert (MID_String L m) (MID_String L ` W) = MID_String L ` insert m W" by simp
    have "card (R - insert m W) < card (R - W)"
      using False Suc.prems(1) assms(1) by (intro psubset_card_mono) auto
    then have c: "card (R - insert m W) < n" using Suc.prems(3) by simp
    have sub: "insert m W \<subseteq> R" using Suc.prems by simp
    have "\<exists>r W' v'. walk_children L look visit n (succs look m) (MID_String L ` insert m W, v1) =
        Some (r, MID_String L ` W', v') \<and> insert m W \<subseteq> W' \<and> W' \<subseteq> R" for v1
      using walk_children_ends [OF Suc.IH assms(1) _ sub c] assms(3) Suc.prems(1) by blast
    then obtain f where ch: "\<exists>r v'. walk_children L look visit n (succs look m)
        (MID_String L ` insert m W, v1) = Some (r, MID_String L ` f v1, v')"
        "insert m W \<subseteq> f v1" "f v1 \<subseteq> R" for v1 by metis
    define v1 where "v1 = snd (visit m False v)"
    have "\<exists>r X v'. walk L look visit (Suc n) m (MID_String L ` W, v) =
        Some (r, MID_String L ` X, v') \<and> (X = insert m W \<or> X = f v1)"
    proof (cases "look m")
      case (VisitInternal cs)
      with ch(1) [of v1] show ?thesis
        unfolding walk.simps Let_def if_not_P [OF nk] ins
        by (cases "visit m False v"; cases "fst (visit m False v)")
          (auto simp: succs_def v1_def simp del: image_insert)
    qed (use nk ins in \<open>auto simp del: image_insert split: prod.split\<close>)
    then show ?thesis using sub ch(2,3) [of v1] by blast
  qed (use Suc.prems in auto)
qed simp

lemma reaches_good: "reaches look m x \<Longrightarrow> good m \<Longrightarrow> good x"
  by (induction rule: reaches.induct) (auto intro: succ_good)

lemma walk_total:
  assumes "good root" "finite {x. reaches look root x}" "card {x. reaches look root x} < n"
  shows "\<exists>r V v'. walk L look visit n root ({}, v) = Some (r, V, v')"
proof -
  let ?R = "{x. reaches look root x}"
  have "\<forall>x \<in> ?R. good x" "\<forall>x \<in> ?R. set (succs look x) \<subseteq> ?R"
    using reaches_good reaches_trans assms(1) by blast+
  from walk_ends [OF assms(2) this, of root "{}" n visit v] assms(3) show ?thesis
    by (simp add: reaches.here) blast
qed

lemma walk_recorded:
  assumes "good root" "finite {x. reaches look root x}" "card {x. reaches look root x} < n"
    and "\<And>x e. reaches look root x \<Longrightarrow> look x \<noteq> Return (Some e)"
  shows "\<exists>V l. walk L look recorder n root ({}, []) = Some (None, V, l) \<and> distinct (map fst l) \<and>
    set l = reports look {x. reaches look root x}"
proof -
  from walk_total [OF assms(1-3), of recorder "[]"] obtain r V l where
    w: "walk L look recorder n root ({}, []) = Some (r, V, l)" by blast
  then have "r = None" using walk_error [OF assms(1), of n] assms(4) by (cases r) blast+
  with w walk_reports [OF assms(1)] show ?thesis by auto
qed

end

section \<open>Visitors\<close>

text \<open>A visitor that never fails sees exactly the reports, in the order the recorder notes them.\<close>

definition replay :: "'v visitor \<Rightarrow> (MID \<times> bool) list \<Rightarrow> 'v \<Rightarrow> 'v" where
  "replay visit l v = fold (\<lambda>(m, leaf). snd \<circ> visit m leaf) l v"

lemma replay_simps [simp]:
  "replay visit [] v = v"
  "replay visit (l @ [(m, leaf)]) v = snd (visit m leaf (replay visit l v))"
  by (simp_all add: replay_def)

lemma walk_children_replay:
  assumes "\<And>m V l. walk L look visit n m (V, replay visit l v) =
      map_option (\<lambda>(r, V', l'). (r, V', replay visit l' v)) (walk L look recorder n m (V, l))"
  shows "walk_children L look visit n cs (V, replay visit l v) =
      map_option (\<lambda>(r, V', l'). (r, V', replay visit l' v))
        (walk_children L look recorder n cs (V, l))"
proof (induction cs arbitrary: V l)
  case (Cons c cs)
  show ?case
  proof (cases "walk L look recorder n c (V, l)")
    case (Some y)
    obtain r V' l' where "y = (r, V', l')" by (cases y) auto
    then show ?thesis using Some assms [of c V l] Cons.IH [of V' l'] by (cases r) auto
  qed (simp add: assms)
qed simp

lemma walk_replay:
  assumes "\<And>m leaf v. fst (visit m leaf v) = None"
  shows "walk L look visit n m (V, replay visit l v) =
      map_option (\<lambda>(r, V', l'). (r, V', replay visit l' v)) (walk L look recorder n m (V, l))"
proof (induction n arbitrary: m V l)
  case (Suc n)
  have v: "visit m leaf w = (None, snd (visit m leaf w))" for m leaf w
    using assms [of m leaf w] by (simp add: prod_eq_iff)
  show ?case
  proof (cases "look m")
    case (VisitInternal cs)
    then show ?thesis
      using walk_children_replay [OF Suc.IH, of cs _ "l @ [(m, False)]"] v [of m False "replay visit l v"]
      by (auto simp: Let_def recorder_apply split: prod.splits option.splits)
  qed (use v [of m True "replay visit l v"] in \<open>auto simp: Let_def recorder_def split: prod.splits\<close>)
qed simp

section \<open>Links lead to well-formed identifiers\<close>

lemma oks_iff: "x \<in> set (oks rs) \<longleftrightarrow> Inr x \<in> set rs"
  by (force simp: oks_def split: sum.splits)

lemma file_children_wf: "c \<in> set (file_children L bs) \<Longrightarrow> mid_wf L c"
  unfolding file_children_def oks_iff using FromMultihash_wf by (auto dest!: sym [of "Inr c"])

lemma dir_children_wf: "c \<in> set (dir_children L es) \<Longrightarrow> mid_wf L c"
  unfolding dir_children_def oks_iff using FromMultihash_wf by (auto dest!: sym [of "Inr c"])

lemma parsed_wf: "c \<in> set (oks (map (\<lambda>x. Parse L (f x)) xs)) \<Longrightarrow> mid_wf L c"
  unfolding oks_iff using Parse_ok_wf by (auto dest!: sym [of "Inr c"])

lemma parsed_list_wf: "c \<in> set (oks (map (Parse L) ss)) \<Longrightarrow> mid_wf L c"
  using parsed_wf [of c L "\<lambda>x. x" ss] by simp

lemma node_children_wf: "node_children L P m data = (i, cs) \<Longrightarrow> c \<in> set cs \<Longrightarrow> mid_wf L c"
  using parsed_wf [of c L "\<lambda>x. x"] parsed_wf [of c L db_Mid] parsed_wf [of c L "\<lambda>x. x" "[_]"]
  by (auto simp: node_children_def Let_def dest: file_children_wf dir_children_wf
      split: sum.splits option.splits if_splits)

lemma inspect_wf: "c \<in> set (succs (inspect L P G b ign) m) \<Longrightarrow> mid_wf L c"
  by (auto simp: succs_def inspect_def intro: node_children_wf
      split: visit_step.splits sum.splits option.splits if_splits prod.splits)

text \<open>A walk that does not ignore missing blocks never passes one over silently.\<close>

lemma inspect_no_silent: "inspect L P G b False m \<noteq> Return None"
  by (auto simp: inspect_def missing_def split: sum.splits option.splits prod.splits)

interpretation store_links: linked_blocks L "inspect L P G b ign" "\<lambda>m. hashlib_ok L \<and> mid_wf L m"
  for L P G b ign
  by unfold_locales (auto intro: MID_String_inj inspect_wf)

text \<open>A walk that meets no unreadable block, for every visitor that never fails.\<close>

lemma Walk_store_replay:
  fixes v :: 'v
  assumes "hashlib_ok L" "mid_wf L root"
    and "finite {x. reaches (inspect L P G b False) root x}"
    and "card {x. reaches (inspect L P G b False) root x} < fuel"
    and "\<And>x e. reaches (inspect L P G b False) root x \<Longrightarrow> inspect L P G b False x \<noteq> Return (Some e)"
  shows "\<exists>l. distinct (map fst l) \<and> set l = reports (inspect L P G b False) {x. reaches (inspect L P G b False) root x} \<and>
    (\<forall>visit (v :: 'v). (\<forall>m leaf v. fst (visit m leaf v) = None) \<longrightarrow>
      Walk_store L P G fuel (Some b) root visit v = Some (None, replay visit l v))"
proof -
  let ?look = "inspect L P G b False"
  from store_links.walk_recorded [OF _ assms(3-5)] assms(1,2) obtain V l where
    l: "walk L ?look recorder fuel root ({}, []) = Some (None, V, l)" "distinct (map fst l)"
      "set l = reports ?look {x. reaches ?look root x}" by blast
  have "Walk_store L P G fuel (Some b) root visit v = Some (None, replay visit l v)"
    if "\<forall>m leaf v. fst (visit m leaf v) = None" for visit and v :: 'v
    using walk_replay [of visit L ?look fuel root "{}" "[]" v] that l(1) assms(2)
    by (simp add: Walk_store_def WalkOptions_def)
  with l show ?thesis by blast
qed

text \<open>What the callback keeps true of its state, the walk keeps true.\<close>

lemma walk_children_keeps:
  assumes "\<And>m V v r V' v'. I v \<Longrightarrow> walk L look visit n m (V, v) = Some (r, V', v') \<Longrightarrow> I v'"
  shows "I v \<Longrightarrow> walk_children L look visit n cs (V, v) = Some (r, V', v') \<Longrightarrow> I v'"
proof (induction cs arbitrary: V v)
  case (Cons c cs)
  then obtain r1 V1 v1 where w: "walk L look visit n c (V, v) = Some (r1, V1, v1)"
    by (auto split: option.splits)
  with assms Cons.prems(1) have "I v1" by blast
  with Cons w show ?case by (cases r1) auto
qed simp

lemma walk_keeps:
  assumes "\<And>m leaf v. I v \<Longrightarrow> I (snd (visit m leaf v))"
  shows "I v \<Longrightarrow> walk L look visit n m (V, v) = Some (r, V', v') \<Longrightarrow> I v'"
proof (induction n arbitrary: m V v r V' v')
  case (Suc n)
  define r1 v1 where "r1 leaf = fst (visit m leaf v)" and "v1 leaf = snd (visit m leaf v)" for leaf
  then have one: "visit m leaf v = (r1 leaf, v1 leaf)" for leaf by simp
  have I1: "I (v1 leaf)" for leaf using assms [OF Suc.prems(1), of m leaf] by (simp add: one)
  show ?case
  proof (cases "look m")
    case (VisitInternal cs)
    show ?thesis
    proof (cases "MID_String L m \<in> V \<or> r1 False \<noteq> None")
      case True
      then show ?thesis using Suc.prems I1 [of False] VisitInternal
        by (auto simp: one Let_def split: if_splits)
    next
      case False
      then have "walk_children L look visit n cs (insert (MID_String L m) V, v1 False) = Some (r, V', v')"
        using Suc.prems(2) VisitInternal by (simp add: one Let_def)
      then show ?thesis by (rule walk_children_keeps [where I = I, rotated 2]) (fact Suc.IH, fact I1)
    qed
  qed (use Suc.prems I1 [of True] in \<open>auto simp: one Let_def split: if_splits\<close>)
qed simp

lemma Walk_store_keeps:
  assumes "\<And>m leaf v. I v \<Longrightarrow> I (snd (visit m leaf v))" "I v"
    "Walk_store L P G fuel bs root visit v = Some (r, v')"
  shows "I v'"
  using walk_keeps [of I visit, OF assms(1)] assms(2,3)
  by (fastforce simp: Walk_store_def WalkOptions_def split: option.splits if_splits)

section \<open>Properties\<close>

text \<open>
  Property C12. If every block reachable from a well-formed root can be read, Walk ends without
  error and its callback has seen exactly the reachable blocks, each once, leaves flagged as
  leaves. Fuel beyond the number of reachable blocks is enough, whatever sharing or cycles the
  links form.
\<close>

theorem walk_visits_reachable:
  assumes "hashlib_ok L" "mid_wf L root"
    and "finite {x. reaches (inspect L P G b False) root x}"
    and "card {x. reaches (inspect L P G b False) root x} < fuel"
    and "\<And>x e. reaches (inspect L P G b False) root x \<Longrightarrow> inspect L P G b False x \<noteq> Return (Some e)"
    and "\<And>m leaf v. fst (visit m leaf v) = None"
  shows "\<exists>l. Walk_store L P G fuel (Some b) root visit v = Some (None, replay visit l v) \<and>
    distinct (map fst l) \<and>
    set l = {(x, leaf). reaches (inspect L P G b False) root x \<and> report (inspect L P G b False x) leaf}"
proof -
  obtain l where "distinct (map fst l)"
    "set l = reports (inspect L P G b False) {x. reaches (inspect L P G b False) root x}"
    "Walk_store L P G fuel (Some b) root visit v = Some (None, replay visit l v)"
    using Walk_store_replay [OF assms(1-5), where 'v = 'b] assms(6) by blast
  then show ?thesis by (auto simp: reports_def)
qed

text \<open>
  A node over two leaves, one of them linked twice. The demonstration hash is the identity behind
  an algorithm byte, so a getter can read a block off its identifier.
\<close>

definition demo_mid :: "bytes \<Rightarrow> MID" where
  "demo_mid d = \<lparr>m_Version = cidVersion1, m_codec = CodecRaw, m_Hash = 0x12 # d,
     m_cid = NewCidV1 CodecRaw (0x12 # d), m_str = Prefix @ cid_String demo_lib (NewCidV1 CodecRaw (0x12 # d))\<rparr>"

definition demo_raw :: bytes where
  "demo_raw = the (pb_DAGNode_Marshal demo_proto (links_node
     (map (MID_String demo_lib) [demo_mid [7], demo_mid [8], demo_mid [7]])))"

definition demo_getter :: "unit getter" where
  "demo_getter = \<lparr>g_Get = (\<lambda>b m. Inr (tl (m_Hash m))), g_GetSize = None\<rparr>"

lemma demo_mid_wf: "mid_wf demo_lib (demo_mid d)"
  by (simp add: mid_wf_def demo_mid_def validateEnvelope_ok_iff demo_lib_def isSupportedHash_def
      mh_SHA2_256_def)

lemma demo_raw_links:
  "pb_DAGNode_Unmarshal demo_proto demo_raw =
     Some (links_node (map (MID_String demo_lib) [demo_mid [7], demo_mid [8], demo_mid [7]]))"
proof -
  let ?ms = "[demo_mid [7], demo_mid [8], demo_mid [7]]"
  have "\<forall>m \<in> set ?ms. mid_wf demo_lib m" by (simp add: demo_mid_wf)
  with demo_proto_ok [of demo_lib] obtain raw where
    "pb_DAGNode_Marshal demo_proto (links_node (map (MID_String demo_lib) ?ms)) = Some raw"
    "pb_DAGNode_Unmarshal demo_proto raw = Some (links_node (map (MID_String demo_lib) ?ms))"
    unfolding protolib_ok_def by blast
  then show ?thesis unfolding demo_raw_def by simp
qed

lemma length_demo_raw: "length demo_raw \<le> 16384"
  by (simp add: demo_raw_def demo_proto_def links_node_def demo_link_def MID_String_def demo_mid_def
      Prefix_def demo_lib_def length_concat comp_def sum_list_triv string_of_bytes_def NewCidV1_def)

lemma demo_no_descriptor: "\<exists>e. tryParseDescriptor demo_proto d = Inl e"
  by (simp add: tryParseDescriptor_def demo_proto_def)

lemma demo_node_children:
  "node_children demo_lib demo_proto (demo_mid d) d =
     (case pb_DAGNode_Unmarshal demo_proto d of
        None \<Rightarrow> (False, [])
      | Some node \<Rightarrow> if dn_Links node \<noteq> [] then (True, oks (map (Parse demo_lib) (dn_Links node)))
                     else (False, []))"
  using demo_no_descriptor [of d]
  by (auto simp: node_children_def demo_mid_def CodecRaw_def CodecMemFS_def)

theorem walk_visits_reachable_witness:
  "\<exists>l. Walk_store demo_lib demo_proto demo_getter 4 (Some ()) (demo_mid demo_raw) recorder [] =
       Some (None, replay recorder l []) \<and> distinct (map fst l) \<and> (demo_mid [8], True) \<in> set l"
proof -
  let ?look = "inspect demo_lib demo_proto demo_getter () False"
  let ?R = "{demo_mid demo_raw, demo_mid [7], demo_mid [8]}"
  have insp: "?look (demo_mid d) = (case node_children demo_lib demo_proto (demo_mid d) d of
      (i, cs) \<Rightarrow> if i then VisitInternal cs else VisitLeaf)" if "length d \<le> 16384" for d
    using that by (simp add: inspect_def demo_getter_def) (simp add: demo_mid_def)
  have look: "?look (demo_mid demo_raw) = VisitInternal [demo_mid [7], demo_mid [8], demo_mid [7]]"
    using Parse_String_wf [OF demo_lib_ok demo_mid_wf]
    by (simp add: insp length_demo_raw demo_node_children demo_raw_links links_node_def oks_def)
  have leaf: "?look (demo_mid [7]) = VisitLeaf" "?look (demo_mid [8]) = VisitLeaf"
    by (simp_all add: insp demo_node_children) (simp_all add: demo_proto_def)
  have R: "x \<in> ?R" if "reaches ?look (demo_mid demo_raw) x" for x
  proof (rule reaches_within [OF that])
    fix y assume "y \<in> ?R"
    then show "set (succs ?look y) \<subseteq> ?R" using look leaf by (auto simp: succs_def)
  qed simp
  then have sub: "{x. reaches ?look (demo_mid demo_raw) x} \<subseteq> ?R" by blast
  have fin: "finite {x. reaches ?look (demo_mid demo_raw) x}"
    using sub by (rule finite_subset) simp
  have "card ?R \<le> 3" by (simp add: card_insert_if)
  then have card: "card {x. reaches ?look (demo_mid demo_raw) x} < 4"
    using card_mono [OF _ sub] by simp
  have noerr: "?look x \<noteq> Return (Some e)" if "reaches ?look (demo_mid demo_raw) x" for x e
    using R [OF that] look leaf by auto
  have "reaches ?look (demo_mid demo_raw) (demo_mid [8])"
    using look by (auto simp: succs_def intro: reaches.intros)
  moreover have "fst (recorder m b v) = None" for m b v by (simp add: recorder_def)
  ultimately show ?thesis
    using walk_visits_reachable [OF demo_lib_ok demo_mid_wf fin card noerr, of recorder "[]"] leaf(2)
    by auto
qed

end
