(* ===== verification/Memstore.thy ===== *)
theory Memstore
  imports Walk
begin

text \<open>
  core/store/store.go: the in-memory Blockstore. Every method holds one of the store's mutexes while
  it touches the maps that mutex guards, so a run of concurrent calls is a sequence of these
  operations. Go iterates maps in an unspecified order, which is an argument here.
\<close>

section \<open>The code\<close>

record Memstore =
  ms_blocks :: "string \<rightharpoonup> bytes"
  ms_sizeVal :: u64
  ms_meta :: "string \<rightharpoonup> bytes"
  ms_seals :: "string \<rightharpoonup> bool"

definition NewMemstore :: Memstore where
  "NewMemstore = \<lparr>ms_blocks = Map.empty, ms_sizeVal = 0, ms_meta = Map.empty, ms_seals = Map.empty\<rparr>"

definition Memstore_Put ::
    "hashlib \<Rightarrow> u64 \<Rightarrow> Memstore \<Rightarrow> MID \<Rightarrow> bytes \<Rightarrow> gerror option \<times> Memstore" where
  "Memstore_Put L alg s m data =
     (case verifyContent L alg m data of
        Some err \<Rightarrow> (Some err, s)
      | None \<Rightarrow>
          let k = MID_String L m;
              sz = (case ms_blocks s k of
                      Some old \<Rightarrow> ms_sizeVal s - of_nat (length old)
                    | None \<Rightarrow> ms_sizeVal s)
          in (None, s\<lparr>ms_blocks := (ms_blocks s)(k \<mapsto> data), ms_sizeVal := sz + of_nat (length data)\<rparr>))"

fun Memstore_PutBatch ::
    "hashlib \<Rightarrow> u64 \<Rightarrow> Memstore \<Rightarrow> (MID \<times> bytes) list \<Rightarrow> gerror option \<times> Memstore" where
  "Memstore_PutBatch L alg s [] = (None, s)"
| "Memstore_PutBatch L alg s ((m, data) # bs) =
     (case Memstore_Put L alg s m data of
        (Some err, s') \<Rightarrow> (Some err, s')
      | (None, s') \<Rightarrow> Memstore_PutBatch L alg s' bs)"

definition Memstore_Get :: "hashlib \<Rightarrow> Memstore \<Rightarrow> MID \<Rightarrow> bytes result" where
  "Memstore_Get L s m =
     (case ms_blocks s (MID_String L m) of None \<Rightarrow> Inl ErrNotFound | Some b \<Rightarrow> Inr b)"

definition Memstore_Has :: "hashlib \<Rightarrow> Memstore \<Rightarrow> MID \<Rightarrow> bool result" where
  "Memstore_Has L s m = Inr (ms_blocks s (MID_String L m) \<noteq> None)"

definition Memstore_GetSize :: "hashlib \<Rightarrow> Memstore \<Rightarrow> MID \<Rightarrow> int result" where
  "Memstore_GetSize L s m =
     (case ms_blocks s (MID_String L m) of None \<Rightarrow> Inl ErrNotFound | Some b \<Rightarrow> Inr (int (length b)))"

definition Memstore_Delete :: "hashlib \<Rightarrow> Memstore \<Rightarrow> MID \<Rightarrow> gerror option \<times> Memstore" where
  "Memstore_Delete L s m =
     (case ms_blocks s (MID_String L m) of
        None \<Rightarrow> (None, s)
      | Some old \<Rightarrow>
          (None, s\<lparr>ms_sizeVal := ms_sizeVal s - of_nat (length old),
                   ms_blocks := (ms_blocks s)(MID_String L m := None)\<rparr>))"

text \<open>A loop over map keys that parses each and calls back; unparsable keys are skipped.\<close>

fun iterate_keys :: "hashlib \<Rightarrow> (MID \<Rightarrow> 'v \<Rightarrow> gerror option \<times> 'v) \<Rightarrow> string list \<Rightarrow> 'v \<Rightarrow> gerror option \<times> 'v" where
  "iterate_keys L fn [] v = (None, v)"
| "iterate_keys L fn (k # ks) v =
     (case Parse L k of
        Inl _ \<Rightarrow> iterate_keys L fn ks v
      | Inr m \<Rightarrow> (case fn m v of
                    (Some err, v') \<Rightarrow> (Some err, v')
                  | (None, v') \<Rightarrow> iterate_keys L fn ks v'))"

definition Memstore_IterateSealed ::
    "hashlib \<Rightarrow> Memstore \<Rightarrow> string list \<Rightarrow> (MID \<Rightarrow> 'v \<Rightarrow> gerror option \<times> 'v) \<Rightarrow> 'v \<Rightarrow> gerror option \<times> 'v" where
  "Memstore_IterateSealed L s order fn v =
     iterate_keys L fn (filter (\<lambda>k. ms_seals s k \<noteq> Some True) order) v"

definition Memstore_AllSealed :: "hashlib \<Rightarrow> Memstore \<Rightarrow> string list \<Rightarrow> gerror option \<times> MID list" where
  "Memstore_AllSealed L s order = Memstore_IterateSealed L s order (\<lambda>m out. (None, out @ [m])) []"

definition Memstore_IterateBlocks ::
    "hashlib \<Rightarrow> Memstore \<Rightarrow> string list \<Rightarrow> (MID \<Rightarrow> 'v \<Rightarrow> gerror option \<times> 'v) \<Rightarrow> 'v \<Rightarrow> gerror option \<times> 'v" where
  "Memstore_IterateBlocks L s order fn v = iterate_keys L fn order v"

definition Memstore_AllBlocks :: "hashlib \<Rightarrow> Memstore \<Rightarrow> string list \<Rightarrow> gerror option \<times> MID list" where
  "Memstore_AllBlocks L s order = Memstore_IterateBlocks L s order (\<lambda>m out. (None, out @ [m])) []"

definition Memstore_PutMeta :: "Memstore \<Rightarrow> string \<Rightarrow> bytes \<Rightarrow> gerror option \<times> Memstore" where
  "Memstore_PutMeta s key val = (None, s\<lparr>ms_meta := (ms_meta s)(key \<mapsto> val)\<rparr>)"

definition Memstore_GetMeta :: "Memstore \<Rightarrow> string \<Rightarrow> bytes result" where
  "Memstore_GetMeta s key = (case ms_meta s key of None \<Rightarrow> Inl ErrNotFound | Some v \<Rightarrow> Inr v)"

definition Memstore_Size :: "Memstore \<Rightarrow> u64 result" where
  "Memstore_Size s = Inr (ms_sizeVal s)"

definition Memstore_DropAll :: "Memstore \<Rightarrow> gerror option \<times> Memstore" where
  "Memstore_DropAll s =
     (None, s\<lparr>ms_blocks := Map.empty, ms_meta := Map.empty, ms_seals := Map.empty\<rparr>)"

definition Memstore_Len :: "Memstore \<Rightarrow> nat" where
  "Memstore_Len s = card (dom (ms_blocks s))"

definition memstore_getter :: "hashlib \<Rightarrow> Memstore getter" where
  "memstore_getter L = \<lparr>g_Get = Memstore_Get L, g_GetSize = Some (Memstore_GetSize L)\<rparr>"

definition seal_visit :: "hashlib \<Rightarrow> MID \<Rightarrow> (string \<rightharpoonup> bool) visitor" where
  "seal_visit L root m leaf seals =
     (None, if MID_Equal m root then seals
            else if m_codec m = CodecMemFS then seals(MID_String L m \<mapsto> True) else seals)"

text \<open>The error of the walk is discarded; \<open>None\<close> is a walk whose fuel ran out.\<close>

definition Memstore_Seal ::
    "hashlib \<Rightarrow> protolib \<Rightarrow> nat \<Rightarrow> Memstore \<Rightarrow> MID \<Rightarrow> bool \<Rightarrow> Memstore option" where
  "Memstore_Seal L P fuel s root recursive =
     (let s1 = s\<lparr>ms_seals := (ms_seals s)(MID_String L root \<mapsto> False)\<rparr>
      in if \<not> recursive then Some s1
         else map_option (\<lambda>(_, seals). s1\<lparr>ms_seals := seals\<rparr>)
           (Walk_store L P (memstore_getter L) fuel (Some s1) root (seal_visit L root) (ms_seals s1)))"

definition unseal_visit :: "hashlib \<Rightarrow> (string \<rightharpoonup> bool) visitor" where
  "unseal_visit L m leaf seals =
     (None, if m_codec m = CodecMemFS then seals(MID_String L m := None) else seals)"

definition Memstore_Unseal :: "hashlib \<Rightarrow> protolib \<Rightarrow> nat \<Rightarrow> Memstore \<Rightarrow> MID \<Rightarrow> Memstore option" where
  "Memstore_Unseal L P fuel s root =
     (let s1 = s\<lparr>ms_seals := (ms_seals s)(MID_String L root := None)\<rparr>
      in map_option (\<lambda>(_, seals). s1\<lparr>ms_seals := seals\<rparr>)
           (Walk_store L P (memstore_getter L) fuel (Some s1) root (unseal_visit L) (ms_seals s1)))"

definition Memstore_IsSealed :: "hashlib \<Rightarrow> Memstore \<Rightarrow> MID \<Rightarrow> bool result" where
  "Memstore_IsSealed L s root = Inr (ms_seals s (MID_String L root) \<noteq> None)"

definition Memstore_GC :: "Memstore \<Rightarrow> u64 result \<times> Memstore" where
  "Memstore_GC s = (Inr 0, s)"

text \<open>DeleteRecursive: the closure collect with its own classification of children.\<close>

definition collect_children :: "hashlib \<Rightarrow> protolib \<Rightarrow> MID \<Rightarrow> bytes \<Rightarrow> MID list" where
  "collect_children L P m data =
     (if m_codec m = CodecMemFS then
        (case pb_MemFSNode_Unmarshal P data of
           None \<Rightarrow> []
         | Some node \<Rightarrow>
             if fn_Type node = MemFSType_FILE then file_children L (fn_Blocks node)
             else if fn_Type node = MemFSType_DIR then dir_children L (fn_Entries node)
             else [])
      else
        (case pb_DAGNode_Unmarshal P data of
           None \<Rightarrow> []
         | Some node \<Rightarrow>
             if dn_Links node \<noteq> [] then oks (map (Parse L) (dn_Links node)) else []))"

fun collect :: "hashlib \<Rightarrow> protolib \<Rightarrow> (string \<rightharpoonup> bytes) \<Rightarrow> nat \<Rightarrow> MID \<Rightarrow> (string \<times> MID) list
      \<Rightarrow> (string \<times> MID) list option"
  and collect_all :: "hashlib \<Rightarrow> protolib \<Rightarrow> (string \<rightharpoonup> bytes) \<Rightarrow> nat \<Rightarrow> MID list \<Rightarrow> (string \<times> MID) list
      \<Rightarrow> (string \<times> MID) list option" where
  "collect L P blocks 0 m reachable = None"
| "collect L P blocks (Suc n) m reachable =
     (if IsZero m then Some reachable
      else let ids = MID_String L m
        in if ids \<in> fst ` set reachable then Some reachable
           else case blocks ids of
             None \<Rightarrow> Some reachable
           | Some data \<Rightarrow>
               collect_all L P blocks n (collect_children L P m data) (reachable @ [(ids, m)]))"
| "collect_all L P blocks n [] reachable = Some reachable"
| "collect_all L P blocks n (c # cs) reachable =
     (case collect L P blocks n c reachable of
        None \<Rightarrow> None
      | Some reachable' \<Rightarrow> collect_all L P blocks n cs reachable')"

text \<open>The deletion loop; the counters are uint64.\<close>

fun delete_loop :: "string list \<Rightarrow> u64 \<times> u64 \<times> Memstore \<Rightarrow> u64 \<times> u64 \<times> Memstore" where
  "delete_loop [] st = st"
| "delete_loop (ids # rest) (n, freed, s) =
     (case ms_blocks s ids of
        None \<Rightarrow> delete_loop rest (n, freed, s)
      | Some data \<Rightarrow>
          delete_loop rest
            (n + 1, freed + of_nat (length data),
             s\<lparr>ms_sizeVal := ms_sizeVal s - of_nat (length data), ms_blocks := (ms_blocks s)(ids := None)\<rparr>))"

definition delete_meta :: "string list \<Rightarrow> (string \<rightharpoonup> bytes) \<Rightarrow> (string \<rightharpoonup> bytes)" where
  "delete_meta keys meta = fold (\<lambda>ids m. m(''obj/'' @ ids := None, ''ts/'' @ ids := None)) keys meta"

text \<open>\<open>order1\<close> and \<open>order2\<close> are the orders in which the two loops meet the keys of \<open>reachable\<close>.\<close>

definition Memstore_DeleteRecursive ::
    "hashlib \<Rightarrow> protolib \<Rightarrow> nat \<Rightarrow> (string list \<Rightarrow> string list) \<Rightarrow> (string list \<Rightarrow> string list)
     \<Rightarrow> Memstore \<Rightarrow> MID \<Rightarrow> ((u64 \<times> u64) result \<times> Memstore) option" where
  "Memstore_DeleteRecursive L P fuel order1 order2 s root =
     (if IsZero root then Some (Inl (Msg ''store: zero MID''), s)
      else case Memstore_Unseal L P fuel s root of
        None \<Rightarrow> None
      | Some s1 \<Rightarrow>
          (case collect L P (ms_blocks s1) fuel root [] of
             None \<Rightarrow> None
           | Some reachable \<Rightarrow>
               (case delete_loop (order1 (map fst reachable)) (0, 0, s1) of
                  (blocksDeleted, bytesFreed, s2) \<Rightarrow>
                    Some (Inr (blocksDeleted, bytesFreed),
                      s2\<lparr>ms_meta := delete_meta (order2 (map fst reachable)) (ms_meta s2)\<rparr>))))"

section \<open>Invariant\<close>

definition total_bytes :: "(string \<rightharpoonup> bytes) \<Rightarrow> nat" where
  "total_bytes b = (\<Sum>k \<in> dom b. length (the (b k)))"

definition honest :: "hashlib \<Rightarrow> u64 \<Rightarrow> (string \<rightharpoonup> bytes) \<Rightarrow> bool" where
  "honest L alg b = (\<forall>k d. b k = Some d \<longrightarrow> (\<exists>m. mid_wf L m \<and> MID_String L m = k \<and> verifyContent L alg m d = None))"

text \<open>
  The store is finite, every block hashes to the MID it is stored under, and \<open>sizeVal\<close> is the number
  of bytes held, modulo \<open>2^64\<close>.
\<close>

definition memstore_inv :: "hashlib \<Rightarrow> u64 \<Rightarrow> Memstore \<Rightarrow> bool" where
  "memstore_inv L alg s =
     (hashlib_ok L \<and> finite (dom (ms_blocks s)) \<and> honest L alg (ms_blocks s) \<and>
      ms_sizeVal s = of_nat (total_bytes (ms_blocks s)))"

lemma total_bytes_insert:
  "finite (dom b) \<Longrightarrow> b k = None \<Longrightarrow> total_bytes (b(k \<mapsto> d)) = length d + total_bytes b"
proof -
  assume fin: "finite (dom b)" and k: "b k = None"
  have "(\<Sum>x \<in> dom b. length (the ((b(k \<mapsto> d)) x))) = total_bytes b"
    unfolding total_bytes_def using k by (intro sum.cong) auto
  with fin k show ?thesis by (simp add: total_bytes_def domIff sum.insert_if)
qed

lemma total_bytes_remove:
  assumes "finite (dom b)" "b k = Some d"
  shows "total_bytes b = length d + total_bytes (b(k := None))"
proof -
  have "b = (b(k := None))(k \<mapsto> d)" using assms(2) by auto
  with total_bytes_insert [of "b(k := None)" k d] assms(1) show ?thesis by simp
qed

lemma honest_upd:
  "honest L alg b \<Longrightarrow> mid_wf L m \<Longrightarrow> verifyContent L alg m d = None \<Longrightarrow> honest L alg (b(MID_String L m \<mapsto> d))"
  by (auto simp: honest_def)

lemma honest_sub: "honest L alg b \<Longrightarrow> (\<And>k. b' k = None \<or> b' k = b k) \<Longrightarrow> honest L alg b'"
  unfolding honest_def by (metis option.distinct(1))

lemma NewMemstore_inv: "hashlib_ok L \<Longrightarrow> memstore_inv L alg NewMemstore"
  by (simp add: memstore_inv_def NewMemstore_def honest_def total_bytes_def)

lemma Memstore_Put_ok:
  assumes "memstore_inv L alg s" "mid_wf L m" "verifyContent L alg m data = None"
  shows "\<exists>s'. Memstore_Put L alg s m data = (None, s') \<and> memstore_inv L alg s' \<and>
    ms_blocks s' = (ms_blocks s)(MID_String L m \<mapsto> data) \<and>
    ms_meta s' = ms_meta s \<and> ms_seals s' = ms_seals s"
proof -
  let ?k = "MID_String L m" and ?b = "ms_blocks s"
  have fin: "finite (dom ?b)" and sz: "ms_sizeVal s = of_nat (total_bytes ?b)"
    using assms(1) by (simp_all add: memstore_inv_def)
  have "(case ?b ?k of Some old \<Rightarrow> ms_sizeVal s - of_nat (length old) | None \<Rightarrow> ms_sizeVal s) =
      of_nat (total_bytes (?b(?k := None)))"
    using total_bytes_remove [OF fin, of ?k] sz by (cases "?b ?k") (simp_all add: fun_upd_idem)
  moreover have "total_bytes (?b(?k \<mapsto> data)) = length data + total_bytes (?b(?k := None))"
    using total_bytes_insert [of "?b(?k := None)" ?k data] fin by simp
  ultimately show ?thesis
    using assms by (auto simp: Memstore_Put_def Let_def memstore_inv_def honest_upd)
qed

lemma Memstore_Put_rejects:
  "verifyContent L alg m data = Some e \<Longrightarrow> Memstore_Put L alg s m data = (Some e, s)"
  by (simp add: Memstore_Put_def)

lemma memstore_inv_remove:
  assumes "memstore_inv L alg s" "ms_blocks s k = Some old"
  shows "memstore_inv L alg
    (s\<lparr>ms_sizeVal := ms_sizeVal s - of_nat (length old), ms_blocks := (ms_blocks s)(k := None)\<rparr>)"
proof -
  let ?b' = "(ms_blocks s)(k := None)"
  have "honest L alg ?b'"
    by (rule honest_sub [of L alg "ms_blocks s"]) (use assms in \<open>simp_all add: memstore_inv_def\<close>)
  moreover have fin: "finite (dom (ms_blocks s))" using assms(1) by (simp add: memstore_inv_def)
  moreover have "ms_sizeVal s = of_nat (length old + total_bytes ?b')"
    using assms(1) by (simp only: memstore_inv_def total_bytes_remove [OF fin assms(2)])
  then have "ms_sizeVal s - of_nat (length old) = of_nat (total_bytes ?b')" by simp
  moreover have "hashlib_ok L" using assms(1) by (simp add: memstore_inv_def)
  ultimately show ?thesis by (simp add: memstore_inv_def)
qed

lemma Memstore_Delete_inv:
  assumes "memstore_inv L alg s"
  shows "memstore_inv L alg (snd (Memstore_Delete L s m))"
    and "ms_blocks (snd (Memstore_Delete L s m)) = (ms_blocks s)(MID_String L m := None)"
    and "fst (Memstore_Delete L s m) = None"
  using assms memstore_inv_remove [OF assms, of "MID_String L m"]
  by (cases "ms_blocks s (MID_String L m)"; simp add: Memstore_Delete_def fun_upd_idem)+

interpretation memstore: blockstore L alg "Memstore_Put L alg" "Memstore_Get L" ms_blocks
    "MID_String L" "memstore_inv L alg" for L alg
proof
  fix s m data
  assume "memstore_inv L alg s" "mid_wf L m" "verifyContent L alg m data = None"
  then show "\<exists>s'. Memstore_Put L alg s m data = (None, s') \<and> memstore_inv L alg s' \<and>
      ms_blocks s' = (ms_blocks s)(MID_String L m \<mapsto> data)"
    using Memstore_Put_ok by blast
next
  fix s m m'
  assume "memstore_inv L alg s" "mid_wf L m" "mid_wf L m'" "MID_String L m = MID_String L m'"
  then show "m = m'" by (auto simp: memstore_inv_def intro: MID_String_inj)
qed (simp_all add: Memstore_Put_rejects Memstore_Get_def)

section \<open>Recursive deletion\<close>

text \<open>What collect sees of a block, as a step of the depth-first walk.\<close>

definition collect_look :: "hashlib \<Rightarrow> protolib \<Rightarrow> (string \<rightharpoonup> bytes) \<Rightarrow> MID \<Rightarrow> visit_step" where
  "collect_look L P b m =
     (if IsZero m then Return None
      else case b (MID_String L m) of
        None \<Rightarrow> Return None
      | Some data \<Rightarrow> VisitInternal (collect_children L P m data))"

lemma collect_children_wf: "c \<in> set (collect_children L P m data) \<Longrightarrow> mid_wf L c"
  using file_children_wf [of c L] dir_children_wf [of c L] parsed_list_wf [of c L]
  by (cases "m_codec m = CodecMemFS"; cases "pb_MemFSNode_Unmarshal P data";
      cases "pb_DAGNode_Unmarshal P data") (simp_all add: collect_children_def split: if_split_asm, blast+)

lemma collect_succs:
  "succs (collect_look L P b) m =
     (if IsZero m then [] else case b (MID_String L m) of None \<Rightarrow> [] | Some data \<Rightarrow> collect_children L P m data)"
  by (simp add: succs_def collect_look_def split: option.split)

lemma collect_look_wf: "c \<in> set (succs (collect_look L P b) m) \<Longrightarrow> mid_wf L c"
  by (auto simp: collect_succs intro: collect_children_wf split: if_splits option.splits)

interpretation collect_links: linked_blocks L "collect_look L P b" "\<lambda>m. hashlib_ok L \<and> mid_wf L m"
  for L P b
  by unfold_locales (auto intro: MID_String_inj collect_look_wf)

text \<open>collect follows the walk: it keeps the visited keys that are present in the store.\<close>

definition collected ::
    "(string \<rightharpoonup> bytes) \<Rightarrow> gerror option \<times> string set \<times> 'v \<Rightarrow> (string \<times> MID) list \<Rightarrow> bool" where
  "collected b w reach =
     (case w of (r, V, v) \<Rightarrow> r = None \<and> V \<inter> dom b = fst ` set reach \<and> distinct (map fst reach))"

lemma collect_all_walk:
  assumes "\<And>m V v reach. mid_wf L m \<Longrightarrow> collected b (None, V, v) reach \<Longrightarrow>
      rel_option (collected b) (walk L (collect_look L P b) recorder n m (V, v))
        (collect L P b n m reach)"
  shows "\<forall>c \<in> set cs. mid_wf L c \<Longrightarrow> collected b (None, V, v) reach \<Longrightarrow>
      rel_option (collected b) (walk_children L (collect_look L P b) recorder n cs (V, v))
        (collect_all L P b n cs reach)"
proof (induction cs arbitrary: V v reach)
  case (Cons c cs)
  have "rel_option (collected b) (walk L (collect_look L P b) recorder n c (V, v))
      (collect L P b n c reach)" using assms Cons.prems by simp
  then show ?case
  proof (cases rule: option.rel_cases)
    case (Some w reach')
    obtain r V' v' where w: "w = (r, V', v')" by (cases w) auto
    with Some have "r = None" "collected b (None, V', v') reach'" by (auto simp: collected_def)
    with Cons.IH [of V' v' reach'] Cons.prems(1) Some w show ?thesis by simp
  qed simp
qed simp

lemma collect_walk:
  "mid_wf L m \<Longrightarrow> collected b (None, V, v) reach \<Longrightarrow>
     rel_option (collected b) (walk L (collect_look L P b) recorder n m (V, v)) (collect L P b n m reach)"
proof (induction n arbitrary: m V v reach)
  case (Suc n)
  let ?k = "MID_String L m"
  have z: "\<not> IsZero m" using Suc.prems(1) by simp
  have mem: "?k \<in> fst ` set reach \<longleftrightarrow> ?k \<in> V \<and> b ?k \<noteq> None"
    using Suc.prems(2) by (auto simp: collected_def)
  show ?case
  proof (cases "b ?k")
    case None
    with z mem Suc.prems(2) show ?thesis
      by (auto simp: collect_look_def collected_def)
  next
    case (Some data)
    show ?thesis
    proof (cases "?k \<in> V")
      case True
      with Some mem z Suc.prems(2) show ?thesis by (simp add: collected_def)
    next
      case False
      then have new: "?k \<notin> fst ` set reach" using mem by simp
      have "insert ?k V \<inter> dom b = insert ?k (V \<inter> dom b)" using Some by auto
      with new Suc.prems(2)
      have "collected b (None, insert ?k V, v @ [(m, False)]) (reach @ [(?k, m)])"
        by (auto simp: collected_def)
      from collect_all_walk [OF Suc.IH _ this] collect_children_wf
      have "rel_option (collected b)
          (walk_children L (collect_look L P b) recorder n (collect_children L P m data)
             (insert ?k V, v @ [(m, False)]))
          (collect_all L P b n (collect_children L P m data) (reach @ [(?k, m)]))" by blast
      moreover have "collect_look L P b m = VisitInternal (collect_children L P m data)"
        using Some z by (simp add: collect_look_def)
      ultimately show ?thesis using Some False new z by (simp add: Let_def recorder_apply)
    qed
  qed
qed simp

text \<open>The keys a recursive deletion removes.\<close>

definition doomed :: "hashlib \<Rightarrow> protolib \<Rightarrow> (string \<rightharpoonup> bytes) \<Rightarrow> MID \<Rightarrow> string set" where
  "doomed L P b root = {k. \<exists>m. reaches (collect_look L P b) root m \<and> MID_String L m = k} \<inter> dom b"

text \<open>A finite store reaches finitely many identifiers.\<close>

lemma reaches_bound:
  assumes "\<And>m. b (MID_String L m) = None \<Longrightarrow> succs look m = []"
    and "\<And>m m'. mid_wf L m \<Longrightarrow> mid_wf L m' \<Longrightarrow> MID_String L m = MID_String L m' \<Longrightarrow> m = m'"
    and "\<And>m c. c \<in> set (succs look m) \<Longrightarrow> mid_wf L c"
    and "finite (dom b)" "mid_wf L root"
  shows "finite {x. reaches look root x}"
proof -
  let ?live = "{m. mid_wf L m \<and> b (MID_String L m) \<noteq> None}"
  have "finite ?live"
  proof (rule finite_imageD)
    show "inj_on (MID_String L) ?live" using assms(2) by (auto intro!: inj_onI)
    have "MID_String L ` ?live \<subseteq> dom b" by auto
    then show "finite (MID_String L ` ?live)" using assms(4) by (rule finite_subset)
  qed
  let ?R = "insert root (\<Union>m \<in> ?live. set (succs look m))"
  have "x \<in> ?R" if "reaches look root x" for x
  proof (rule reaches_within [OF that])
    fix y assume "y \<in> ?R"
    then have "mid_wf L y" using assms(3,5) by auto
    then have "succs look y = [] \<or> y \<in> ?live" using assms(1) [of y] by auto
    then show "set (succs look y) \<subseteq> ?R" by auto
  qed simp
  then have "{x. reaches look root x} \<subseteq> ?R" by blast
  with \<open>finite ?live\<close> show ?thesis by (simp add: finite_subset)
qed

lemma collect_doomed:
  assumes "hashlib_ok L" "mid_wf L root" "finite (dom b)"
    "card {x. reaches (collect_look L P b) root x} < fuel"
  shows "\<exists>reach. collect L P b fuel root [] = Some reach \<and> distinct (map fst reach) \<and>
    fst ` set reach = doomed L P b root"
proof -
  let ?look = "collect_look L P b"
  have fin: "finite {x. reaches ?look root x}"
    by (rule reaches_bound [of b L])
      (use assms(1-3) in \<open>auto simp: collect_succs intro: MID_String_inj
        intro: collect_children_wf split: if_splits option.splits\<close>)
  have "?look x \<noteq> Return (Some e)" for x e
    by (simp add: collect_look_def split: option.split)
  from collect_links.walk_recorded [OF _ fin assms(4) this] assms(1,2) obtain V l where
    w: "walk L ?look recorder fuel root ({}, []) = Some (None, V, l)"
    "set l = reports ?look {x. reaches ?look root x}" by blast
  from collect_links.walk_span [of L root "{}" P b fuel "[]" None V l] w(1) assms(1,2) obtain W where
    W: "V = MID_String L ` W" "span ?look (\<lambda>m. hashlib_ok L \<and> mid_wf L m) {root} {} W None l"
    by auto
  have "W = {x. reaches ?look root x}"
  proof -
    have "x \<in> W" if "reaches ?look y x" "y \<in> W" for x y
      using that W(2) by (induction) (auto simp: span_def)
    then show ?thesis using W(2) by (auto simp: span_def)
  qed
  with W(1) have V: "V = MID_String L ` {x. reaches ?look root x}" by simp
  have "collected b (None, {}, []) []" by (simp add: collected_def)
  from collect_walk [OF assms(2) this, of P fuel] w(1) obtain reach where
    "collect L P b fuel root [] = Some reach" "collected b (None, V, l) reach"
    by (cases "collect L P b fuel root []") simp_all
  then have "collect L P b fuel root [] = Some reach" "distinct (map fst reach)"
    "fst ` set reach = MID_String L ` {x. reaches ?look root x} \<inter> dom b"
    unfolding V by (simp_all add: collected_def)
  moreover have "doomed L P b root = MID_String L ` {x. reaches ?look root x} \<inter> dom b"
    unfolding doomed_def by blast
  ultimately show ?thesis by (intro exI [of _ reach]) (simp only: simp_thms)
qed

lemma delete_loop_keys:
  assumes "memstore_inv L alg s" "distinct ks" "set ks \<subseteq> dom (ms_blocks s)"
  shows "\<exists>s'. delete_loop ks (n, freed, s) =
      (n + of_nat (length ks), freed + of_nat (\<Sum>k \<leftarrow> ks. length (the (ms_blocks s k))), s') \<and>
    memstore_inv L alg s' \<and> ms_blocks s' = ms_blocks s |` (- set ks) \<and>
    ms_meta s' = ms_meta s \<and> ms_seals s' = ms_seals s"
  using assms
proof (induction ks arbitrary: n freed s)
  case Nil
  have "ms_blocks s |` (- {}) = ms_blocks s" by (simp add: restrict_map_def)
  with Nil show ?case by simp
next
  case (Cons k ks)
  then obtain data where k: "ms_blocks s k = Some data" by auto
  let ?s = "s\<lparr>ms_sizeVal := ms_sizeVal s - of_nat (length data), ms_blocks := (ms_blocks s)(k := None)\<rparr>"
  have inv: "memstore_inv L alg ?s" using memstore_inv_remove [OF Cons.prems(1) k] .
  have sub: "set ks \<subseteq> dom (ms_blocks ?s)" and dist: "distinct ks" using Cons.prems(2,3) by auto
  obtain s' where
    s': "delete_loop ks (n + 1, freed + of_nat (length data), ?s) =
        (n + 1 + of_nat (length ks), freed + of_nat (length data) +
          of_nat (\<Sum>k' \<leftarrow> ks. length (the (ms_blocks ?s k'))), s')" "memstore_inv L alg s'"
      "ms_blocks s' = ms_blocks ?s |` (- set ks)" "ms_meta s' = ms_meta ?s" "ms_seals s' = ms_seals ?s"
    using Cons.IH [OF inv dist sub, of "n + 1" "freed + of_nat (length data)"] by blast
  have sums: "(\<Sum>k' \<leftarrow> ks. length (the (ms_blocks ?s k'))) = (\<Sum>k' \<leftarrow> ks. length (the (ms_blocks s k')))"
    using Cons.prems(2) by (intro arg_cong [of _ _ sum_list] map_cong) auto
  have "ms_blocks ?s |` (- set ks) = ms_blocks s |` (- set (k # ks))"
    by (auto simp: restrict_map_def fun_eq_iff)
  with s'(1) [unfolded sums] s'(2-5) k show ?case by (simp add: add.assoc)
qed

lemma delete_meta_gone: "k \<in> set ks \<Longrightarrow> delete_meta ks meta (''obj/'' @ k) = None"
  and delete_meta_ts: "k \<in> set ks \<Longrightarrow> delete_meta ks meta (''ts/'' @ k) = None"
  by (induction ks arbitrary: meta rule: rev_induct) (auto simp: delete_meta_def)

lemma memstore_inspect_missing:
  "ms_blocks s (MID_String L m) = None \<Longrightarrow> succs (inspect L P (memstore_getter L) s ign) m = []"
  by (simp add: succs_def inspect_def memstore_getter_def Memstore_GetSize_def)

lemma memstore_reaches_finite:
  assumes "memstore_inv L alg s" "mid_wf L root"
  shows "finite {x. reaches (inspect L P (memstore_getter L) s ign) root x}"
  by (rule reaches_bound [of "ms_blocks s" L])
    (use assms memstore_inspect_missing inspect_wf in
      \<open>auto simp: memstore_inv_def intro: MID_String_inj\<close>)

section \<open>Seals\<close>

lemma replay_last: "replay visit (l @ [x]) v = snd (visit (fst x) (snd x) (replay visit l v))"
  by (cases x) simp

lemma replay_seal:
  "replay (seal_visit L root) l seals k =
     (if \<exists>m \<in> fst ` set l. \<not> MID_Equal m root \<and> m_codec m = CodecMemFS \<and> MID_String L m = k
      then Some True else seals k)"
  by (induction l rule: rev_induct) (auto simp: replay_last seal_visit_def)

lemma replay_unseal:
  "replay (unseal_visit L) l seals k =
     (if \<exists>m \<in> fst ` set l. m_codec m = CodecMemFS \<and> MID_String L m = k then None else seals k)"
  by (induction l rule: rev_induct) (auto simp: replay_last unseal_visit_def)

lemma memstore_inspect_seals:
  "inspect L P (memstore_getter L) (s\<lparr>ms_seals := x\<rparr>) ign m = inspect L P (memstore_getter L) s ign m"
  by (cases "ms_blocks s (MID_String L m)")
    (simp_all add: inspect_def memstore_getter_def Memstore_Get_def Memstore_GetSize_def)

lemma Memstore_Unseal_ok:
  assumes "memstore_inv L alg s" "mid_wf L root"
    "card {x. reaches (inspect L P (memstore_getter L) s False) root x} < fuel"
  shows "\<exists>s'. Memstore_Unseal L P fuel s root = Some s' \<and> memstore_inv L alg s' \<and>
    ms_blocks s' = ms_blocks s \<and> ms_meta s' = ms_meta s \<and> ms_seals s' (MID_String L root) = None"
proof -
  let ?s = "s\<lparr>ms_seals := (ms_seals s)(MID_String L root := None)\<rparr>"
  have look: "inspect L P (memstore_getter L) ?s False = inspect L P (memstore_getter L) s False"
    by (rule ext) (simp add: memstore_inspect_seals)
  have "hashlib_ok L" using assms(1) by (simp add: memstore_inv_def)
  with store_links.walk_total [OF _ memstore_reaches_finite [OF assms(1,2)] assms(3),
      of recorder "[]"] assms(2)
  obtain r V l where
    w: "walk L (inspect L P (memstore_getter L) s False) recorder fuel root ({}, []) = Some (r, V, l)"
    by blast
  have "walk L (inspect L P (memstore_getter L) s False) (unseal_visit L) fuel root
      ({}, ms_seals ?s) = Some (r, V, replay (unseal_visit L) l (ms_seals ?s))"
    using walk_replay [of "unseal_visit L" L _ fuel root "{}" "[]" "ms_seals ?s"] w
    by (simp add: unseal_visit_def)
  then have "Memstore_Unseal L P fuel s root =
      Some (?s\<lparr>ms_seals := replay (unseal_visit L) l (ms_seals ?s)\<rparr>)"
    using assms(2) by (simp add: Memstore_Unseal_def Walk_store_def WalkOptions_def look)
  moreover have "replay (unseal_visit L) l (ms_seals ?s) (MID_String L root) = None"
    by (simp add: replay_unseal)
  ultimately show ?thesis using assms(1) by (auto simp: memstore_inv_def)
qed

section \<open>Runs of the store\<close>

text \<open>
  One call of a method that changes the store. The identifiers it is given were made by the
  constructors of package mid, the only way to fill their private fields, so they are well formed.
  Recursive calls take any fuel that lets them return;
  map iteration may use any order.
\<close>

definition reorders :: "(string list \<Rightarrow> string list) \<Rightarrow> bool" where
  "reorders f = (\<forall>xs. mset (f xs) = mset xs)"

inductive mem_step :: "hashlib \<Rightarrow> protolib \<Rightarrow> u64 \<Rightarrow> Memstore \<Rightarrow> Memstore \<Rightarrow> bool" for L P alg where
  put: "mid_wf L m \<Longrightarrow> Memstore_Put L alg s m data = (r, s') \<Longrightarrow> mem_step L P alg s s'"
| put_batch: "\<forall>m \<in> fst ` set bs. mid_wf L m \<Longrightarrow> Memstore_PutBatch L alg s bs = (r, s') \<Longrightarrow> mem_step L P alg s s'"
| delete: "Memstore_Delete L s m = (r, s') \<Longrightarrow> mem_step L P alg s s'"
| put_meta: "Memstore_PutMeta s key val = (r, s') \<Longrightarrow> mem_step L P alg s s'"
| seal: "Memstore_Seal L P fuel s root recursive = Some s' \<Longrightarrow> mem_step L P alg s s'"
| unseal: "Memstore_Unseal L P fuel s root = Some s' \<Longrightarrow> mem_step L P alg s s'"
| gc: "Memstore_GC s = (r, s') \<Longrightarrow> mem_step L P alg s s'"
| delete_recursive: "reorders order1 \<Longrightarrow> reorders order2 \<Longrightarrow>
    Memstore_DeleteRecursive L P fuel order1 order2 s root = Some (r, s') \<Longrightarrow> mem_step L P alg s s'"

lemma PutBatch_inv:
  "memstore_inv L alg s \<Longrightarrow> \<forall>m \<in> fst ` set bs. mid_wf L m \<Longrightarrow>
     Memstore_PutBatch L alg s bs = (r, s') \<Longrightarrow> memstore_inv L alg s'"
proof (induction bs arbitrary: s)
  case (Cons b bs)
  obtain m data where b: "b = (m, data)" by (cases b)
  show ?case
  proof (cases "verifyContent L alg m data")
    case None
    have "mid_wf L m" using Cons.prems(2) b by simp
    from Memstore_Put_ok [OF Cons.prems(1) this None] obtain s1 where
      "Memstore_Put L alg s m data = (None, s1)" "memstore_inv L alg s1" by blast
    with Cons b show ?thesis by auto
  next
    case (Some e)
    with Cons.prems b show ?thesis by (auto simp: Memstore_Put_rejects)
  qed
qed simp

lemma memstore_inv_frame:
  "ms_blocks s' = ms_blocks s \<Longrightarrow> ms_sizeVal s' = ms_sizeVal s \<Longrightarrow> memstore_inv L alg s' = memstore_inv L alg s"
  by (simp add: memstore_inv_def)

lemma Memstore_Seal_frame:
  "Memstore_Seal L P fuel s root recursive = Some s' \<Longrightarrow>
     ms_blocks s' = ms_blocks s \<and> ms_sizeVal s' = ms_sizeVal s \<and> ms_meta s' = ms_meta s"
  by (auto simp: Memstore_Seal_def Let_def split: if_splits)

lemma Memstore_Unseal_frame:
  "Memstore_Unseal L P fuel s root = Some s' \<Longrightarrow>
     ms_blocks s' = ms_blocks s \<and> ms_sizeVal s' = ms_sizeVal s \<and> ms_meta s' = ms_meta s"
  by (auto simp: Memstore_Unseal_def Let_def)

lemma delete_loop_inv:
  "memstore_inv L alg s \<Longrightarrow> delete_loop ks (n, freed, s) = (n', freed', s') \<Longrightarrow> memstore_inv L alg s'"
proof (induction ks arbitrary: n freed s)
  case (Cons k ks)
  then show ?case using memstore_inv_remove [OF Cons.prems(1), of k]
    by (cases "ms_blocks s k") auto
qed simp

lemma DeleteRecursive_inv:
  "memstore_inv L alg s \<Longrightarrow> Memstore_DeleteRecursive L P fuel o1 o2 s root = Some (r, s') \<Longrightarrow>
     memstore_inv L alg s'"
proof -
  assume inv: "memstore_inv L alg s"
    and d: "Memstore_DeleteRecursive L P fuel o1 o2 s root = Some (r, s')"
  show ?thesis
  proof (cases "IsZero root")
    case False
    with d obtain s1 reach where s1: "Memstore_Unseal L P fuel s root = Some s1"
      "collect L P (ms_blocks s1) fuel root [] = Some reach"
      by (auto simp: Memstore_DeleteRecursive_def split: option.splits)
    obtain n freed s2 where s2: "delete_loop (o1 (map fst reach)) (0, 0, s1) = (n, freed, s2)"
      by (cases "delete_loop (o1 (map fst reach)) (0, 0, s1)") auto
    have "memstore_inv L alg s1"
      using Memstore_Unseal_frame [OF s1(1)] memstore_inv_frame [of s1 s] inv by simp
    then have "memstore_inv L alg s2" using s2 by (rule delete_loop_inv)
    moreover have "ms_blocks s' = ms_blocks s2" "ms_sizeVal s' = ms_sizeVal s2"
      using d False s1 s2 by (auto simp: Memstore_DeleteRecursive_def)
    ultimately show ?thesis using memstore_inv_frame by blast
  qed (use inv d in \<open>simp add: Memstore_DeleteRecursive_def\<close>)
qed

lemma mem_step_inv: "mem_step L P alg s s' \<Longrightarrow> memstore_inv L alg s \<Longrightarrow> memstore_inv L alg s'"
proof (induction rule: mem_step.induct)
  case (put m s data r s')
  then show ?case using Memstore_Put_ok [of L alg s m data] Memstore_Put_rejects [of L alg m data]
    by (cases "verifyContent L alg m data") auto
next
  case (delete s m r s')
  then show ?case using Memstore_Delete_inv(1) [of L alg s m] by simp
next
  case (seal fuel s root recursive s')
  then show ?case using Memstore_Seal_frame memstore_inv_frame by blast
next
  case (unseal fuel s root s')
  then show ?case using Memstore_Unseal_frame memstore_inv_frame by blast
next
  case (put_meta s key val r s')
  then show ?case by (auto simp: Memstore_PutMeta_def memstore_inv_def)
next
  case (gc s r s')
  then show ?case by (simp add: Memstore_GC_def)
next
  case (put_batch bs s r s')
  then show ?case using PutBatch_inv by blast
next
  case (delete_recursive order1 order2 fuel s root r s')
  then show ?case using DeleteRecursive_inv by blast
qed

section \<open>Properties\<close>


lemma demo_verify: "verifyContent demo_lib mh_SHA2_256 (demo_mid d) d = None"
  by (simp add: verifyContent_def DigestBytes_def demo_mid_def FromBytes_def FromBytesWithCodecAndHash_def
      fromCodecAndHashErr_def validateEnvelope_def build_def demo_lib_def isSupportedHash_def
      mh_SHA2_256_def cidVersion1_def NewCidV1_def Let_def)

lemma demo_put:
  "mem_step demo_lib P mh_SHA2_256 s (snd (Memstore_Put demo_lib mh_SHA2_256 s (demo_mid d) d))"
  using mem_step.put [OF demo_mid_wf, of mh_SHA2_256 s d d] by (metis prod.collapse)


text \<open>
  Property C17. A Put of data that hashes to its identifier succeeds, is read back by Get, Has and
  GetSize, and leaves what the store answers for every other identifier unchanged; a Put of other
  data fails and leaves the store as it was; a Delete makes exactly its own block unavailable.
\<close>

theorem memstore_put_get_delete:
  assumes "memstore_inv L alg s" and "mid_wf L m" and "mid_wf L m'"
  shows "(case verifyContent L alg m data of
       Some e \<Rightarrow> Memstore_Put L alg s m data = (Some e, s)
     | None \<Rightarrow> (\<exists>s'. Memstore_Put L alg s m data = (None, s') \<and> memstore_inv L alg s' \<and>
         Memstore_Get L s' m' = (if m' = m then Inr data else Memstore_Get L s m') \<and>
         Memstore_Has L s' m' = (if m' = m then Inr True else Memstore_Has L s m') \<and>
         Memstore_GetSize L s' m' = (if m' = m then Inr (int (length data)) else Memstore_GetSize L s m'))) \<and>
    (\<exists>s'. Memstore_Delete L s m = (None, s') \<and> memstore_inv L alg s' \<and>
       Memstore_Get L s' m' = (if m' = m then Inl ErrNotFound else Memstore_Get L s m'))"
proof -
  have "hashlib_ok L" using assms(1) by (simp add: memstore_inv_def)
  then have key: "MID_String L m' = MID_String L m \<longleftrightarrow> m' = m"
    using MID_String_inj assms(2,3) by blast
  have "\<exists>s'. Memstore_Delete L s m = (None, s') \<and> memstore_inv L alg s' \<and>
      Memstore_Get L s' m' = (if m' = m then Inl ErrNotFound else Memstore_Get L s m')"
    using Memstore_Delete_inv [OF assms(1), of m] key
    by (intro exI [of _ "snd (Memstore_Delete L s m)"]) (simp add: Memstore_Get_def prod_eq_iff)
  moreover have "\<exists>s'. Memstore_Put L alg s m data = (None, s') \<and> memstore_inv L alg s' \<and>
      Memstore_Get L s' m' = (if m' = m then Inr data else Memstore_Get L s m') \<and>
      Memstore_Has L s' m' = (if m' = m then Inr True else Memstore_Has L s m') \<and>
      Memstore_GetSize L s' m' = (if m' = m then Inr (int (length data)) else Memstore_GetSize L s m')"
    if v: "verifyContent L alg m data = None"
    using memstore.put_stores [OF assms(1,2) v] key
    by (auto simp: Memstore_Get_def Memstore_Has_def Memstore_GetSize_def)
  ultimately show ?thesis
    using Memstore_Put_rejects [of L alg m data] by (cases "verifyContent L alg m data") simp_all
qed

theorem memstore_put_get_delete_witness:
  "\<exists>s'. Memstore_Put demo_lib mh_SHA2_256 NewMemstore (demo_mid [7]) [7] = (None, s') \<and>
     Memstore_Get demo_lib s' (demo_mid [7]) = Inr [7]"
  using memstore_put_get_delete [OF NewMemstore_inv [OF demo_lib_ok] demo_mid_wf demo_mid_wf,
      of mh_SHA2_256 "[7]" "[7]" "[7]"]
  by (auto simp: demo_verify)

text \<open>
  Property C18. DeleteRecursive removes exactly the present blocks reachable from its root,
  whatever order Go's map iteration takes: it returns their number and total size, keeps every
  other block, drops their metadata records and the root's seal, and keeps the store's invariant.
  Fuel beyond the number of reachable identifiers is enough.
\<close>

theorem memstore_delete_recursive:
  assumes "memstore_inv L alg s" and "mid_wf L root" and "reorders order1" and "reorders order2"
    and "card {x. reaches (inspect L P (memstore_getter L) s False) root x} < fuel"
    and "card {x. reaches (collect_look L P (ms_blocks s)) root x} < fuel"
  shows "\<exists>s'. Memstore_DeleteRecursive L P fuel order1 order2 s root =
      Some (Inr (of_nat (card (doomed L P (ms_blocks s) root)),
                 of_nat (\<Sum>k \<in> doomed L P (ms_blocks s) root. length (the (ms_blocks s k)))), s') \<and>
    memstore_inv L alg s' \<and>
    ms_blocks s' = ms_blocks s |` (- doomed L P (ms_blocks s) root) \<and>
    Memstore_IsSealed L s' root = Inr False \<and>
    (\<forall>k \<in> doomed L P (ms_blocks s) root. Memstore_GetMeta s' (''obj/'' @ k) = Inl ErrNotFound)"
proof -
  let ?D = "doomed L P (ms_blocks s) root"
  from Memstore_Unseal_ok [OF assms(1,2,5)] obtain s1 where
    s1: "Memstore_Unseal L P fuel s root = Some s1" "memstore_inv L alg s1"
      "ms_blocks s1 = ms_blocks s" "ms_seals s1 (MID_String L root) = None" by blast
  have "hashlib_ok L" "finite (dom (ms_blocks s))" using assms(1) by (simp_all add: memstore_inv_def)
  from collect_doomed [OF this(1) assms(2) this(2) assms(6)] obtain reach where
    reach: "collect L P (ms_blocks s) fuel root [] = Some reach" "distinct (map fst reach)"
      "set (map fst reach) = ?D" by auto
  let ?ks = "order1 (map fst reach)" and ?ks2 = "order2 (map fst reach)"
  have ks: "distinct ?ks" "set ?ks = ?D" "set ?ks2 = ?D"
    using reach assms(3,4) by (metis reorders_def mset_eq_imp_distinct_iff mset_eq_setD)+
  have "?D \<subseteq> dom (ms_blocks s1)" by (auto simp: doomed_def s1(3))
  then obtain s2 where
    s2: "delete_loop ?ks (0, 0, s1) = (of_nat (length ?ks),
        of_nat (\<Sum>k \<leftarrow> ?ks. length (the (ms_blocks s1 k))), s2)" "memstore_inv L alg s2"
      "ms_blocks s2 = ms_blocks s1 |` (- set ?ks)" "ms_seals s2 = ms_seals s1"
    using delete_loop_keys [OF s1(2) ks(1), of 0 0] by (auto simp: ks(2))
  have "length ?ks = card ?D" using distinct_card [OF ks(1)] ks(2) by simp
  moreover have "(\<Sum>k \<leftarrow> ?ks. length (the (ms_blocks s1 k))) = (\<Sum>k \<in> ?D. length (the (ms_blocks s k)))"
    using sum_list_distinct_conv_sum_set [OF ks(1)] ks(2) s1(3) by simp
  ultimately have "Memstore_DeleteRecursive L P fuel order1 order2 s root =
      Some (Inr (of_nat (card ?D), of_nat (\<Sum>k \<in> ?D. length (the (ms_blocks s k)))),
        s2\<lparr>ms_meta := delete_meta ?ks2 (ms_meta s2)\<rparr>)"
    using s1(1,3) reach(1) s2(1) assms(2) by (simp add: Memstore_DeleteRecursive_def)
  then show ?thesis
    using s1(3,4) s2 ks delete_meta_gone [of _ ?ks2 "ms_meta s2"]
    by (auto simp: memstore_inv_def Memstore_IsSealed_def Memstore_GetMeta_def)
qed

lemma reaches_stuck: "reaches look m x \<Longrightarrow> succs look m = [] \<Longrightarrow> x = m"
  by (cases rule: reaches.cases) auto

theorem memstore_delete_recursive_witness:
  "\<exists>s s'. Memstore_Get demo_lib s (demo_mid [7]) = Inr [7] \<and>
     Memstore_DeleteRecursive demo_lib demo_proto 2 rev (\<lambda>ks. ks) s (demo_mid [7]) =
       Some (Inr (1, 1), s') \<and> ms_blocks s' = Map.empty"
proof -
  let ?m = "demo_mid [7]"
  let ?k = "MID_String demo_lib ?m"
  define s where "s = snd (Memstore_Put demo_lib mh_SHA2_256 NewMemstore ?m [7])"
  have b: "ms_blocks s = [?k \<mapsto> [7]]"
    by (simp add: s_def Memstore_Put_def demo_verify Let_def NewMemstore_def)
  have inv: "memstore_inv demo_lib mh_SHA2_256 s"
    using mem_step_inv [OF demo_put NewMemstore_inv [OF demo_lib_ok]] by (simp add: s_def)
  let ?in = "inspect demo_lib demo_proto (memstore_getter demo_lib) s False"
  let ?co = "collect_look demo_lib demo_proto (ms_blocks s)"
  have none: "pb_DAGNode_Unmarshal demo_proto [7] = None" by (simp add: demo_proto_def)
  have "?in ?m = VisitLeaf"
    by (simp add: inspect_def memstore_getter_def Memstore_Get_def Memstore_GetSize_def b
        demo_node_children none)
  then have st: "succs ?in ?m = []" by (simp add: succs_def)
  have "collect_children demo_lib demo_proto ?m [7] = []"
    by (simp add: collect_children_def none) (simp add: demo_mid_def CodecRaw_def CodecMemFS_def)
  then have "succs ?co ?m = []" by (simp add: collect_succs b)
  with st have R: "{x. reaches ?in ?m x} = {?m}" "{x. reaches ?co ?m x} = {?m}"
    using reaches_stuck [of ?in ?m] reaches_stuck [of ?co ?m] by (auto intro: reaches.here)
  then have D: "doomed demo_lib demo_proto (ms_blocks s) ?m = {?k}"
    by (auto simp: doomed_def b)
  have ord: "reorders rev" "reorders (\<lambda>ks. ks)" by (simp_all add: reorders_def)
  have fuel: "card {x. reaches ?in ?m x} < 2" "card {x. reaches ?co ?m x} < 2" using R by simp_all
  have sums: "of_nat (card {?k}) = (1 :: u64)"
    "of_nat (\<Sum>k \<in> {?k}. length (the (ms_blocks s k))) = (1 :: u64)" by (simp_all add: b)
  have empty: "ms_blocks s |` (- {?k}) = Map.empty" by (auto simp: b restrict_map_def)
  from memstore_delete_recursive [OF inv demo_mid_wf ord fuel, unfolded D sums empty]
  obtain s' where "Memstore_DeleteRecursive demo_lib demo_proto 2 rev (\<lambda>ks. ks) s ?m =
      Some (Inr (1, 1), s')" "ms_blocks s' = Map.empty" by blast
  moreover have "Memstore_Get demo_lib s ?m = Inr [7]" by (simp add: Memstore_Get_def b)
  ultimately show ?thesis by blast
qed

text \<open>
  DropAll forgets the blocks but not their size: after it an empty store still
  reports the bytes it held before.
\<close>

theorem memstore_drop_all_keeps_size:
  "\<exists>s s'. (mem_step demo_lib demo_proto mh_SHA2_256)\<^sup>*\<^sup>* NewMemstore s \<and>
     Memstore_DropAll s = (None, s') \<and> Memstore_Len s' = 0 \<and> Memstore_Size s' = Inr 1"
proof -
  let ?s = "snd (Memstore_Put demo_lib mh_SHA2_256 NewMemstore (demo_mid [7]) [7])"
  have "(mem_step demo_lib demo_proto mh_SHA2_256)\<^sup>*\<^sup>* NewMemstore ?s"
    using demo_put by (rule r_into_rtranclp)
  then show ?thesis
    by (intro exI [of _ ?s] exI [of _ "snd (Memstore_DropAll ?s)"])
      (simp add: Memstore_DropAll_def Memstore_Len_def Memstore_Size_def Memstore_Put_def demo_verify
        NewMemstore_def Let_def)
qed



end
