(* ===== verification/Resolver.thy ===== *)
theory Resolver
  imports Dag Memstore
begin

text \<open>
  core/dag/resolve.go and core/dag/stats.go: reading a DAG back. The resolver retries a failed Get while
  another goroutine may still be writing, so Get acts on an environment that may change between
  calls; the environment also holds the pipe and the state of the visit hook. The fuel bounds the
  depth of the recursion, which the code itself does not bound.
\<close>

section \<open>The code of the resolver\<close>

definition verifyBlock :: "hashlib \<Rightarrow> u64 \<Rightarrow> MID \<Rightarrow> bytes \<Rightarrow> gerror option" where
  "verifyBlock L alg m data =
     (case DigestBytes L m of
        Inl e \<Rightarrow> Some (Wrap ''dag: claim MID has no digest'' e)
      | Inr want \<Rightarrow>
          (case FromBytes L alg data of
             Inl p \<Rightarrow> Some p
           | Inr gotMID \<Rightarrow>
               (case DigestBytes L gotMID of
                  Inl e \<Rightarrow> Some (Wrap ''dag: derive digest'' e)
                | Inr got \<Rightarrow>
                    if want \<noteq> got
                    then Some (Msg ''dag: block failed integrity check: data does not hash to claimed MID'')
                    else None)))"

text \<open>The links of a canonical internal node, or nothing for a leaf.\<close>

definition isInternalNode :: "protolib \<Rightarrow> bytes \<Rightarrow> string list option" where
  "isInternalNode P data =
     (case pb_DAGNode_Unmarshal P data of
        None \<Rightarrow> None
      | Some node \<Rightarrow>
          if length (dn_Links node) = 0 \<or> length (dn_Data node) \<noteq> 0 then None
          else case pb_DAGNode_Marshal P (links_node (dn_Links node)) of
            None \<Rightarrow> None
          | Some remarshaled \<Rightarrow> if remarshaled \<noteq> data then None else Some (dn_Links node))"

record 'e resolve_env =
  re_Get :: "'e \<Rightarrow> MID \<Rightarrow> bytes result \<times> 'e"
  re_Write :: "'e \<Rightarrow> bytes \<Rightarrow> gerror option \<times> 'e"
  re_visit :: "('e \<Rightarrow> MID \<Rightarrow> gerror option \<times> 'e) option"

text \<open>The retry loop: up to \<open>n\<close> further attempts after the error \<open>err\<close>.\<close>

fun get_retry :: "'e resolve_env \<Rightarrow> nat \<Rightarrow> MID \<Rightarrow> gerror \<Rightarrow> 'e \<Rightarrow> bytes result \<times> 'e" where
  "get_retry E 0 m err e = (Inl err, e)"
| "get_retry E (Suc n) m err e =
     (case re_Get E e m of
        (Inr data, e') \<Rightarrow> (Inr data, e')
      | (Inl err', e') \<Rightarrow> get_retry E n m err' e')"

definition resolve_get :: "hashlib \<Rightarrow> 'e resolve_env \<Rightarrow> MID \<Rightarrow> 'e \<Rightarrow> bytes result \<times> 'e" where
  "resolve_get L E m e =
     (case re_Get E e m of
        (Inr data, e') \<Rightarrow> (Inr data, e')
      | (Inl err, e') \<Rightarrow>
          (case get_retry E 50 m err e' of
             (Inr data, e'') \<Rightarrow> (Inr data, e'')
           | (Inl err', e'') \<Rightarrow> (Inl (Wrap (''dag: get '' @ MID_String L m) err'), e'')))"

fun resolve_walk :: "hashlib \<Rightarrow> protolib \<Rightarrow> u64 \<Rightarrow> 'e resolve_env \<Rightarrow> nat \<Rightarrow> MID \<Rightarrow> 'e
      \<Rightarrow> (gerror option \<times> 'e) option"
  and resolve_links :: "hashlib \<Rightarrow> protolib \<Rightarrow> u64 \<Rightarrow> 'e resolve_env \<Rightarrow> nat \<Rightarrow> string list \<Rightarrow> 'e
      \<Rightarrow> (gerror option \<times> 'e) option" where
  "resolve_walk L P alg E 0 m e = None"
| "resolve_walk L P alg E (Suc n) m e =
     (case resolve_get L E m e of
        (Inl err, e1) \<Rightarrow> Some (Some err, e1)
      | (Inr data, e1) \<Rightarrow>
          (case verifyBlock L alg m data of
             Some err \<Rightarrow> Some (Some err, e1)
           | None \<Rightarrow>
               (case isInternalNode P data of
                  Some links \<Rightarrow>
                    (case re_visit E of
                       None \<Rightarrow> resolve_links L P alg E n links e1
                     | Some visit \<Rightarrow>
                         (case visit e1 m of
                            (Some err, e2) \<Rightarrow> Some (Some err, e2)
                          | (None, e2) \<Rightarrow> resolve_links L P alg E n links e2))
                | None \<Rightarrow> Some (re_Write E e1 data))))"
| "resolve_links L P alg E n [] e = Some (None, e)"
| "resolve_links L P alg E n (s # ss) e =
     (case Parse L s of
        Inl err \<Rightarrow> Some (Some (Wrap (''dag: parse link '' @ s) err), e)
      | Inr child \<Rightarrow>
          (case resolve_walk L P alg E n child e of
             None \<Rightarrow> None
           | Some (Some err, e') \<Rightarrow> Some (Some err, e')
           | Some (None, e') \<Rightarrow> resolve_links L P alg E n ss e'))"

text \<open>
  Resolve and stream. The result is the error Resolve returns at once, or what the reader of the
  pipe sees in the end: the bytes written are part of the environment, and the pipe is closed
  with the walk's error or, without one, with io.EOF.
\<close>

definition Resolve ::
    "hashlib \<Rightarrow> protolib \<Rightarrow> u64 \<Rightarrow> 'e resolve_env option \<Rightarrow> nat \<Rightarrow> MID \<Rightarrow> 'e \<Rightarrow> (gerror + gerror \<times> 'e) option" where
  "Resolve L P alg bs fuel root e =
     (case bs of
        None \<Rightarrow> Some (Inl (Msg ''dag: nil blockstore''))
      | Some E \<Rightarrow>
          if IsZero root then Some (Inl (Msg ''dag: zero root MID''))
          else map_option (\<lambda>(r, e'). Inr (case r of None \<Rightarrow> io_EOF | Some err \<Rightarrow> err, e'))
            (resolve_walk L P alg E fuel root e))"

section \<open>The code of Stat\<close>

record Stats =
  st_Nodes :: u64
  st_Leaves :: u64
  st_Internal :: u64
  st_Depth :: u64
  st_Width :: u64
  st_Bytes :: u64

definition Stats_zero :: Stats where
  "Stats_zero = \<lparr>st_Nodes = 0, st_Leaves = 0, st_Internal = 0, st_Depth = 0, st_Width = 0, st_Bytes = 0\<rparr>"

text \<open>depthOnly, and the loop over its links with the running maximum.\<close>

fun depthOnly :: "hashlib \<Rightarrow> protolib \<Rightarrow> (MID \<Rightarrow> bytes result) \<Rightarrow> nat \<Rightarrow> MID \<Rightarrow> u64 result option"
  and depth_links :: "hashlib \<Rightarrow> protolib \<Rightarrow> (MID \<Rightarrow> bytes result) \<Rightarrow> nat \<Rightarrow> string list \<Rightarrow> u64 \<Rightarrow> u64 result option" where
  "depthOnly L P get 0 m = None"
| "depthOnly L P get (Suc n) m =
     (case get m of
        Inl err \<Rightarrow> Some (Inl (Wrap (''dag: get '' @ MID_String L m) err))
      | Inr data \<Rightarrow>
          (case isInternalNode P data of
             None \<Rightarrow> Some (Inr 1)
           | Some links \<Rightarrow>
               (case depth_links L P get n links 0 of
                  None \<Rightarrow> None
                | Some (Inl err) \<Rightarrow> Some (Inl err)
                | Some (Inr maxChild) \<Rightarrow> Some (Inr (maxChild + 1)))))"
| "depth_links L P get n [] maxChild = Some (Inr maxChild)"
| "depth_links L P get n (s # ss) maxChild =
     (case Parse L s of
        Inl err \<Rightarrow> Some (Inl (Wrap (''dag: parse link '' @ s) err))
      | Inr child \<Rightarrow>
          (case depthOnly L P get n child of
             None \<Rightarrow> None
           | Some (Inl err) \<Rightarrow> Some (Inl err)
           | Some (Inr d) \<Rightarrow> depth_links L P get n ss (if maxChild < d then d else maxChild)))"

fun stat_walk :: "hashlib \<Rightarrow> protolib \<Rightarrow> u64 \<Rightarrow> (MID \<Rightarrow> bytes result) \<Rightarrow> nat \<Rightarrow> MID \<Rightarrow> Stats \<times> string set
      \<Rightarrow> (u64 result \<times> Stats \<times> string set) option"
  and stat_links :: "hashlib \<Rightarrow> protolib \<Rightarrow> u64 \<Rightarrow> (MID \<Rightarrow> bytes result) \<Rightarrow> nat \<Rightarrow> string list \<Rightarrow> u64
      \<Rightarrow> Stats \<times> string set \<Rightarrow> (u64 result \<times> Stats \<times> string set) option" where
  "stat_walk L P alg get 0 m st = None"
| "stat_walk L P alg get (Suc n) m (st, seen) =
     (if MID_String L m \<in> seen
      then map_option (\<lambda>r. (r, st, seen)) (depthOnly L P get (Suc n) m)
      else let seen' = insert (MID_String L m) seen in
        case get m of
          Inl err \<Rightarrow> Some (Inl (Wrap (''dag: get '' @ MID_String L m) err), st, seen')
        | Inr data \<Rightarrow>
            (case verifyBlock L alg m data of
               Some err \<Rightarrow> Some (Inl err, st, seen')
             | None \<Rightarrow>
                 let st1 = st\<lparr>st_Nodes := st_Nodes st + 1, st_Bytes := st_Bytes st + of_nat (length data)\<rparr> in
                 (case isInternalNode P data of
                    None \<Rightarrow> Some (Inr 1, st1\<lparr>st_Leaves := st_Leaves st1 + 1\<rparr>, seen')
                  | Some links \<Rightarrow>
                      let st2 = st1\<lparr>st_Internal := st_Internal st1 + 1,
                            st_Width := (if st_Width st1 < of_nat (length links) then of_nat (length links)
                                         else st_Width st1)\<rparr> in
                      (case stat_links L P alg get n links 0 (st2, seen') of
                         None \<Rightarrow> None
                       | Some (Inl err, st') \<Rightarrow> Some (Inl err, st')
                       | Some (Inr maxChild, st') \<Rightarrow> Some (Inr (maxChild + 1), st')))))"
| "stat_links L P alg get n [] maxChild st = Some (Inr maxChild, st)"
| "stat_links L P alg get n (s # ss) maxChild st =
     (case Parse L s of
        Inl err \<Rightarrow> Some (Inl (Wrap (''dag: parse link '' @ s) err), st)
      | Inr child \<Rightarrow>
          (case stat_walk L P alg get n child st of
             None \<Rightarrow> None
           | Some (Inl err, st') \<Rightarrow> Some (Inl err, st')
           | Some (Inr d, st') \<Rightarrow>
               stat_links L P alg get n ss (if maxChild < d then d else maxChild) st'))"

definition Stat :: "hashlib \<Rightarrow> protolib \<Rightarrow> u64 \<Rightarrow> (MID \<Rightarrow> bytes result) option \<Rightarrow> nat \<Rightarrow> MID \<Rightarrow> Stats result option" where
  "Stat L P alg bs fuel root =
     (case bs of
        None \<Rightarrow> Some (Inl (Msg ''dag: nil blockstore''))
      | Some get \<Rightarrow>
          if IsZero root then Some (Inl (Msg ''dag: zero root MID''))
          else (case stat_walk L P alg get fuel root (Stats_zero, {}) of
             None \<Rightarrow> None
           | Some (Inl err, _) \<Rightarrow> Some (Inl err)
           | Some (Inr depth, st, _) \<Rightarrow> Some (Inr (st\<lparr>st_Depth := depth\<rparr>))))"

section \<open>Trees that can be read back\<close>

fun theight :: "dtree \<Rightarrow> nat" where
  "theight (Leaf d) = 1"
| "theight (Node ts) = Suc (fold max (map theight ts) 0)"

fun proper :: "dtree \<Rightarrow> bool" where
  "proper (Leaf d) = True"
| "proper (Node ts) = (ts \<noteq> [] \<and> (\<forall>t \<in> set ts. proper t))"

text \<open>No leaf of the tree is itself the canonical encoding of an internal node.\<close>

definition plain_leaves :: "protolib \<Rightarrow> dtree \<Rightarrow> bool" where
  "plain_leaves P t = (\<forall>d. Leaf d \<in> subtrees t \<longrightarrow> isInternalNode P d = None)"

lemma fold_max_le: "fold max hs (a :: nat) \<le> h \<longleftrightarrow> a \<le> h \<and> (\<forall>x \<in> set hs. x \<le> h)"
  by (induction hs arbitrary: a) auto

lemma theight_child: "t \<in> set ts \<Longrightarrow> theight t < theight (Node ts)"
  using fold_max_le [of "map theight ts" 0 "fold max (map theight ts) 0"] by (auto simp: less_Suc_eq_le)

lemma subtrees_child: "t \<in> set ts \<Longrightarrow> u \<in> subtrees t \<Longrightarrow> u \<in> subtrees (Node ts)"
  by auto

lemma plain_leaves_child: "plain_leaves P (Node ts) \<Longrightarrow> t \<in> set ts \<Longrightarrow> plain_leaves P t"
  by (auto simp: plain_leaves_def)

lemma proper_tbatch: "xs \<noteq> [] \<Longrightarrow> \<forall>t \<in> set xs. proper t \<Longrightarrow> proper (tbatch xs)"
proof (induction xs rule: tbatch.induct)
  case (3 t u ts)
  note mem = groups_of_mem [OF Fanout_gt(1), of _ "t # u # ts"]
  have "proper (Node g)" if "g \<in> set (groups_of Fanout (t # u # ts))" for g
    using groups_of_lengths [OF that] mem [OF that] "3.prems"(2) by auto
  moreover have "groups_of Fanout (t # u # ts) \<noteq> []" by (simp add: groups_of.simps [of Fanout "t # u # ts"])
  ultimately show ?case using "3.IH" by (simp add: tbatch_more)
qed auto

lemma leaves_tbatch_aux:
  "Leaf d \<in> subtrees (tbatch xs) \<Longrightarrow> xs \<noteq> [] \<Longrightarrow> \<exists>t \<in> set xs. Leaf d \<in> subtrees t"
proof (induction xs rule: tbatch.induct)
  case (3 t u ts)
  let ?gs = "groups_of Fanout (t # u # ts)"
  have "?gs \<noteq> []" by (simp add: groups_of.simps [of Fanout "t # u # ts"])
  with 3 obtain g where "g \<in> set ?gs" "Leaf d \<in> subtrees (Node g)" by (auto simp: tbatch_more)
  then obtain x where "x \<in> set g" "Leaf d \<in> subtrees x" by auto
  with groups_of_mem [OF Fanout_gt(1) \<open>g \<in> set ?gs\<close>] show ?case by blast
qed auto

lemma leaves_tbatch: "Leaf d \<in> subtrees (tbatch (map Leaf ds)) \<Longrightarrow> ds \<noteq> [] \<Longrightarrow> d \<in> set ds"
  using leaves_tbatch_aux [of d "map Leaf ds"] by auto

lemma theight_tbatch:
  "xs \<noteq> [] \<Longrightarrow> \<forall>t \<in> set xs. theight t \<le> h \<Longrightarrow> theight (tbatch xs) < h + length xs"
proof (induction xs arbitrary: h rule: tbatch.induct)
  case (3 t u ts)
  let ?gs = "groups_of Fanout (t # u # ts)"
  note mem = groups_of_mem [OF Fanout_gt(1), of _ "t # u # ts"]
  have "theight (Node g) \<le> Suc h" if "g \<in> set ?gs" for g
    using mem [OF that] "3.prems"(2) by (auto simp: fold_max_le)
  moreover have "?gs \<noteq> []" by (simp add: groups_of.simps [of Fanout "t # u # ts"])
  ultimately have "theight (tbatch (map Node ?gs)) < Suc h + length ?gs" using "3.IH" [of "Suc h"] by auto
  moreover have "length ?gs < length (t # u # ts)" by (rule groups_shrink) simp
  ultimately show ?case by (simp add: tbatch_more)
qed auto

lemma isInternalNode_Node:
  assumes "hashlib_ok L" "protolib_ok L P" "ts \<noteq> []"
  shows "isInternalNode P (tdata L P alg (Node ts)) = Some (map (MID_String L) (map (tmid L P alg) ts))"
  using tdata_Node [OF assms(1,2), of alg ts] assms(3)
  by (simp add: isInternalNode_def links_node_def)

lemma verifyBlock_own:
  assumes "hashlib_ok L"
  shows "verifyBlock L alg (tmid L P alg t) (tdata L P alg t) = None"
proof -
  obtain d where "DigestBytes L (tmid L P alg t) = Inr d"
    using mid_wf_DigestBytes tmid_wf [OF assms] by blast
  with mid_of_ok(1) [OF assms, of alg "tdata L P alg t"] show ?thesis
    by (simp add: verifyBlock_def tmid_def)
qed

lemma Parse_tmid: "hashlib_ok L \<Longrightarrow> Parse L (MID_String L (tmid L P alg t)) = Inr (tmid L P alg t)"
  by (simp add: Parse_String_wf tmid_wf)

section \<open>Resolving a stored tree\<close>

text \<open>An environment whose store does not change while it is read; the pipe collects the bytes.\<close>

definition static_env :: "(MID \<Rightarrow> bytes result) \<Rightarrow> bytes resolve_env" where
  "static_env get = \<lparr>re_Get = (\<lambda>w m. (get m, w)), re_Write = (\<lambda>w d. (None, w @ d)), re_visit = None\<rparr>"

lemma static_env_sel [simp]:
  "re_Get (static_env get) w m = (get m, w)"
  "re_Write (static_env get) w d = (None, w @ d)"
  "re_visit (static_env get) = None"
  by (simp_all add: static_env_def)

lemma static_get_ok: "get m = Inr d \<Longrightarrow> resolve_get L (static_env get) m w = (Inr d, w)"
  by (simp add: resolve_get_def)

definition holds_tree :: "hashlib \<Rightarrow> protolib \<Rightarrow> u64 \<Rightarrow> (MID \<Rightarrow> bytes result) \<Rightarrow> dtree \<Rightarrow> bool" where
  "holds_tree L P alg get t = (\<forall>u \<in> subtrees t. get (tmid L P alg u) = Inr (tdata L P alg u))"

lemma holds_tree_child: "holds_tree L P alg get (Node ts) \<Longrightarrow> t \<in> set ts \<Longrightarrow> holds_tree L P alg get t"
  by (auto simp: holds_tree_def)

lemma holds_tree_self: "holds_tree L P alg get t \<Longrightarrow> get (tmid L P alg t) = Inr (tdata L P alg t)"
  by (simp add: holds_tree_def)

lemma resolve_links_trees:
  assumes "hashlib_ok L"
    and "\<And>t w. t \<in> set ts \<Longrightarrow> resolve_walk L P alg E n (tmid L P alg t) w = Some (None, w @ content t)"
  shows "resolve_links L P alg E n (map (MID_String L) (map (tmid L P alg) ts)) w =
    Some (None, w @ concat (map content ts))"
  using assms(2) by (induction ts arbitrary: w) (simp_all add: Parse_tmid [OF assms(1)])

lemma resolve_tree:
  assumes "hashlib_ok L" "protolib_ok L P"
  shows "holds_tree L P alg get t \<Longrightarrow> proper t \<Longrightarrow> plain_leaves P t \<Longrightarrow> theight t \<le> n \<Longrightarrow>
    resolve_walk L P alg (static_env get) n (tmid L P alg t) w = Some (None, w @ content t)"
proof (induction n arbitrary: t w)
  case 0
  then show ?case by (cases t) simp_all
next
  case (Suc n)
  note got = static_get_ok [of get, OF holds_tree_self [OF Suc.prems(1)]] verifyBlock_own [OF assms(1), of alg P t]
  show ?case
  proof (cases t)
    case (Leaf d)
    then have "isInternalNode P d = None" using Suc.prems(3) by (simp add: plain_leaves_def)
    with got Leaf show ?thesis by simp
  next
    case (Node ts)
    have "resolve_walk L P alg (static_env get) n (tmid L P alg u) w' = Some (None, w' @ content u)"
      if "u \<in> set ts" for u w'
    proof (rule Suc.IH)
      show "holds_tree L P alg get u" using Suc.prems(1) Node that holds_tree_child by blast
      show "proper u" using Suc.prems(2) Node that by simp
      show "plain_leaves P u" using Suc.prems(3) Node that plain_leaves_child by blast
      show "theight u \<le> n" using Suc.prems(4) Node theight_child [OF that] by simp
    qed
    from resolve_links_trees [OF assms(1) this] isInternalNode_Node [OF assms, of ts alg] Suc.prems(2)
      got Node
    show ?thesis by simp
  qed
qed

context dag_builder begin

text \<open>What was built can be read back, byte for byte.\<close>

lemma build_resolve:
  assumes "hashlib_ok L" "protolib_ok L P" "sinv s" "cinv c" "chunks c \<noteq> []"
    "2 * length (chunks c) < fuel"
    and plain: "\<forall>d \<in> set (chunks c). isInternalNode P d = None"
    and inj: "inj_on (mid_of L alg) (tdata L P alg ` subtrees (tbatch (map Leaf (chunks c))))"
    and "length (chunks c) < fuel'"
  shows "\<exists>root s'. Build L P alg put Next fuel (Some s) (Some c) = Some (Inr root, Some s') \<and> sinv s' \<and>
    Resolve L P alg (Some (static_env (get s'))) fuel' root [] =
      Some (Inr (io_EOF, concat (chunks c)))"
proof -
  let ?T = "tbatch (map Leaf (chunks c))"
  from Build_tree [OF assms(1-6)] obtain s' us where
    s': "Build L P alg put Next fuel (Some s) (Some c) = Some (Inr (tmid L P alg ?T), Some s')" "sinv s'"
      "blocks s' = fold (write_tree key L P alg) us (blocks s)" "set us = subtrees ?T" by blast
  have "get s' (tmid L P alg u) = Inr (tdata L P alg u)" if "u \<in> subtrees ?T" for u
    using st.fold_write_tree [OF assms(1,3), of P us u "blocks s"] st.get_reads [OF s'(2)]
      tmid_wf [OF assms(1)] inj s'(3,4) that by simp
  then have "holds_tree L P alg (get s') ?T" by (simp add: holds_tree_def)
  moreover have "proper ?T" using assms(5) by (intro proper_tbatch) auto
  moreover have "theight ?T \<le> fuel'"
    using theight_tbatch [of "map Leaf (chunks c)" 1] assms(5,9) by simp
  moreover have "plain_leaves P ?T"
    using plain leaves_tbatch [of _ "chunks c"] assms(5) by (auto simp: plain_leaves_def)
  ultimately have "resolve_walk L P alg (static_env (get s')) fuel' (tmid L P alg ?T) [] =
      Some (None, content ?T)"
    using resolve_tree [OF assms(1,2), of alg "get s'" ?T fuel' "[]"] by simp
  moreover have "content ?T = concat (chunks c)"
    by (simp add: content_tbatch comp_def)
  ultimately show ?thesis
    using s'(1,2) tmid_wf [OF assms(1), of P alg ?T] by (auto simp: Resolve_def)
qed

end

section \<open>Statistics of a stored tree\<close>

lemma finite_subtrees [simp]: "finite (subtrees t)"
  by (induction t) simp_all

lemma subtrees_trans: "u \<in> subtrees t \<Longrightarrow> subtrees u \<subseteq> subtrees t"
  by (induction t) auto

lemma subtrees_height: "u \<in> subtrees t \<Longrightarrow> theight u \<le> theight t"
proof (induction t)
  case (Node ts)
  then show ?case using theight_child [of _ ts] by (fastforce simp del: theight.simps)
qed simp

text \<open>The running maximum of two depths, as words.\<close>

lemma word_max:
  assumes "a < 2 ^ 64" "b < 2 ^ 64"
  shows "(if (of_nat a :: u64) < of_nat b then of_nat b else of_nat a) = (of_nat (max b a) :: u64)"
  using assms by (simp add: word_less_nat_alt unat_of_nat max_def)

lemma depth_links_trees:
  assumes "hashlib_ok L"
    and "\<And>t. t \<in> set ts \<Longrightarrow> depthOnly L P get n (tmid L P alg t) = Some (Inr (of_nat (theight t)))"
    and "\<And>t. t \<in> set ts \<Longrightarrow> theight t < 2 ^ 64" "a < 2 ^ 64"
  shows "depth_links L P get n (map (MID_String L) (map (tmid L P alg) ts)) (of_nat a) =
    Some (Inr (of_nat (fold max (map theight ts) a)))"
  using assms(2-4)
proof (induction ts arbitrary: a)
  case (Cons t ts)
  have "max (theight t) a < 2 ^ 64" using Cons.prems(2) [of t] Cons.prems(3) by simp
  from Cons.IH [OF _ _ this] Cons.prems show ?case
    by (simp add: Parse_tmid [OF assms(1)] word_max)
qed simp

lemma depthOnly_tree:
  assumes "hashlib_ok L" "protolib_ok L P"
  shows "holds_tree L P alg get t \<Longrightarrow> proper t \<Longrightarrow> plain_leaves P t \<Longrightarrow> theight t \<le> n \<Longrightarrow> theight t < 2 ^ 64 \<Longrightarrow>
    depthOnly L P get n (tmid L P alg t) = Some (Inr (of_nat (theight t)))"
proof (induction n arbitrary: t)
  case 0
  then show ?case by (cases t) simp_all
next
  case (Suc n)
  note got = holds_tree_self [OF Suc.prems(1)]
  show ?case
  proof (cases t)
    case (Leaf d)
    then have "isInternalNode P d = None" using Suc.prems(3) by (simp add: plain_leaves_def)
    with got Leaf show ?thesis by simp
  next
    case (Node ts)
    have "depthOnly L P get n (tmid L P alg u) = Some (Inr (of_nat (theight u)))" "theight u < 2 ^ 64"
      if "u \<in> set ts" for u
      using Suc.IH [of u] Suc.prems Node that theight_child [OF that] holds_tree_child [of L P alg get ts u]
        plain_leaves_child [of P ts u] by simp_all
    from depth_links_trees [OF assms(1) this, of ts 0] got isInternalNode_Node [OF assms, of ts alg]
      Suc.prems(2) Node
    show ?thesis by simp
  qed
qed

definition counted :: "hashlib \<Rightarrow> protolib \<Rightarrow> u64 \<Rightarrow> Stats \<Rightarrow> dtree set \<Rightarrow> bool" where
  "counted L P alg st S =
     (finite S \<and> st_Nodes st = of_nat (card S) \<and>
      st_Leaves st = of_nat (card {u \<in> S. \<exists>d. u = Leaf d}) \<and>
      st_Internal st = of_nat (card {u \<in> S. \<exists>ts. u = Node ts}) \<and>
      st_Bytes st = of_nat (\<Sum>u \<in> S. length (tdata L P alg u)))"

definition closed_in :: "dtree set \<Rightarrow> dtree \<Rightarrow> bool" where
  "closed_in S t = (\<forall>u \<in> subtrees t \<inter> S. subtrees u \<subseteq> S)"

lemma counted_insert:
  assumes "counted L P alg st S" "u \<notin> S" "\<exists>d. u = Leaf d"
  shows "counted L P alg (st\<lparr>st_Nodes := st_Nodes st + 1, st_Bytes := st_Bytes st + of_nat (length (tdata L P alg u)),
    st_Leaves := st_Leaves st + 1\<rparr>) (insert u S)"
proof -
  have "{v \<in> insert u S. \<exists>d. v = Leaf d} = insert u {v \<in> S. \<exists>d. v = Leaf d}"
    "{v \<in> insert u S. \<exists>ts. v = Node ts} = {v \<in> S. \<exists>ts. v = Node ts}" using assms(3) by auto
  with assms show ?thesis by (simp add: counted_def add.commute)
qed

lemma counted_insert_node:
  assumes "counted L P alg st S" "u \<notin> S" "\<exists>ts. u = Node ts"
  shows "counted L P alg (st\<lparr>st_Nodes := st_Nodes st + 1, st_Bytes := st_Bytes st + of_nat (length (tdata L P alg u)),
    st_Internal := st_Internal st + 1, st_Width := w\<rparr>) (insert u S)"
proof -
  have "{v \<in> insert u S. \<exists>d. v = Leaf d} = {v \<in> S. \<exists>d. v = Leaf d}"
    "{v \<in> insert u S. \<exists>ts. v = Node ts} = insert u {v \<in> S. \<exists>ts. v = Node ts}" using assms(3) by auto
  with assms show ?thesis by (simp add: counted_def add.commute)
qed

lemma closed_in_next: "closed_in S u \<Longrightarrow> closed_in (S \<union> subtrees t) u"
  using subtrees_trans [of _ t] by (auto simp: closed_in_def)

lemma closed_in_child:
  "closed_in S (Node ts) \<Longrightarrow> Node ts \<notin> S \<Longrightarrow> t \<in> set ts \<Longrightarrow> closed_in (insert (Node ts) S) t"
  using subtrees_height [of "Node ts" t] theight_child [of t ts]
  by (fastforce simp: closed_in_def simp del: theight.simps)

text \<open>The walk over a subtree adds exactly its blocks that were not seen before.\<close>

definition stat_done ::
    "hashlib \<Rightarrow> protolib \<Rightarrow> u64 \<Rightarrow> (u64 result \<times> Stats \<times> string set) option \<Rightarrow> nat \<Rightarrow> dtree set \<Rightarrow> bool" where
  "stat_done L P alg res h S =
     (\<exists>st'. res = Some (Inr (of_nat h), st', (\<lambda>u. MID_String L (tmid L P alg u)) ` S) \<and> counted L P alg st' S)"

lemma stat_links_trees:
  assumes "hashlib_ok L"
    and "\<And>t st S. t \<in> set ts \<Longrightarrow> S \<subseteq> X \<Longrightarrow> counted L P alg st S \<Longrightarrow> closed_in S t \<Longrightarrow>
      stat_done L P alg (stat_walk L P alg get n (tmid L P alg t) (st, (\<lambda>u. MID_String L (tmid L P alg u)) ` S))
        (theight t) (S \<union> subtrees t)"
    and "\<And>t. t \<in> set ts \<Longrightarrow> theight t < 2 ^ 64 \<and> subtrees t \<subseteq> X" "a < 2 ^ 64"
    and "S \<subseteq> X" "counted L P alg st S" "\<And>t. t \<in> set ts \<Longrightarrow> closed_in S t"
  shows "stat_done L P alg (stat_links L P alg get n (map (MID_String L) (map (tmid L P alg) ts)) (of_nat a)
      (st, (\<lambda>u. MID_String L (tmid L P alg u)) ` S))
    (fold max (map theight ts) a) (S \<union> \<Union> (subtrees ` set ts))"
  using assms(2-)
proof (induction ts arbitrary: a S st)
  case Nil
  then show ?case by (simp add: stat_done_def)
next
  case (Cons t ts)
  from Cons.prems(1) [of t S st] Cons.prems(4-6) obtain st' where
    st': "stat_walk L P alg get n (tmid L P alg t) (st, (\<lambda>u. MID_String L (tmid L P alg u)) ` S) =
      Some (Inr (of_nat (theight t)), st', (\<lambda>u. MID_String L (tmid L P alg u)) ` (S \<union> subtrees t))"
      "counted L P alg st' (S \<union> subtrees t)" by (auto simp: stat_done_def)
  have m: "max (theight t) a < 2 ^ 64" using Cons.prems(2) [of t] Cons.prems(3) by simp
  have sub: "S \<union> subtrees t \<subseteq> X" using Cons.prems(2) [of t] Cons.prems(4) by simp
  have "stat_done L P alg (stat_links L P alg get n (map (MID_String L) (map (tmid L P alg) ts))
      (of_nat (max (theight t) a)) (st', (\<lambda>u. MID_String L (tmid L P alg u)) ` (S \<union> subtrees t)))
      (fold max (map theight ts) (max (theight t) a)) ((S \<union> subtrees t) \<union> \<Union> (subtrees ` set ts))"
    using Cons.prems(1,2,6) closed_in_next st'(2) by (intro Cons.IH [OF _ _ m sub]) auto
  moreover have "(S \<union> subtrees t) \<union> \<Union> (subtrees ` set ts) = S \<union> \<Union> (subtrees ` set (t # ts))" by auto
  ultimately show ?case
    using st'(1) Cons.prems(2) [of t] Cons.prems(3)
    by (simp add: Parse_tmid [OF assms(1)] word_max del: image_Un)
qed

lemma stat_tree:
  assumes "hashlib_ok L" "protolib_ok L P" "inj_on (tmid L P alg) X"
  shows "holds_tree L P alg get t \<Longrightarrow> proper t \<Longrightarrow> plain_leaves P t \<Longrightarrow> theight t \<le> n \<Longrightarrow> theight t < 2 ^ 64 \<Longrightarrow>
    subtrees t \<subseteq> X \<Longrightarrow> S \<subseteq> X \<Longrightarrow> counted L P alg st S \<Longrightarrow> closed_in S t \<Longrightarrow>
    stat_done L P alg (stat_walk L P alg get n (tmid L P alg t) (st, (\<lambda>u. MID_String L (tmid L P alg u)) ` S))
      (theight t) (S \<union> subtrees t)"
proof (induction n arbitrary: t S st)
  case 0
  then show ?case by (cases t) simp_all
next
  case (Suc n)
  let ?key = "\<lambda>u. MID_String L (tmid L P alg u)"
  have tX: "t \<in> X" using Suc.prems(6) by auto
  have mem: "?key t \<in> ?key ` S \<longleftrightarrow> t \<in> S"
    using MID_String_inj [OF assms(1) tmid_wf [OF assms(1)] tmid_wf [OF assms(1)]] inj_onD [OF assms(3)]
      tX Suc.prems(7) by blast
  show ?case
  proof (cases "t \<in> S")
    case True
    then have "S \<union> subtrees t = S" using Suc.prems(9) by (auto simp: closed_in_def)
    with True mem depthOnly_tree [OF assms(1,2) Suc.prems(1-5)] Suc.prems(8) show ?thesis
      by (simp add: stat_done_def)
  next
    case new: False
    note got = holds_tree_self [OF Suc.prems(1)] verifyBlock_own [OF assms(1), of alg P t]
    show ?thesis
    proof (cases t)
      case (Leaf d)
      then have "isInternalNode P d = None" using Suc.prems(3) by (simp add: plain_leaves_def)
      with got Leaf new mem counted_insert [OF Suc.prems(8) new] show ?thesis
        by (simp add: stat_done_def Let_def)
    next
      case (Node ts)
      let ?st = "st\<lparr>st_Nodes := st_Nodes st + 1, st_Bytes := st_Bytes st + of_nat (length (tdata L P alg t)),
        st_Internal := st_Internal st + 1,
        st_Width := (if st_Width st < of_nat (length ts) then of_nat (length ts) else st_Width st)\<rparr>"
      have cnt: "counted L P alg ?st (insert t S)"
        using counted_insert_node [OF Suc.prems(8) new] Node by blast
      have "stat_done L P alg (stat_walk L P alg get n (tmid L P alg u) (st', ?key ` S')) (theight u) (S' \<union> subtrees u)"
        if u: "u \<in> set ts" and S': "S' \<subseteq> X" "counted L P alg st' S'" "closed_in S' u" for u st' S'
      proof (rule Suc.IH [OF _ _ _ _ _ _ S'])
        show "holds_tree L P alg get u" using Suc.prems(1) Node u holds_tree_child by blast
        show "proper u" using Suc.prems(2) Node u by simp
        show "plain_leaves P u" using Suc.prems(3) Node u plain_leaves_child by blast
        show "theight u \<le> n" "theight u < 2 ^ 64" using Suc.prems(4,5) Node theight_child [OF u] by simp_all
        show "subtrees u \<subseteq> X" using Suc.prems(6) Node u by auto
      qed
      moreover have "theight u < 2 ^ 64 \<and> subtrees u \<subseteq> X" "closed_in (insert t S) u" if "u \<in> set ts" for u
        using Suc.prems(5,6,9) Node that theight_child [OF that] closed_in_child new by auto
      ultimately have sl: "stat_done L P alg
          (stat_links L P alg get n (map (MID_String L) (map (tmid L P alg) ts)) (of_nat 0) (?st, ?key ` insert t S))
          (fold max (map theight ts) 0) (insert t S \<union> \<Union> (subtrees ` set ts))"
        using cnt tX Suc.prems(7) by (intro stat_links_trees [OF assms(1), where X = X]) auto
      have un: "insert t S \<union> \<Union> (subtrees ` set ts) = S \<union> subtrees t" using Node by auto
      from sl [unfolded stat_done_def un] obtain st' where
        "stat_links L P alg get n (map (MID_String L) (map (tmid L P alg) ts)) (of_nat 0)
            (?st, ?key ` insert t S) = Some (Inr (of_nat (fold max (map theight ts) 0)), st', ?key ` (S \<union> subtrees t))"
          "counted L P alg st' (S \<union> subtrees t)"
        by blast
      moreover have "isInternalNode P (tdata L P alg t) = Some (map (MID_String L) (map (tmid L P alg) ts))"
        using isInternalNode_Node [OF assms(1,2), of ts alg] Suc.prems(2) Node by simp
      moreover have "theight t = Suc (fold max (map theight ts) 0)" using Node by simp
      ultimately show ?thesis
        using got new mem by (simp add: stat_done_def Let_def add.commute del: map_map image_Un split del: if_split cong: if_cong)
    qed
  qed
qed



end
