(* ===== verification/Content.thy ===== *)
theory Content
  imports FastCDC Rabin Resolver
begin

text \<open>
  The pipeline of adding and reading content: a chunker cuts a stream, the builder stores the DAG in the
  in-memory store, the resolver reads it back. The builder's contract is interpreted for each of the
  three chunkers over the in-memory store.
\<close>

interpretation mem_fixed: dag_builder L alg "Memstore_Put L alg" "Memstore_Get L" ms_blocks
    "MID_String L" "memstore_inv L alg" "fixed_Next L alg" fixed_chunks "fixed_inv L" for L alg
  by unfold_locales

interpretation mem_fastcdc: dag_builder L alg "Memstore_Put L alg" "Memstore_Get L" ms_blocks
    "MID_String L" "memstore_inv L alg" "cdc_Next L alg" "\<lambda>c. cdc_split (cdc_rest c)" "cdc_inv L" for L alg
  by unfold_locales

interpretation mem_rabin: dag_builder L alg "Memstore_Put L alg" "Memstore_Get L" ms_blocks
    "MID_String L" "memstore_inv L alg" "rabin_Next L alg" "\<lambda>c. rabin_split (rabin_rest c)" "rabin_inv L" for L alg
  by unfold_locales

lemma NewFixed_ready:
  assumes "hashlib_ok L" "NewFixed sz (Some rd) = Inr f" "eof_only (r_script rd)"
  shows "fixed_inv L f" "fixed_chunks f = groups_of (nat sz) (stream (r_script rd))" "0 < nat sz"
  using assms by (auto simp: NewFixed_def MinBlockSize_def fixed_inv_def fixed_chunks_def split: if_splits)

lemma NewFastCDC_ready:
  assumes "hashlib_ok L" "NewFastCDC (Some rd) = Inr c" "eof_only (r_script rd)"
  shows "cdc_inv L c" "cdc_rest c = stream (r_script rd)"
  using assms by (auto simp: NewFastCDC_def cdc_inv_def cdc_rest_def cdc_window_def)

lemma length_groups_stream: "0 < n \<Longrightarrow> length (groups_of n s) \<le> length s"
  using length_concat_ge [of "groups_of n s"] groups_of_lengths by (metis groups_of_concat)

lemma groups_of_eq_Nil: "0 < n \<Longrightarrow> groups_of n xs = [] \<longleftrightarrow> xs = []"
  by (simp add: groups_of.simps [of n xs])

section \<open>Properties\<close>



text \<open>
  The same for content-defined chunking: what FastCDC cut and Build stored, Resolve
  yields again byte for byte.
\<close>

theorem add_then_resolve_fastcdc:
  assumes "hashlib_ok L" and "protolib_ok L P" and "memstore_inv L alg s"
    and "NewFastCDC (Some rd) = Inr c" and "eof_only (r_script rd)" and "stream (r_script rd) \<noteq> []"
    and "\<forall>d \<in> set (cdc_split (stream (r_script rd))). isInternalNode P d = None"
    and "inj_on (mid_of L alg)
      (tdata L P alg ` subtrees (tbatch (map Leaf (cdc_split (stream (r_script rd))))))"
    and "2 * length (stream (r_script rd)) < fuel"
  shows "\<exists>root s'. Build L P alg (Memstore_Put L alg) (cdc_Next L alg) fuel (Some s) (Some c) =
      Some (Inr root, Some s') \<and> memstore_inv L alg s' \<and>
    Resolve L P alg (Some (static_env (Memstore_Get L s'))) fuel root [] =
      Some (Inr (io_EOF, stream (r_script rd)))"
proof -
  note r = NewFastCDC_ready [OF assms(1,4,5)]
  have "length (cdc_split (cdc_rest c)) \<le> length (stream (r_script rd))"
    using length_concat_ge [of "cdc_split (cdc_rest c)"] cdc_split_bounds r(2) by (metis cdc_split_concat)
  then have "2 * length (cdc_split (cdc_rest c)) < fuel" "length (cdc_split (cdc_rest c)) < fuel"
    using assms(9) by linarith+
  moreover have "cdc_split (cdc_rest c) \<noteq> []" using assms(6) r(2) by (simp add: cdc_split_Nil_iff)
  ultimately show ?thesis
    using mem_fastcdc.build_resolve [OF assms(1-3) r(1), of fuel fuel] assms(7,8)
    by (simp add: r(2) cdc_split_concat)
qed

theorem add_then_resolve_fastcdc_witness:
  "\<exists>c root s'. NewFastCDC (Some \<lparr>r_script = [([1, 2], None), ([3], Some io_EOF)], r_closed = False\<rparr>) = Inr c \<and>
     Build demo_lib demo_proto mh_SHA2_256 (Memstore_Put demo_lib mh_SHA2_256) (cdc_Next demo_lib mh_SHA2_256) 7
       (Some NewMemstore) (Some c) = Some (Inr root, Some s') \<and>
     Resolve demo_lib demo_proto mh_SHA2_256 (Some (static_env (Memstore_Get demo_lib s'))) 7 root [] =
       Some (Inr (io_EOF, [1, 2, 3]))"
proof -
  let ?rd = "\<lparr>r_script = [([1, 2], None), ([3], Some io_EOF)], r_closed = False\<rparr> :: reader"
  have e: "eof_only (r_script ?rd)" and s: "stream (r_script ?rd) = [1, 2, 3]" by simp_all
  obtain c where c: "NewFastCDC (Some ?rd) = Inr c" by (simp add: NewFastCDC_def)
  have g: "cdc_split (stream (r_script ?rd)) = [[1, 2, 3]]"
    unfolding s by (simp add: cdc_split.simps [of "[1, 2, 3]"] cdc_cut_def fastcdcMin_def)
  have "isInternalNode demo_proto [1, 2, 3] = None"
    by (simp add: isInternalNode_def demo_proto_def)
  then have "\<exists>root s'. Build demo_lib demo_proto mh_SHA2_256 (Memstore_Put demo_lib mh_SHA2_256)
      (cdc_Next demo_lib mh_SHA2_256) 7 (Some NewMemstore) (Some c) = Some (Inr root, Some s') \<and>
      memstore_inv demo_lib mh_SHA2_256 s' \<and>
      Resolve demo_lib demo_proto mh_SHA2_256 (Some (static_env (Memstore_Get demo_lib s'))) 7 root [] =
        Some (Inr (io_EOF, stream (r_script ?rd)))"
    by (intro add_then_resolve_fastcdc [OF demo_lib_ok demo_proto_ok NewMemstore_inv [OF demo_lib_ok] c e])
      (simp_all only: g, simp_all)
  with c s show ?thesis by auto
qed

text \<open>
  Property C14. The streaming builder computes the level-complete bottom-up reduction its comments
  promise: the root is the identifier of the batch tree over the chunks, whatever the store
  already held, and the store gains exactly the blocks of that tree.
\<close>

theorem build_is_batch_reduction:
  assumes "hashlib_ok L" and "protolib_ok L P" and "memstore_inv L alg s"
    and "NewFixed sz (Some rd) = Inr f" and "eof_only (r_script rd)" and "stream (r_script rd) \<noteq> []"
    and "2 * length (stream (r_script rd)) < fuel"
    and "T = tbatch (map Leaf (groups_of (nat sz) (stream (r_script rd))))"
  shows "\<exists>s'. Build L P alg (Memstore_Put L alg) (fixed_Next L alg) fuel (Some s) (Some f) =
      Some (Inr (tmid L P alg T), Some s') \<and>
    dom (ms_blocks s') = dom (ms_blocks s) \<union> (\<lambda>u. MID_String L (tmid L P alg u)) ` subtrees T"
proof -
  note r = NewFixed_ready [OF assms(1,4,5)]
  have len: "length (fixed_chunks f) \<le> length (stream (r_script rd))"
    using length_groups_stream [OF r(3)] by (simp add: r(2))
  then have "2 * length (fixed_chunks f) < fuel" using assms(7) by linarith
  moreover have "fixed_chunks f \<noteq> []" using assms(6) r(2,3) by (simp add: groups_of_eq_Nil)
  ultimately obtain s' us where
    s': "Build L P alg (Memstore_Put L alg) (fixed_Next L alg) fuel (Some s) (Some f) =
      Some (Inr (tmid L P alg T), Some s')"
      "ms_blocks s' = fold (write_tree (MID_String L) L P alg) us (ms_blocks s)" "set us = subtrees T"
    using mem_fixed.Build_tree [OF assms(1-3) r(1), of fuel] unfolding r(2) assms(8) by blast
  have "dom (fold (write_tree (MID_String L) L P alg) us b) =
      dom b \<union> (\<lambda>u. MID_String L (tmid L P alg u)) ` set us" for b us
    by (induction us arbitrary: b) (auto simp: write_tree_def)
  with s' show ?thesis by auto
qed

theorem build_is_batch_reduction_witness:
  "\<exists>f s'. NewFixed 1024 (Some \<lparr>r_script = [([1, 2, 3], Some io_EOF)], r_closed = False\<rparr>) = Inr f \<and>
     Build demo_lib demo_proto mh_SHA2_256 (Memstore_Put demo_lib mh_SHA2_256) (fixed_Next demo_lib mh_SHA2_256) 7
       (Some NewMemstore) (Some f) = Some (Inr (tmid demo_lib demo_proto mh_SHA2_256 (Leaf [1, 2, 3])), Some s')"
proof -
  let ?rd = "\<lparr>r_script = [([1, 2, 3], Some io_EOF)], r_closed = False\<rparr> :: reader"
  have e: "eof_only (r_script ?rd)" and s: "stream (r_script ?rd) = [1, 2, 3]" by simp_all
  obtain f where f: "NewFixed 1024 (Some ?rd) = Inr f"
    by (simp add: NewFixed_def MinBlockSize_def MaxBlockSize_def)
  have "groups_of (nat 1024) (stream (r_script ?rd)) = [[1, 2, 3]]"
    unfolding s by (rule groups_of_short) simp_all
  then have g: "Leaf [1, 2, 3] = tbatch (map Leaf (groups_of (nat 1024) (stream (r_script ?rd))))"
    by simp
  have "stream (r_script ?rd) \<noteq> []" "2 * length (stream (r_script ?rd)) < 7" by (simp_all only: s, simp_all)
  from build_is_batch_reduction
    [OF demo_lib_ok demo_proto_ok NewMemstore_inv [OF demo_lib_ok] f e this g] f
  show ?thesis by blast
qed

text \<open>
  Leaves are recognised by their bytes, so content that happens to be the canonical
  encoding of an internal node is not read back: it is stored without error, but resolving it
  follows the links it spells out and fails on the first one that is not stored.
\<close>

theorem resolve_type_confusion:
  "\<exists>s' err. Memstore_Put demo_lib mh_SHA2_256 NewMemstore (demo_mid demo_raw) demo_raw = (None, s') \<and>
     Memstore_Get demo_lib s' (demo_mid demo_raw) = Inr demo_raw \<and>
     Resolve demo_lib demo_proto mh_SHA2_256 (Some (static_env (Memstore_Get demo_lib s'))) 2 (demo_mid demo_raw) [] =
       Some (Inr (err, [])) \<and> errors_Is err ErrNotFound"
proof -
  let ?k = "MID_String demo_lib (demo_mid demo_raw)"
  define s' where "s' = snd (Memstore_Put demo_lib mh_SHA2_256 NewMemstore (demo_mid demo_raw) demo_raw)"
  have put: "Memstore_Put demo_lib mh_SHA2_256 NewMemstore (demo_mid demo_raw) demo_raw = (None, s')"
    and b: "ms_blocks s' = [?k \<mapsto> demo_raw]"
    by (simp_all add: s'_def Memstore_Put_def demo_verify Let_def NewMemstore_def)
  have "demo_raw \<noteq> [7]" by (simp add: demo_raw_def demo_proto_def links_node_def)
  then have "demo_mid [7] \<noteq> demo_mid demo_raw" by (simp add: demo_mid_def)
  then have "MID_String demo_lib (demo_mid [7]) \<noteq> ?k"
    using MID_String_inj [OF demo_lib_ok demo_mid_wf demo_mid_wf] by blast
  then have none: "Memstore_Get demo_lib s' (demo_mid [7]) = Inl ErrNotFound" by (simp add: Memstore_Get_def b)
  have got: "Memstore_Get demo_lib s' (demo_mid demo_raw) = Inr demo_raw" by (simp add: Memstore_Get_def b)
  have "verifyBlock demo_lib mh_SHA2_256 (demo_mid demo_raw) demo_raw = None"
    using demo_verify [of demo_raw]
    by (auto simp: verifyBlock_def verifyContent_def split: sum.splits if_splits)
  moreover have "isInternalNode demo_proto demo_raw =
      Some (map (MID_String demo_lib) [demo_mid [7], demo_mid [8], demo_mid [7]])"
    using demo_raw_links by (simp add: isInternalNode_def links_node_def demo_raw_def demo_proto_def)
  moreover have "get_retry (static_env (Memstore_Get demo_lib s')) n (demo_mid [7]) ErrNotFound [] =
      (Inl ErrNotFound, [])" for n by (induction n) (simp_all add: none)
  ultimately have "resolve_walk demo_lib demo_proto mh_SHA2_256 (static_env (Memstore_Get demo_lib s')) 2
      (demo_mid demo_raw) [] = Some (Some (Wrap (''dag: get '' @ MID_String demo_lib (demo_mid [7])) ErrNotFound), [])"
    using got none Parse_String_wf [OF demo_lib_ok demo_mid_wf]
    by (simp add: numeral_2_eq_2 resolve_get_def)
  then show ?thesis
    using put got mid_wf_not_zero [OF demo_mid_wf, of demo_raw] by (auto simp: Resolve_def)
qed

end
