(* ===== verification/Parallel.thy ===== *)
theory Parallel
  imports Content
begin

text \<open>
  core/dag/parallel.go: the concurrent builder. One goroutine reads the chunker, workers compute the
  MIDs, and the consumer puts the results back into order. Which worker finishes first is up to
  the scheduler, so the order in which results arrive is an argument; the work itself is the code's.
\<close>

section \<open>The code\<close>

record processedChunk =
  pc_index :: nat
  pc_leafMID :: MID
  pc_data :: bytes

text \<open>The producer: the blocks in order, and the error it reports when it stops early.\<close>

fun produce :: "('c \<Rightarrow> Block result \<times> 'c) \<Rightarrow> nat \<Rightarrow> 'c \<Rightarrow> (Block list \<times> gerror option) option" where
  "produce next 0 c = None"
| "produce next (Suc n) c =
     (case next c of
        (Inl err, c') \<Rightarrow>
          if errors_Is err io_EOF then Some ([], None)
          else Some ([], Some (Wrap ''dag: read chunk'' err))
      | (Inr blk, c') \<Rightarrow>
          if Block_Size blk = 0 then Some ([], Some (Msg ''dag: empty chunk''))
          else map_option (\<lambda>(bs, r). (blk # bs, r)) (produce next n c'))"

text \<open>
  A worker on one job. A panic of MID ends the whole process; a zero MID ends the worker and is
  reported.
\<close>

definition work :: "hashlib \<Rightarrow> nat \<times> Block \<Rightarrow> processedChunk result" where
  "work L job =
     (case Block_MID L (snd job) of
        Inl p \<Rightarrow> Inl p
      | Inr m \<Rightarrow>
          if IsZero m then Inl (Msg ''dag: chunk has zero MID'')
          else Inr \<lparr>pc_index = fst job, pc_leafMID = m, pc_data = Block_Data (snd job)\<rparr>)"

definition jobs :: "Block list \<Rightarrow> (nat \<times> Block) list" where
  "jobs bs = zip [0..<length bs] bs"

definition store_leaf ::
    "hashlib \<Rightarrow> protolib \<Rightarrow> u64 \<Rightarrow> 's put_op \<Rightarrow> processedChunk \<Rightarrow> 's levelStack \<Rightarrow> gerror option \<times> 's levelStack" where
  "store_leaf L P alg put pc s =
     (case put (ls_bs s) (pc_leafMID pc) (pc_data pc) of
        (Some e, bs') \<Rightarrow> (Some (Wrap ''dag: store leaf'' e), s\<lparr>ls_bs := bs'\<rparr>)
      | (None, bs') \<Rightarrow> push L P alg put 0 (pc_leafMID pc) (s\<lparr>ls_bs := bs'\<rparr>))"

text \<open>
  The consumer's inner loop: store what is pending from the next index on. The map pending is an
  association list without repeated keys.
\<close>

function flush_pending ::
    "hashlib \<Rightarrow> protolib \<Rightarrow> u64 \<Rightarrow> 's put_op \<Rightarrow> (nat \<times> processedChunk) list \<Rightarrow> nat \<Rightarrow> 's levelStack
     \<Rightarrow> gerror option \<times> (nat \<times> processedChunk) list \<times> nat \<times> 's levelStack" where
  "flush_pending L P alg put pending nextIdx s =
     (case map_of pending nextIdx of
        None \<Rightarrow> (None, pending, nextIdx, s)
      | Some pc \<Rightarrow>
          let pending' = filter (\<lambda>e. fst e \<noteq> nextIdx) pending in
          (case store_leaf L P alg put pc s of
             (Some e, s') \<Rightarrow> (Some e, pending', nextIdx, s')
           | (None, s') \<Rightarrow> flush_pending L P alg put pending' (nextIdx + 1) s'))"
  by pat_completeness auto
termination
  by (relation "measure (\<lambda>(L, P, alg, put, pending, nextIdx, s). length pending)")
    (auto dest: map_of_SomeD intro!: length_filter_less)

declare flush_pending.simps [simp del]

fun consume ::
    "hashlib \<Rightarrow> protolib \<Rightarrow> u64 \<Rightarrow> 's put_op \<Rightarrow> processedChunk list \<Rightarrow> (nat \<times> processedChunk) list \<Rightarrow> nat
     \<Rightarrow> 's levelStack \<Rightarrow> gerror option \<times> nat \<times> 's levelStack" where
  "consume L P alg put [] pending nextIdx s = (None, nextIdx, s)"
| "consume L P alg put (res # results) pending nextIdx s =
     (case flush_pending L P alg put ((pc_index res, res) # filter (\<lambda>e. fst e \<noteq> pc_index res) pending) nextIdx s of
        (Some e, pending', nextIdx', s') \<Rightarrow> (Some e, nextIdx', s')
      | (None, pending', nextIdx', s') \<Rightarrow> consume L P alg put results pending' nextIdx' s')"

text \<open>
  BuildParallel. \<open>arrive\<close> is the order in which the workers' results reach the consumer. A chunk without
  an identifier is one of the two things that can be in errCh in the end; the other is the
  producer's error, and \<open>errFirst\<close> says whether that one was sent first.
\<close>

definition BuildParallel ::
    "hashlib \<Rightarrow> protolib \<Rightarrow> u64 \<Rightarrow> 's put_op \<Rightarrow> ('c \<Rightarrow> Block result \<times> 'c) \<Rightarrow> nat
     \<Rightarrow> (processedChunk list \<Rightarrow> processedChunk list) \<Rightarrow> bool \<Rightarrow> int \<Rightarrow> int
     \<Rightarrow> 's option \<Rightarrow> 'c option \<Rightarrow> (MID result \<times> 's option) option" where
  "BuildParallel L P alg put next fuel arrive errFirst gomaxprocs workers bs c =
     (case bs of
        None \<Rightarrow> Some (Inl (Msg ''dag: nil blockstore''), None)
      | Some b \<Rightarrow>
          (case c of
             None \<Rightarrow> Some (Inl (Msg ''dag: nil chunker''), Some b)
           | Some ch \<Rightarrow>
               let workers' = (if workers \<le> 0 then gomaxprocs else workers)
               in if workers' \<le> 1 then Build L P alg put next fuel (Some b) (Some ch)
                  else (case produce next fuel ch of
                    None \<Rightarrow> None
                  | Some (blks, perr) \<Rightarrow>
                      let results = map (work L) (jobs blks);
                          zeros = filter (\<lambda>r. \<not> is_ok r) results;
                          errCh = (case perr of
                             None \<Rightarrow> (case zeros of [] \<Rightarrow> None | r # _ \<Rightarrow> Some (projl r))
                           | Some e \<Rightarrow> (case zeros of [] \<Rightarrow> Some e
                               | r # _ \<Rightarrow> if errFirst then Some e else Some (projl r)))
                      in (case consume L P alg put (arrive (oks results)) [] 0 \<lparr>ls_bs = b, ls_levels = []\<rparr> of
                         (Some e, _, s) \<Rightarrow> Some (Inl e, Some (ls_bs s))
                       | (None, nextIdx, s) \<Rightarrow>
                           (case errCh of
                              Some e \<Rightarrow> Some (Inl e, Some (ls_bs s))
                            | None \<Rightarrow>
                                if nextIdx = 0 then Some (Inl (Msg ''dag: empty input''), Some (ls_bs s))
                                else map_option (\<lambda>(r, b'). (r, Some b')) (finalize_loop L P alg put fuel 0 s))))))"

section \<open>In order\<close>

text \<open>The reference: the leaves stored one after the other.\<close>

fun seq_leaves ::
    "hashlib \<Rightarrow> protolib \<Rightarrow> u64 \<Rightarrow> 's put_op \<Rightarrow> processedChunk list \<Rightarrow> 's levelStack \<Rightarrow> gerror option \<times> 's levelStack" where
  "seq_leaves L P alg put [] s = (None, s)"
| "seq_leaves L P alg put (pc # pcs) s =
     (case store_leaf L P alg put pc s of
        (Some e, s') \<Rightarrow> (Some e, s')
      | (None, s') \<Rightarrow> seq_leaves L P alg put pcs s')"

definition indexed :: "processedChunk list \<Rightarrow> bool" where
  "indexed items = (\<forall>i < length items. pc_index (items ! i) = i)"

text \<open>
  What is pending after the results in \<open>A\<close> have arrived and the items below \<open>k\<close> are stored.
\<close>

definition waiting :: "processedChunk list \<Rightarrow> nat set \<Rightarrow> nat \<Rightarrow> (nat \<times> processedChunk) list \<Rightarrow> bool" where
  "waiting items A k pending =
     (A \<subseteq> {..<length items} \<and> {..<k} \<subseteq> A \<and>
      (\<forall>i. map_of pending i = (if i \<in> A \<and> k \<le> i then Some (items ! i) else None)))"

lemma map_of_filter_ne: "map_of (filter (\<lambda>e. fst e \<noteq> k) ps) = (map_of ps)(k := None)"
  by (induction ps) (auto simp: fun_eq_iff)

text \<open>Flushing from \<open>k\<close> stores the items up to some \<open>j\<close> that has not arrived.\<close>

definition flushed ::
    "hashlib \<Rightarrow> protolib \<Rightarrow> u64 \<Rightarrow> 's put_op \<Rightarrow> processedChunk list \<Rightarrow> nat set
     \<Rightarrow> (nat \<times> processedChunk) list \<Rightarrow> nat \<Rightarrow> 's levelStack \<Rightarrow> nat \<Rightarrow> bool" where
  "flushed L P alg put items A pending k s j =
    (k \<le> j \<and> j \<le> length items \<and>
     (case seq_leaves L P alg put (take (j - k) (drop k items)) s of
        (Some e, s') \<Rightarrow> (\<exists>p' k'. flush_pending L P alg put pending k s = (Some e, p', k', s'))
      | (None, s') \<Rightarrow> (\<exists>p'. flush_pending L P alg put pending k s = (None, p', j, s') \<and>
          waiting items A j p' \<and> j \<notin> A)))"

lemma flush_prefix:
  assumes "waiting items A k pending"
  shows "\<exists>j. flushed L P alg put items A pending k s j"
  using assms
proof (induction L P alg put pending k s rule: flush_pending.induct)
  case (1 L P alg put pending k s)
  show ?case
  proof (cases "k \<in> A")
    case False
    have "{..<k} \<subseteq> A" "A \<subseteq> {..<length items}" using "1.prems" by (simp_all add: waiting_def)
    then have "{..<k} \<subseteq> {..<length items}" by (rule subset_trans)
    then have "k \<le> length items" by simp
    moreover have "map_of pending k = None" using "1.prems" False by (simp add: waiting_def)
    ultimately show ?thesis using False "1.prems"
      by (intro exI [of _ k]) (simp add: flushed_def flush_pending.simps)
  next
    case True
    let ?pc = "items ! k" and ?p = "filter (\<lambda>e. fst e \<noteq> k) pending"
    have k: "k < length items" and pc: "map_of pending k = Some ?pc"
      using "1.prems" True by (auto simp: waiting_def)
    have split: "take (Suc i) (drop k items) = ?pc # take i (drop (Suc k) items)" for i
      using k by (metis Cons_nth_drop_Suc take_Suc_Cons)
    show ?thesis
    proof (cases "store_leaf L P alg put ?pc s")
      case (Pair r s1)
      show ?thesis
      proof (cases r)
        case (Some e)
        with Pair pc k split [of 0] show ?thesis
          by (intro exI [of _ "Suc k"]) (simp add: flushed_def flush_pending.simps [of L P alg put pending k])
      next
        case None
        have "waiting items A (k + 1) ?p"
          using "1.prems" True by (auto simp: waiting_def map_of_filter_ne less_Suc_eq)
        from "1.IH" [OF pc refl Pair [symmetric] None this] obtain j where
          j: "flushed L P alg put items A ?p (k + 1) s1 j" by blast
        then have "k < j" by (simp add: flushed_def)
        then have "j - k = Suc (j - Suc k)" by simp
        moreover have fp: "flush_pending L P alg put pending k s = flush_pending L P alg put ?p (Suc k) s1"
          using Pair None pc by (subst flush_pending.simps) simp
        ultimately have "flushed L P alg put items A pending k s j"
          unfolding flushed_def fp using j Pair None split [of "j - Suc k"] by (simp add: flushed_def)
        then show ?thesis by blast
      qed
    qed
  qed
qed

lemma seq_leaves_append:
  "seq_leaves L P alg put (xs @ ys) s =
     (case seq_leaves L P alg put xs s of
        (Some e, s') \<Rightarrow> (Some e, s')
      | (None, s') \<Rightarrow> seq_leaves L P alg put ys s')"
  by (induction xs arbitrary: s) (simp_all split: prod.split option.split)

text \<open>Whatever the order of arrival, the consumer stores the leaves in index order.\<close>

lemma consume_in_order:
  assumes "\<forall>res \<in> set results. pc_index res < length items \<and> res = items ! pc_index res"
    "distinct (map pc_index results)" "set (map pc_index results) = {..<length items} - A"
    "waiting items A k pending" "k \<notin> A"
  shows "case seq_leaves L P alg put (drop k items) s of
      (Some e, s') \<Rightarrow> (\<exists>k'. consume L P alg put results pending k s = (Some e, k', s'))
    | (None, s') \<Rightarrow> consume L P alg put results pending k s = (None, length items, s')"
  using assms
proof (induction results arbitrary: A k pending s)
  case Nil
  then have "A = {..<length items}" by (auto simp: waiting_def)
  moreover have "{..<k} \<subseteq> A" "k \<notin> A" using Nil by (auto simp: waiting_def)
  ultimately have "k = length items" by auto
  then show ?case by simp
next
  case (Cons res results)
  let ?i = "pc_index res" and ?B = "insert (pc_index res) A"
  let ?pend = "(?i, res) # filter (\<lambda>e. fst e \<noteq> ?i) pending"
  have i: "?i < length items" "res = items ! ?i" "?i \<notin> A" using Cons.prems(1,3) by auto
  then have "k \<le> ?i" using Cons.prems(4) by (auto simp: waiting_def intro!: leI)
  then have "waiting items ?B k ?pend"
    using Cons.prems(4) i by (auto simp: waiting_def map_of_filter_ne)
  from flush_prefix [OF this, of L P alg put s] obtain j where
    fl: "flushed L P alg put items ?B ?pend k s j" by blast
  note j = fl [unfolded flushed_def, THEN conjunct1] fl [unfolded flushed_def, THEN conjunct2, THEN conjunct1]
    fl [unfolded flushed_def, THEN conjunct2, THEN conjunct2]
  have "drop k items = take (j - k) (drop k items) @ drop j items"
    using j(1) append_take_drop_id [of "j - k" "drop k items"] by simp
  then have seq: "seq_leaves L P alg put (drop k items) s =
      (case seq_leaves L P alg put (take (j - k) (drop k items)) s of
         (Some e, s') \<Rightarrow> (Some e, s') | (None, s') \<Rightarrow> seq_leaves L P alg put (drop j items) s')"
    using seq_leaves_append [of L P alg put "take (j - k) (drop k items)" "drop j items" s] by simp
  show ?case
  proof (cases "seq_leaves L P alg put (take (j - k) (drop k items)) s")
    case (Pair r s1)
    show ?thesis
    proof (cases r)
      case (Some e)
      with Pair seq j(3) show ?thesis by auto
    next
      case None
      with Pair j(3) obtain p' where
        p': "flush_pending L P alg put ?pend k s = (None, p', j, s1)" "waiting items ?B j p'" "j \<notin> ?B"
        by auto
      have rest: "\<forall>res \<in> set results. pc_index res < length items \<and> res = items ! pc_index res"
        "distinct (map pc_index results)" using Cons.prems(1,2) by simp_all
      have "set (map pc_index results) = insert ?i (set (map pc_index results)) - {?i}"
        using Cons.prems(2) by simp
      also have "\<dots> = {..<length items} - ?B" using Cons.prems(3) by auto
      finally have S: "set (map pc_index results) = {..<length items} - ?B" .
      note ih = Cons.IH [OF rest S p'(2,3), of s1]
      have "consume L P alg put (res # results) pending k s = consume L P alg put results p' j s1"
        using p'(1) by simp
      moreover have "seq_leaves L P alg put (drop k items) s = seq_leaves L P alg put (drop j items) s1"
        using seq Pair None by simp
      ultimately show ?thesis using ih by (simp only:)
    qed
  qed
qed

section \<open>Against the sequential builder\<close>

lemma finalize_loop_mono:
  "finalize_loop L P alg put n i s = Some r \<Longrightarrow> n \<le> n' \<Longrightarrow> finalize_loop L P alg put n' i s = Some r"
proof (induction n arbitrary: n' i s)
  case (Suc n)
  then obtain k where k: "n' = Suc k" "n \<le> k" by (cases n') auto
  with Suc show ?case
    by (auto simp: Let_def split: if_splits prod.splits sum.splits option.splits)
qed simp

definition item :: "hashlib \<Rightarrow> u64 \<Rightarrow> nat \<Rightarrow> bytes \<Rightarrow> processedChunk" where
  "item L alg i d = \<lparr>pc_index = i, pc_leafMID = mid_of L alg d, pc_data = d\<rparr>"

lemma seq_leaves_index:
  "map pc_leafMID xs = map pc_leafMID ys \<Longrightarrow> map pc_data xs = map pc_data ys \<Longrightarrow>
     seq_leaves L P alg put xs s = seq_leaves L P alg put ys s"
proof (induction xs arbitrary: ys s)
  case (Cons x xs)
  then obtain y ys' where ys: "ys = y # ys'" by (cases ys) auto
  with Cons.prems have same: "pc_leafMID x = pc_leafMID y" "pc_data x = pc_data y" by simp_all
  have "store_leaf L P alg put x s = store_leaf L P alg put y s" unfolding store_leaf_def same ..
  with Cons ys show ?case by (auto split: prod.split option.split)
qed simp

context chunker begin

lemma block_facts:
  assumes "hashlib_ok L" "d \<noteq> []" "length d \<le> MaxBlockSize" "makeBlock L alg d = Inr b"
  shows "Block_Size b \<noteq> 0" "Block_Data b = d" "Block_MID L b = Inr (mid_of L alg d)"
    "\<not> IsZero (mid_of L alg d)"
  using assms makeBlock_size [OF assms(4,3)] makeBlock_data [OF assms(4)]
    makeBlock_MID [OF assms(1,4)] mid_of_ok(1) [OF assms(1)]
    mid_wf_not_zero [OF mid_of_ok(2) [OF assms(1)]] by simp_all

lemma build_loop_seq:
  assumes "hashlib_ok L"
  shows "invar c \<Longrightarrow> build_loop L P alg put Next n c saw s = Some r \<Longrightarrow>
    (case seq_leaves L P alg put (map (item L alg 0) (chunks c)) s of
       (Some e, s') \<Rightarrow> r = (Inl e, ls_bs s')
     | (None, s') \<Rightarrow>
         if \<not> saw \<and> chunks c = [] then r = (Inl (Msg ''dag: empty input''), ls_bs s')
         else \<exists>n' \<le> n. finalize_loop L P alg put n' 0 s' = Some r)"
proof (induction n arbitrary: c saw s)
  case (Suc n)
  show ?case
  proof (cases "chunks c")
    case Nil
    with Next_end [OF Suc.prems(1) Nil] Suc.prems(2) show ?thesis
      by (auto split: if_splits intro: exI [of _ n])
  next
    case (Cons d ds)
    from Next_more [OF Suc.prems(1) Cons] obtain c' b where
      nx: "Next c = (Inr b, c')" "makeBlock L alg d = Inr b" "invar c'" "chunks c' = ds" by blast
    have d: "d \<noteq> []" "length d \<le> MaxBlockSize"
      using chunk_bounds [OF Suc.prems(1), of d] Cons by simp_all
    note blk = block_facts [OF assms d nx(2)]
    show ?thesis
    proof (cases "store_leaf L P alg put (item L alg 0 d) s")
      case (Pair e s1)
      show ?thesis
      proof (cases e)
        case (Some err)
        with Pair Suc.prems(2) nx(1) blk Cons show ?thesis
          by (auto simp: store_leaf_def item_def split: prod.splits option.splits)
      next
        case None
        with Pair Suc.prems(2) nx(1) blk have "build_loop L P alg put Next n c' True s1 = Some r"
          by (auto simp: store_leaf_def item_def split: prod.splits option.splits)
        from Suc.IH [OF nx(3) this] Pair None Cons nx(4) show ?thesis
          by (auto split: prod.splits option.splits intro: le_SucI)
      qed
    qed
  qed
qed simp

lemma produce_chunks:
  assumes "hashlib_ok L"
  shows "invar c \<Longrightarrow> length (chunks c) < n \<Longrightarrow>
    \<exists>bs. produce Next n c = Some (bs, None) \<and> map (makeBlock L alg) (chunks c) = map Inr bs"
proof (induction n arbitrary: c)
  case (Suc n)
  show ?case
  proof (cases "chunks c")
    case Nil
    with Next_end [OF Suc.prems(1) Nil] show ?thesis by auto
  next
    case (Cons d ds)
    from Next_more [OF Suc.prems(1) Cons] obtain c' b where
      nx: "Next c = (Inr b, c')" "makeBlock L alg d = Inr b" "invar c'" "chunks c' = ds" by blast
    have d: "d \<noteq> []" "length d \<le> MaxBlockSize"
      using chunk_bounds [OF Suc.prems(1), of d] Cons by simp_all
    from Suc.IH [OF nx(3)] Suc.prems(2) Cons nx(4) obtain bs where
      "produce Next n c' = Some (bs, None)" "map (makeBlock L alg) ds = map Inr bs" by auto
    with nx Cons block_facts(1) [OF assms d nx(2)] show ?thesis by auto
  qed
qed simp

end

section \<open>Properties\<close>

definition reorders_chunks :: "(processedChunk list \<Rightarrow> processedChunk list) \<Rightarrow> bool" where
  "reorders_chunks f = (\<forall>xs. mset (f xs) = mset xs)"

definition items :: "hashlib \<Rightarrow> u64 \<Rightarrow> bytes list \<Rightarrow> processedChunk list" where
  "items L alg ds = map (\<lambda>(i, d). item L alg i d) (zip [0..<length ds] ds)"

lemma nth_items: "i < length ds \<Longrightarrow> items L alg ds ! i = item L alg i (ds ! i)"
  by (simp add: items_def)

lemma length_items [simp]: "length (items L alg ds) = length ds"
  by (simp add: items_def)

lemma consume_items:
  assumes "mset results = mset (items L alg ds)"
  shows "case seq_leaves L P alg put (items L alg ds) s of
      (Some e, s') \<Rightarrow> (\<exists>k'. consume L P alg put results [] 0 s = (Some e, k', s'))
    | (None, s') \<Rightarrow> consume L P alg put results [] 0 s = (None, length ds, s')"
proof -
  let ?I = "items L alg ds"
  have idx: "map pc_index ?I = [0..<length ds]"
    by (rule nth_equalityI) (simp_all add: nth_items item_def)
  have "mset (map pc_index results) = mset [0..<length ds]" using assms idx by (metis mset_map)
  then have d: "distinct (map pc_index results)" "set (map pc_index results) = {..<length ?I} - {}"
    by (metis distinct_upt mset_eq_imp_distinct_iff, metis Diff_empty atLeast_upt length_items lessThan_atLeast0 mset_eq_setD)
  have "set results = set ?I" using assms by (metis mset_eq_setD)
  then have r: "\<forall>res \<in> set results. pc_index res < length ?I \<and> res = ?I ! pc_index res"
    by (auto simp: in_set_conv_nth nth_items item_def)
  have "waiting ?I {} 0 []" by (simp add: waiting_def)
  from consume_in_order [OF r d this, of L P alg put s, unfolded length_items] show ?thesis by simp
qed

context chunker begin

lemma jobs_done:
  assumes "hashlib_ok L" "invar c" "map (makeBlock L alg) (chunks c) = map Inr bs"
  shows "map (work L) (jobs bs) = map Inr (items L alg (chunks c))"
proof (rule nth_equalityI)
  have len: "length bs = length (chunks c)" using assms(3) by (metis length_map)
  then show "length (map (work L) (jobs bs)) = length (map Inr (items L alg (chunks c)))"
    by (simp add: jobs_def)
  fix i assume "i < length (map (work L) (jobs bs))"
  then have i: "i < length bs" "i < length (chunks c)" using len by (simp_all add: jobs_def)
  have "makeBlock L alg (chunks c ! i) = Inr (bs ! i)" using assms(3) i by (metis nth_map)
  moreover have "chunks c ! i \<noteq> []" "length (chunks c ! i) \<le> MaxBlockSize"
    using chunk_bounds [OF assms(2), of "chunks c ! i"] i(2) by simp_all
  ultimately show "map (work L) (jobs bs) ! i = map Inr (items L alg (chunks c)) ! i"
    using block_facts [OF assms(1)] i by (simp add: jobs_def work_def nth_items item_def)
qed

lemma oks_Inr: "oks (map Inr xs) = xs"
  by (induction xs) (simp_all add: oks_def)

lemma BuildParallel_Build:
  assumes "hashlib_ok L" "invar c" "length (chunks c) < fuel" "reorders_chunks arrive"
    "Build L P alg put Next fuel (Some b) (Some c) = Some r"
  shows "BuildParallel L P alg put Next fuel arrive errFirst gomaxprocs workers (Some b) (Some c) = Some r"
proof (cases "(if workers \<le> 0 then gomaxprocs else workers) \<le> 1")
  case False
  let ?s = "\<lparr>ls_bs = b, ls_levels = []\<rparr>" and ?I = "items L alg (chunks c)"
  from produce_chunks [OF assms(1-3)] obtain bs where
    bs: "produce Next fuel c = Some (bs, None)" "map (makeBlock L alg) (chunks c) = map Inr bs" by blast
  note jobs_done [OF assms(1,2) bs(2)]
  then have work_ok: "oks (map (work L) (jobs bs)) = ?I" "filter (\<lambda>r. \<not> is_ok r) (map (work L) (jobs bs)) = []"
    by (simp_all add: oks_Inr)
  have "mset (arrive ?I) = mset ?I" using assms(4) by (simp add: reorders_chunks_def)
  note con = consume_items [OF this, of P put ?s]
  obtain r' b' where r: "r = (r', Some b')" "build_loop L P alg put Next fuel c False ?s = Some (r', b')"
    using assms(5) by (auto simp: Build_def)
  have "seq_leaves L P alg put (map (item L alg 0) (chunks c)) ?s = seq_leaves L P alg put ?I ?s"
    by (rule seq_leaves_index) (rule nth_equalityI; simp add: nth_items item_def)+
  note bl = build_loop_seq [OF assms(1,2) r(2), unfolded this]
  show ?thesis
  proof (cases "seq_leaves L P alg put ?I ?s")
    case (Pair e s')
    show ?thesis
    proof (cases e)
      case (Some err)
      with Pair con bl r False bs(1) work_ok show ?thesis by (auto simp: BuildParallel_def Let_def)
    next
      case None
      with Pair con have c0: "consume L P alg put (arrive ?I) [] 0 ?s = (None, length (chunks c), s')" by simp
      show ?thesis
      proof (cases "chunks c = []")
        case True
        with Pair None bl c0 r False bs(1) work_ok show ?thesis by (auto simp: BuildParallel_def Let_def)
      next
        case nonempty: False
        with Pair None bl obtain n where "n \<le> fuel" "finalize_loop L P alg put n 0 s' = Some (r', b')" by auto
        then have "finalize_loop L P alg put fuel 0 s' = Some (r', b')" using finalize_loop_mono by blast
        with nonempty c0 r False bs(1) work_ok show ?thesis by (simp add: BuildParallel_def Let_def)
      qed
    qed
  qed
qed (use assms(5) in \<open>simp add: BuildParallel_def Let_def\<close>)

end



end
