(* ===== verification/CountingBloom.thy ===== *)
theory CountingBloom
  imports Mid
begin

text \<open>
  The counting Bloom filter of src/core/store/counting_bloom.go: \<open>m\<close> saturating 8-bit counters and
  \<open>k\<close> bucket indices per item, derived from one FNV-1a hash. The sizing by floating-point
  logarithms (calculateCBFEstimates) is outside the model: \<open>m\<close> and \<open>k\<close> are arguments of the
  constructor. A nil receiver is \<open>None\<close>.

  The locale \<open>membership_filter\<close> states what every approximate-membership filter of the program
  promises to its clients (no false negatives under insertion); the counting filter is one of
  its instances.
\<close>

section \<open>The contract of a membership filter\<close>

locale membership_filter =
  fixes ok :: "'f \<Rightarrow> bool"
    and ins :: "'a \<Rightarrow> 'f \<Rightarrow> 'f"
    and mem :: "'f \<Rightarrow> 'a \<Rightarrow> bool"
  assumes ok_ins: "ok f \<Longrightarrow> ok (ins x f)"
    and mem_ins: "ok f \<Longrightarrow> mem (ins x f) x"
    and mem_mono: "ok f \<Longrightarrow> mem f y \<Longrightarrow> mem (ins x f) y"
begin

lemma ok_fold: "ok f \<Longrightarrow> ok (fold ins xs f)"
  by (induction xs arbitrary: f) (simp_all add: ok_ins)

lemma mem_fold_mono: "ok f \<Longrightarrow> mem f y \<Longrightarrow> mem (fold ins xs f) y"
  by (induction xs arbitrary: f) (simp_all add: ok_ins mem_mono)

lemma no_false_negative: "ok f \<Longrightarrow> x \<in> set xs \<Longrightarrow> mem (fold ins xs f) x"
proof (induction xs arbitrary: f)
  case (Cons a xs)
  then show ?case by (cases "a = x") (simp_all add: ok_ins mem_ins mem_fold_mono)
qed simp

lemma rejected_not_inserted: "ok f \<Longrightarrow> \<not> mem (fold ins xs f) x \<Longrightarrow> x \<notin> set xs"
  using no_false_negative by blast

end

section \<open>The data\<close>

record CountingBloomFilter =
  cbf_m :: u64
  cbf_k :: u64
  cbf_counters :: bytes
  cbf_count :: u64

definition NewCountingBloomFilter :: "u64 \<Rightarrow> u64 \<Rightarrow> CountingBloomFilter" where
  "NewCountingBloomFilter m k =
     \<lparr>cbf_m = m, cbf_k = k, cbf_counters = replicate (unat m) 0, cbf_count = 0\<rparr>"

definition fnv1a :: "bytes \<Rightarrow> u64" where
  "fnv1a data = foldl (\<lambda>h b. (h XOR ucast b) * 1099511628211) 14695981039346656037 data"

definition hash64 :: "bytes \<Rightarrow> u64 \<times> u64" where
  "hash64 data =
     (let h = fnv1a data; h2 = drop_bit 32 h OR push_bit 32 h
      in (h, if h2 = 0 then 0x9e3779b97f4a7c15 else h2))"

text \<open>The indices the loops visit, in their order; an index may repeat.\<close>

definition cbf_indices :: "CountingBloomFilter \<Rightarrow> bytes \<Rightarrow> nat list" where
  "cbf_indices c data =
     (case hash64 data of (h1, h2) \<Rightarrow>
        map (\<lambda>i. unat ((h1 + word_of_nat i * h2) mod cbf_m c)) [0..<unat (cbf_k c)])"

definition bump :: "nat \<Rightarrow> bytes \<Rightarrow> bytes" where
  "bump j cs = (if cs ! j < 255 then cs[j := cs ! j + 1] else cs)"

definition drain :: "nat \<Rightarrow> bytes \<Rightarrow> bytes" where
  "drain j cs = (if 0 < cs ! j \<and> cs ! j < 255 then cs[j := cs ! j - 1] else cs)"

definition cbf_Add :: "bytes \<Rightarrow> CountingBloomFilter option \<Rightarrow> CountingBloomFilter option" where
  "cbf_Add data co =
     (case co of None \<Rightarrow> None
      | Some c \<Rightarrow>
          if data = [] \<or> cbf_m c = 0 \<or> cbf_k c = 0 then Some c
          else Some (c\<lparr>cbf_counters := fold bump (cbf_indices c data) (cbf_counters c),
                       cbf_count := cbf_count c + 1\<rparr>))"

definition cbf_Remove :: "bytes \<Rightarrow> CountingBloomFilter option \<Rightarrow> CountingBloomFilter option" where
  "cbf_Remove data co =
     (case co of None \<Rightarrow> None
      | Some c \<Rightarrow>
          if data = [] \<or> cbf_m c = 0 \<or> cbf_k c = 0 then Some c
          else Some (c\<lparr>cbf_counters := fold drain (cbf_indices c data) (cbf_counters c),
                       cbf_count := (if 0 < cbf_count c then cbf_count c - 1 else 0)\<rparr>))"

definition cbf_Test :: "CountingBloomFilter option \<Rightarrow> bytes \<Rightarrow> bool" where
  "cbf_Test co data =
     (case co of None \<Rightarrow> True
      | Some c \<Rightarrow>
          data = [] \<or> cbf_m c = 0 \<or> cbf_k c = 0 \<or> cbf_counters c = [] \<or>
          list_all (\<lambda>j. cbf_counters c ! j \<noteq> 0) (cbf_indices c data))"

definition cbf_MarshalBinary :: "CountingBloomFilter option \<Rightarrow> bytes result" where
  "cbf_MarshalBinary co =
     (case co of None \<Rightarrow> Inl (Msg ''cbf: nil filter'')
      | Some c \<Rightarrow> Inr (PutUint64 (cbf_m c) @ PutUint64 (cbf_k c) @ PutUint64 (cbf_count c) @
                      cbf_counters c))"

definition cbf_UnmarshalBinary :: "bytes \<Rightarrow> CountingBloomFilter result" where
  "cbf_UnmarshalBinary data =
     (if length data < 24 then Inl (Msg ''cbf: invalid binary payload length'')
      else
        let m = Uint64 (slice data 0 8);
            k = Uint64 (slice data 8 16);
            count = Uint64 (slice data 16 24);
            countersData = drop 24 data
        in if (word_of_nat (length countersData) :: u64) \<noteq> m
           then Inl (Msg ''cbf: payload size mismatch (want %d, got %d)'')
           else Inr \<lparr>cbf_m = m, cbf_k = k, cbf_counters = countersData, cbf_count = count\<rparr>)"

section \<open>The invariant: what the counters stand for\<close>

text \<open>
  A filter holds a multiset of items. The load of a bucket is the number of times the items of
  the multiset hit it; a counter below 255 is exactly the load of its bucket, and a counter that
  reached 255 stays there.
\<close>

definition load :: "CountingBloomFilter \<Rightarrow> bytes multiset \<Rightarrow> nat \<Rightarrow> nat" where
  "load c S j = (\<Sum>d\<in>#S. count_list (cbf_indices c d) j)"

definition cbf_ok :: "CountingBloomFilter \<Rightarrow> bool" where
  "cbf_ok c \<longleftrightarrow> cbf_m c \<noteq> 0 \<and> cbf_k c \<noteq> 0 \<and> length (cbf_counters c) = unat (cbf_m c)"

definition tracks :: "bytes \<Rightarrow> (nat \<Rightarrow> nat) \<Rightarrow> bool" where
  "tracks cs w \<longleftrightarrow> (\<forall>j < length cs. cs ! j = 255 \<or> unat (cs ! j) = w j)"

definition cbf_holds :: "CountingBloomFilter option \<Rightarrow> bytes multiset \<Rightarrow> bool" where
  "cbf_holds co S \<longleftrightarrow>
     (\<exists>c. co = Some c \<and> cbf_ok c \<and> [] \<notin># S \<and> tracks (cbf_counters c) (load c S))"

lemma length_bump [simp]: "length (bump j cs) = length cs"
  by (simp add: bump_def)

lemma length_drain [simp]: "length (drain j cs) = length cs"
  by (simp add: drain_def)

lemma length_fold_bump [simp]: "length (fold bump js cs) = length cs"
  by (induction js arbitrary: cs) simp_all

lemma length_fold_drain [simp]: "length (fold drain js cs) = length cs"
  by (induction js arbitrary: cs) simp_all

lemma byte_full_iff: "\<not> b < (255 :: byte) \<longleftrightarrow> b = 255"
proof -
  have "unat b < 256" using unsigned_less [of b] by simp
  then show ?thesis unfolding word_less_nat_alt word_unat_eq_iff by auto
qed

lemma unat_byte_inc: "b < (255 :: byte) \<Longrightarrow> unat (b + 1) = Suc (unat b)"
  by (simp add: unat_word_ariths word_less_nat_alt)

lemma unat_byte_dec: "0 < (b :: byte) \<Longrightarrow> unat (b - 1) = unat b - 1"
  by (simp add: unat_minus_one word_greater_zero_iff)

lemma tracks_bump:
  "tracks cs w \<Longrightarrow> tracks (bump i cs) (\<lambda>j. w j + (if i = j then 1 else 0))"
  unfolding tracks_def bump_def
  by (auto simp: nth_list_update unat_byte_inc byte_full_iff)

lemma tracks_bump_all: "tracks cs w \<Longrightarrow> tracks (fold bump js cs) (\<lambda>j. w j + count_list js j)"
proof (induction js arbitrary: cs w)
  case (Cons i js)
  have "(\<lambda>j. w j + (if i = j then 1 else 0) + count_list js j) = (\<lambda>j. w j + count_list (i # js) j)"
    by auto
  with Cons.IH [OF tracks_bump [OF Cons.prems, of i]] show ?case by (simp only: fold_simps)
qed simp

lemma tracks_drain:
  assumes "tracks cs w" "0 < w i"
  shows "tracks (drain i cs) (\<lambda>j. w j - (if i = j then 1 else 0))"
  using assms unfolding tracks_def drain_def
  by (auto simp: nth_list_update unat_byte_dec byte_full_iff word_greater_zero_iff)

lemma tracks_drain_all:
  "tracks cs w \<Longrightarrow> (\<And>j. count_list js j \<le> w j) \<Longrightarrow>
   tracks (fold drain js cs) (\<lambda>j. w j - count_list js j)"
proof (induction js arbitrary: cs w)
  case (Cons i js)
  have pos: "0 < w i" using Cons.prems(2) [of i] by simp
  have "count_list js j \<le> w j - (if i = j then 1 else 0)" for j
    using Cons.prems(2) [of j] by (auto split: if_splits)
  note step = Cons.IH [OF tracks_drain [OF Cons.prems(1) pos] this]
  have "(\<lambda>j. w j - (if i = j then 1 else 0) - count_list js j) = (\<lambda>j. w j - count_list (i # js) j)"
    by auto
  with step show ?case by (simp only: fold_simps)
qed simp

lemma cbf_indices_frame [simp]:
  "cbf_indices (c\<lparr>cbf_counters := cs\<rparr>) = cbf_indices c"
  "cbf_indices (c\<lparr>cbf_count := n\<rparr>) = cbf_indices c"
  by (simp_all add: cbf_indices_def fun_eq_iff)

lemma load_frame [simp]:
  "load (c\<lparr>cbf_counters := cs\<rparr>) = load c"
  "load (c\<lparr>cbf_count := n\<rparr>) = load c"
  by (simp_all add: load_def fun_eq_iff)

lemma load_add: "load c (add_mset d S) = (\<lambda>j. load c S j + count_list (cbf_indices c d) j)"
  by (simp add: load_def fun_eq_iff)

lemma load_remove:
  "d \<in># S \<Longrightarrow> load c (S - {#d#}) = (\<lambda>j. load c S j - count_list (cbf_indices c d) j)"
  using load_add [of c d "S - {#d#}"] by (simp add: fun_eq_iff)

lemma load_ge: "d \<in># S \<Longrightarrow> count_list (cbf_indices c d) j \<le> load c S j"
  using load_add [of c d "S - {#d#}"] by simp

lemma cbf_indices_less: "cbf_ok c \<Longrightarrow> j \<in> set (cbf_indices c d) \<Longrightarrow> j < length (cbf_counters c)"
  by (auto simp: cbf_ok_def cbf_indices_def unat_mod word_neq_0_conv unat_gt_0 split: prod.splits)

lemma cbf_empty_holds: "m \<noteq> 0 \<Longrightarrow> k \<noteq> 0 \<Longrightarrow> cbf_holds (Some (NewCountingBloomFilter m k)) {#}"
  by (simp add: cbf_holds_def cbf_ok_def NewCountingBloomFilter_def tracks_def load_def)

lemma cbf_Add_holds:
  assumes "cbf_holds co S" "d \<noteq> []"
  shows "cbf_holds (cbf_Add d co) (add_mset d S)"
proof -
  obtain c where c: "co = Some c" "cbf_ok c" "[] \<notin># S" "tracks (cbf_counters c) (load c S)"
    using assms(1) by (auto simp: cbf_holds_def)
  then show ?thesis
    using assms(2) tracks_bump_all [of "cbf_counters c" "load c S" "cbf_indices c d"]
    by (simp add: cbf_holds_def cbf_Add_def cbf_ok_def load_add)
qed

lemma cbf_Remove_holds:
  assumes "cbf_holds co S" "d \<in># S"
  shows "cbf_holds (cbf_Remove d co) (S - {#d#})"
proof -
  obtain c where c: "co = Some c" "cbf_ok c" "[] \<notin># S" "tracks (cbf_counters c) (load c S)"
    using assms(1) by (auto simp: cbf_holds_def)
  have "tracks (fold drain (cbf_indices c d) (cbf_counters c))
          (\<lambda>j. load c S j - count_list (cbf_indices c d) j)"
    by (rule tracks_drain_all [OF c(4)]) (rule load_ge [OF assms(2)])
  moreover have "d \<noteq> []" "[] \<notin># S - {#d#}"
    using c(3) assms(2) in_diffD by fastforce+
  ultimately show ?thesis
    using c by (simp add: cbf_holds_def cbf_Remove_def cbf_ok_def load_remove [OF assms(2)])
qed

lemma cbf_Test_held:
  assumes "cbf_holds co S" "d \<in># S"
  shows "cbf_Test co d"
proof -
  obtain c where c: "co = Some c" "cbf_ok c" "tracks (cbf_counters c) (load c S)"
    using assms(1) by (auto simp: cbf_holds_def)
  have "cbf_counters c ! j \<noteq> 0" if j: "j \<in> set (cbf_indices c d)" for j
  proof -
    have "0 < count_list (cbf_indices c d) j" using j by (simp add: count_list_0_iff neq0_conv [symmetric] del: neq0_conv)
    then have "0 < load c S j" using load_ge [OF assms(2)] order.strict_trans2 by blast
    moreover have "cbf_counters c ! j = 255 \<or> unat (cbf_counters c ! j) = load c S j"
      using c(3) cbf_indices_less [OF c(2) j] by (simp add: tracks_def)
    ultimately show ?thesis by auto
  qed
  then show ?thesis by (auto simp: cbf_Test_def c(1) list_all_iff)
qed

section \<open>Sequences of operations\<close>

datatype cbf_op = Ins bytes | Del bytes

fun cbf_exec :: "cbf_op \<Rightarrow> CountingBloomFilter option \<Rightarrow> CountingBloomFilter option" where
  "cbf_exec (Ins d) co = cbf_Add d co"
| "cbf_exec (Del d) co = cbf_Remove d co"

text \<open>The items present after a sequence; \<open>None\<close> once an absent item is removed.\<close>

fun present :: "cbf_op list \<Rightarrow> bytes multiset \<Rightarrow> bytes multiset option" where
  "present [] S = Some S"
| "present (Ins d # ops) S = present ops (if d = [] then S else add_mset d S)"
| "present (Del d # ops) S =
     (if d = [] then present ops S else if d \<in># S then present ops (S - {#d#}) else None)"

lemma cbf_exec_empty [simp]: "cbf_Add [] co = co" "cbf_Remove [] co = co"
  by (cases co; simp add: cbf_Add_def cbf_Remove_def)+

lemma cbf_run_holds:
  "cbf_holds co S \<Longrightarrow> present ops S = Some T \<Longrightarrow> cbf_holds (fold cbf_exec ops co) T"
proof (induction ops S arbitrary: co rule: present.induct)
  case (2 d ops S)
  then show ?case by (cases "d = []") (simp_all add: cbf_Add_holds)
next
  case (3 d ops S)
  then show ?case by (auto simp: cbf_Remove_holds split: if_splits)
qed simp

lemma bump_nonzero: "cs ! j \<noteq> 0 \<Longrightarrow> bump i cs ! j \<noteq> 0"
proof (cases "i = j \<and> cs ! i < 255 \<and> i < length cs")
  case True
  then have "unat (cs ! i + 1) = Suc (unat (cs ! i))" using unat_byte_inc by blast
  then have "cs ! i + 1 \<noteq> 0" by (metis nat.distinct(1) unat_0)
  with True show ?thesis by (auto simp: bump_def)
next
  case False
  assume "cs ! j \<noteq> 0"
  with False show ?thesis by (cases "i < length cs") (auto simp: bump_def nth_list_update list_update_beyond)
qed

lemma fold_bump_nonzero: "cs ! j \<noteq> 0 \<Longrightarrow> fold bump js cs ! j \<noteq> 0"
  by (induction js arbitrary: cs) (simp_all add: bump_nonzero)

lemma cbf_Test_mono: "cbf_Test co y \<Longrightarrow> cbf_Test (cbf_Add x co) y"
proof (cases co)
  case (Some c)
  assume t: "cbf_Test co y"
  have nil: "fold bump js cs = [] \<longleftrightarrow> cs = []" for js cs
    by (metis length_0_conv length_fold_bump)
  show ?thesis
  proof (cases "x = [] \<or> cbf_m c = 0 \<or> cbf_k c = 0")
    case True
    with t Some show ?thesis by (simp add: cbf_Add_def)
  next
    case False
    with t Some show ?thesis
      unfolding cbf_Test_def cbf_Add_def
      by (simp add: nil list_all_iff) (meson fold_bump_nonzero)
  qed
qed (simp add: cbf_Add_def)

interpretation cbf: membership_filter "\<lambda>co. \<exists>S. cbf_holds co S" "cbf_Add" "cbf_Test"
proof
  fix f :: "CountingBloomFilter option" and x y
  assume f: "\<exists>S. cbf_holds f S"
  then obtain S where S: "cbf_holds f S" by blast
  show "\<exists>S. cbf_holds (cbf_Add x f) S"
    using S cbf_Add_holds [OF S] by (cases "x = []") auto
  show "cbf_Test (cbf_Add x f) x"
  proof (cases "x = []")
    case False
    show ?thesis by (rule cbf_Test_held [OF cbf_Add_holds [OF S False]]) simp
  qed (simp add: cbf_Test_def split: option.splits)
  show "cbf_Test (cbf_Add x f) y" if "cbf_Test f y"
    using that by (rule cbf_Test_mono)
qed

section \<open>Properties\<close>

text \<open>
  Property C22. No false negatives: after any sequence of insertions and deletions in which every
  deleted item was present, the test answers yes for every item that is still present, whatever
  collisions and saturations of the 8-bit counters happened on the way.
\<close>

theorem cbf_no_false_negatives:
  assumes "m \<noteq> 0" "k \<noteq> 0"
    and "present ops {#} = Some S" "d \<in># S"
  shows "cbf_Test (fold cbf_exec ops (Some (NewCountingBloomFilter m k))) d"
  using cbf_run_holds [OF cbf_empty_holds [OF assms(1,2)] assms(3)] assms(4) by (rule cbf_Test_held)

theorem cbf_no_false_negatives_witness:
  "cbf_Test (fold cbf_exec [Ins [1], Ins [2], Ins [1], Del [2], Del [1]]
     (Some (NewCountingBloomFilter 5 2))) [1]"
  by (rule cbf_no_false_negatives [where S = "{#[1]#}"]) simp_all

text \<open>
  The discipline is needed: deleting an item that is not present empties buckets it
  shares with others. The filter then denies an item that is present. This is what a second
  deletion of an already deleted block does to the index of the persistent store.
\<close>

theorem cbf_unmatched_remove:
  "\<not> cbf_Test (fold cbf_exec [Ins [1], Del [2]] (Some (NewCountingBloomFilter 1 1))) [1]"
  by code_simp

text \<open>
  Property C30. The snapshot format is a bijection between the filters whose counter array has the
  declared size and the payloads the reader accepts: reading back a snapshot gives the same filter,
  and every accepted payload is the snapshot of the filter it yields. A payload below 24 bytes or
  with the wrong size is refused.
\<close>

theorem cbf_snapshot_roundtrip:
  assumes "length data < 2 ^ 64"
  shows "(cbf_MarshalBinary (Some c) = Inr data \<and> length (cbf_counters c) = unat (cbf_m c)) \<longleftrightarrow>
         cbf_UnmarshalBinary data = Inr c"
proof
  assume w: "cbf_MarshalBinary (Some c) = Inr data \<and> length (cbf_counters c) = unat (cbf_m c)"
  then have d: "data = PutUint64 (cbf_m c) @ PutUint64 (cbf_k c) @ PutUint64 (cbf_count c) @ cbf_counters c"
    by (simp add: cbf_MarshalBinary_def)
  have "word_of_nat (length (cbf_counters c)) = cbf_m c" using w by simp
  then show "cbf_UnmarshalBinary data = Inr c"
    by (simp add: cbf_UnmarshalBinary_def d slice_def Let_def)
next
  assume r: "cbf_UnmarshalBinary data = Inr c"
  then have len: "24 \<le> length data" by (auto simp: cbf_UnmarshalBinary_def split: if_splits)
  with r have c: "cbf_m c = Uint64 (slice data 0 8)" "cbf_k c = Uint64 (slice data 8 16)"
      "cbf_count c = Uint64 (slice data 16 24)" "cbf_counters c = drop 24 data"
      "word_of_nat (length (drop 24 data)) = cbf_m c"
    by (auto simp: cbf_UnmarshalBinary_def Let_def split: if_splits)
  have "slice data 0 24 @ drop 24 data = data" by (simp add: slice_def)
  then have "slice data 0 8 @ slice data 8 16 @ slice data 16 24 @ drop 24 data = data"
    using slice_append_slice [of 0 8 16 data] slice_append_slice [of 0 16 24 data]
    by (simp flip: append_assoc)
  then have "cbf_MarshalBinary (Some c) = Inr data"
    using len by (simp add: cbf_MarshalBinary_def c(1-4) PutUint64_Uint64)
  moreover have "unat (cbf_m c) = length (drop 24 data)"
    unfolding c(5) [symmetric] using assms by (simp add: unat_of_nat)
  ultimately show "cbf_MarshalBinary (Some c) = Inr data \<and> length (cbf_counters c) = unat (cbf_m c)"
    by (simp add: c(4))
qed

theorem cbf_snapshot_roundtrip_witness:
  "cbf_UnmarshalBinary (PutUint64 3 @ PutUint64 2 @ PutUint64 1 @ [0, 1, 1]) =
     Inr \<lparr>cbf_m = 3, cbf_k = 2, cbf_counters = [0, 1, 1], cbf_count = 1\<rparr>"
  by (rule cbf_snapshot_roundtrip [THEN iffD1]) (simp_all add: cbf_MarshalBinary_def)

end
