(* ===== verification/HashRing.thy ===== *)
theory HashRing
  imports Mid Sha256 "HOL-Library.List_Lexorder" "HOL-Library.Char_ord"
begin

text \<open>
  Rendezvous hashing of src/core/shard/hashring.go and the persistence of the peer list of
  src/core/shard/placement_store.go. A ring is the list of peers in joining order with the map of
  failure domains; the mutex makes every operation atomic. The scores are real: the SHA-256 of
  peer, separator and MID. Strings are compared bytewise, as in Go.
\<close>

section \<open>Sorting with a comparison function\<close>

text \<open>
  sort.Slice sorts by a strict order given as a function. The order of elements the function does
  not separate is unspecified; \<open>sort_Slice_unique\<close> below shows that this freedom is void when the
  function separates all elements, which is the only way the code calls it.
\<close>

fun insert_by :: "('a \<Rightarrow> 'a \<Rightarrow> bool) \<Rightarrow> 'a \<Rightarrow> 'a list \<Rightarrow> 'a list" where
  "insert_by lt x [] = [x]"
| "insert_by lt x (y # ys) = (if lt y x then y # insert_by lt x ys else x # y # ys)"

definition sort_Slice :: "('a \<Rightarrow> 'a \<Rightarrow> bool) \<Rightarrow> 'a list \<Rightarrow> 'a list" where
  "sort_Slice lt xs = foldr (insert_by lt) xs []"

definition strict_order_on :: "'a set \<Rightarrow> ('a \<Rightarrow> 'a \<Rightarrow> bool) \<Rightarrow> bool" where
  "strict_order_on A lt \<longleftrightarrow>
     (\<forall>x\<in>A. \<not> lt x x) \<and>
     (\<forall>x\<in>A. \<forall>y\<in>A. \<forall>z\<in>A. lt x y \<longrightarrow> lt y z \<longrightarrow> lt x z) \<and>
     (\<forall>x\<in>A. \<forall>y\<in>A. x \<noteq> y \<longrightarrow> lt x y \<or> lt y x)"

lemma strict_irrefl: "strict_order_on A lt \<Longrightarrow> x \<in> A \<Longrightarrow> \<not> lt x x"
  by (simp add: strict_order_on_def)

lemma strict_trans:
  "strict_order_on A lt \<Longrightarrow> x \<in> A \<Longrightarrow> y \<in> A \<Longrightarrow> z \<in> A \<Longrightarrow> lt x y \<Longrightarrow> lt y z \<Longrightarrow> lt x z"
  unfolding strict_order_on_def by blast

lemma strict_total:
  "strict_order_on A lt \<Longrightarrow> x \<in> A \<Longrightarrow> y \<in> A \<Longrightarrow> x \<noteq> y \<Longrightarrow> lt x y \<or> lt y x"
  by (simp add: strict_order_on_def)

lemma strict_order_on_subset: "strict_order_on B lt \<Longrightarrow> A \<subseteq> B \<Longrightarrow> strict_order_on A lt"
  unfolding strict_order_on_def by (meson subsetD)

lemma sort_Slice_simps [simp]:
  "sort_Slice lt [] = []"
  "sort_Slice lt (x # xs) = insert_by lt x (sort_Slice lt xs)"
  by (simp_all add: sort_Slice_def)

lemma mset_insert_by [simp]: "mset (insert_by lt x ys) = add_mset x (mset ys)"
  by (induction ys) simp_all

lemma mset_sort_Slice [simp]: "mset (sort_Slice lt xs) = mset xs"
  by (induction xs) simp_all

lemma set_insert_by [simp]: "set (insert_by lt x ys) = insert x (set ys)"
  using mset_insert_by [of lt x ys] by (metis set_mset_add_mset_insert set_mset_mset)

lemma set_sort_Slice [simp]: "set (sort_Slice lt xs) = set xs"
  by (rule mset_eq_setD) simp

lemma length_sort_Slice [simp]: "length (sort_Slice lt xs) = length xs"
  by (rule mset_eq_length) simp

lemma distinct_sort_Slice [simp]: "distinct (sort_Slice lt xs) \<longleftrightarrow> distinct xs"
  by (rule mset_eq_imp_distinct_iff) simp

lemma insert_by_sorted:
  assumes "strict_order_on (insert x (set ys)) lt" "x \<notin> set ys" "sorted_wrt lt ys"
  shows "sorted_wrt lt (insert_by lt x ys)"
  using assms
proof (induction ys)
  case (Cons y ys)
  have ord: "strict_order_on (insert x (set ys)) lt"
    using Cons.prems(1) by (rule strict_order_on_subset) auto
  show ?case
  proof (cases "lt y x")
    case True
    with Cons ord show ?thesis by simp
  next
    case False
    then have xy: "lt x y" using Cons.prems(2) strict_total [OF Cons.prems(1), of x y] by auto
    have "lt x z" if "z \<in> set ys" for z
    proof -
      have "lt y z" using that Cons.prems(3) by simp
      then show ?thesis using xy that strict_trans [OF Cons.prems(1), of x y z] by simp
    qed
    with False xy Cons.prems(3) show ?thesis by simp
  qed
qed simp

lemma sort_Slice_sorted:
  "strict_order_on (set xs) lt \<Longrightarrow> distinct xs \<Longrightarrow> sorted_wrt lt (sort_Slice lt xs)"
proof (induction xs)
  case (Cons x xs)
  have "strict_order_on (set xs) lt" using Cons.prems(1) by (rule strict_order_on_subset) auto
  with Cons have "sorted_wrt lt (sort_Slice lt xs)" by simp
  then show ?case
    using Cons.prems insert_by_sorted [of x "sort_Slice lt xs" lt]
    by simp
qed simp

lemma sorted_wrt_unique:
  assumes "strict_order_on (set xs) lt" "sorted_wrt lt xs" "sorted_wrt lt ys"
    "mset xs = mset ys"
  shows "xs = ys"
  using assms
proof (induction xs arbitrary: ys)
  case (Cons x xs)
  obtain y ys' where ys: "ys = y # ys'" using Cons.prems(4) by (cases ys) auto
  have same: "set (x # xs) = set ys" using Cons.prems(4) mset_eq_setD by blast
  have xy: "x = y"
  proof (rule ccontr)
    assume "x \<noteq> y"
    then have "y \<in> set xs" "x \<in> set ys'" using same ys by auto
    then have "lt x y" "lt y x" using Cons.prems(2,3) ys by auto
    then have "lt x x" using strict_trans [OF Cons.prems(1), of x y x] \<open>y \<in> set xs\<close> by simp
    then show False using strict_irrefl [OF Cons.prems(1), of x] by simp
  qed
  have "strict_order_on (set xs) lt" using Cons.prems(1) by (rule strict_order_on_subset) auto
  with Cons.IH [of ys'] Cons.prems xy ys show ?case by simp
qed simp

lemma sort_Slice_unique:
  assumes "strict_order_on (set xs) lt" "distinct xs" "sorted_wrt lt ys" "mset ys = mset xs"
  shows "sort_Slice lt xs = ys"
  using assms sort_Slice_sorted [OF assms(1,2)]
  by (intro sorted_wrt_unique [of _ lt]) simp_all

section \<open>The ring\<close>

record HashRing =
  hr_peers :: "string list"
  hr_domains :: "string \<rightharpoonup> string"

definition MinReplicas :: int where "MinReplicas = 1"
definition MaxReplicas :: int where "MaxReplicas = 64"

definition NewHashRing :: HashRing where
  "NewHashRing = \<lparr>hr_peers = [], hr_domains = Map.empty\<rparr>"

definition AddPeerWithDomain :: "string \<Rightarrow> string \<Rightarrow> HashRing \<Rightarrow> HashRing" where
  "AddPeerWithDomain peerID domain r =
     (if peerID = [] then r
      else
        let r1 = r\<lparr>hr_domains := (hr_domains r)(peerID \<mapsto> domain)\<rparr>
        in if peerID \<in> set (hr_peers r1) then r1
           else r1\<lparr>hr_peers := hr_peers r1 @ [peerID]\<rparr>)"

definition AddPeer :: "string \<Rightarrow> HashRing \<Rightarrow> HashRing" where
  "AddPeer peerID r = AddPeerWithDomain peerID [] r"

definition RemovePeer :: "string \<Rightarrow> HashRing \<Rightarrow> HashRing" where
  "RemovePeer peerID r =
     r\<lparr>hr_domains := (hr_domains r)(peerID := None), hr_peers := remove1 peerID (hr_peers r)\<rparr>"

definition Peers :: "HashRing \<Rightarrow> string list" where
  "Peers r = hr_peers r"

definition Ring_Len :: "HashRing \<Rightarrow> nat" where
  "Ring_Len r = length (hr_peers r)"

section \<open>Assignment\<close>

record scored =
  sc_peer :: string
  sc_domain :: string
  sc_score :: u64

definition hrwScore :: "string \<Rightarrow> bytes \<Rightarrow> u64" where
  "hrwScore peer midBytes = Uint64 (slice (Sum256 (bytes_of_string peer @ [0] @ midBytes)) 0 8)"

definition scored_less :: "scored \<Rightarrow> scored \<Rightarrow> bool" where
  "scored_less a b =
     (if sc_score a \<noteq> sc_score b then sc_score b < sc_score a else sc_peer a < sc_peer b)"

definition ring_scores :: "HashRing \<Rightarrow> bytes \<Rightarrow> scored list" where
  "ring_scores r midBytes =
     map (\<lambda>p. \<lparr>sc_peer = p, sc_domain = (case hr_domains r p of None \<Rightarrow> [] | Some d \<Rightarrow> d),
               sc_score = hrwScore p midBytes\<rparr>) (hr_peers r)"

text \<open>The first loop: distinct failure domains first, the others deferred.\<close>

fun select_distinct ::
  "nat \<Rightarrow> scored list \<Rightarrow> string list \<Rightarrow> string set \<Rightarrow> scored list \<Rightarrow> string list \<times> scored list" where
  "select_distinct n [] selected used deferred = (selected, deferred)"
| "select_distinct n (sc # scs) selected used deferred =
     (if n \<le> length selected then (selected, deferred)
      else if sc_domain sc \<noteq> [] \<and> sc_domain sc \<in> used
      then select_distinct n scs selected used (deferred @ [sc])
      else select_distinct n scs (selected @ [sc_peer sc])
             (if sc_domain sc \<noteq> [] then insert (sc_domain sc) used else used) deferred)"

text \<open>The second loop: the remaining slots from the deferred peers.\<close>

fun select_fill :: "nat \<Rightarrow> scored list \<Rightarrow> string list \<Rightarrow> string list" where
  "select_fill n [] selected = selected"
| "select_fill n (sc # scs) selected =
     (if n \<le> length selected then selected else select_fill n scs (selected @ [sc_peer sc]))"

definition Assign :: "hashlib \<Rightarrow> HashRing \<Rightarrow> MID \<Rightarrow> int \<Rightarrow> string list result" where
  "Assign L r m replicas =
     (if IsZero m then Inl (Msg ''shard: zero MID'')
      else if replicas < MinReplicas then Inl (Msg ''shard: replicas below minimum'')
      else if replicas > MaxReplicas then Inl (Msg ''shard: replicas above maximum'')
      else if length (hr_peers r) = 0 then Inl (Msg ''shard: no peers in ring'')
      else
        let scores = sort_Slice scored_less (ring_scores r (bytes_of_string (MID_String L m)));
            n = min (nat replicas) (length scores)
        in case select_distinct n scores [] {} [] of
             (selected, deferred) \<Rightarrow> Inr (select_fill n deferred selected))"

definition IsOwner :: "hashlib \<Rightarrow> HashRing \<Rightarrow> string \<Rightarrow> MID \<Rightarrow> int \<Rightarrow> bool" where
  "IsOwner L r peerID m replicas =
     (if peerID = [] \<or> IsZero m then False
      else case Assign L r m replicas of
             Inl e \<Rightarrow> False
           | Inr assigned \<Rightarrow> peerID \<in> set assigned)"

text \<open>A nil ring is \<open>None\<close>.\<close>

fun migration_loop ::
  "hashlib \<Rightarrow> HashRing option \<Rightarrow> HashRing \<Rightarrow> string \<Rightarrow> int \<Rightarrow> MID list \<Rightarrow> MID list \<times> MID list \<Rightarrow>
   MID list \<times> MID list" where
  "migration_loop L ro newRing self replicas [] acc = acc"
| "migration_loop L ro newRing self replicas (m # mids) (gained, lost) =
     (let wasOwner = (case ro of None \<Rightarrow> False | Some r \<Rightarrow> IsOwner L r self m replicas);
          isOwner = IsOwner L newRing self m replicas
      in migration_loop L ro newRing self replicas mids
           (if \<not> wasOwner \<and> isOwner then (gained @ [m], lost)
            else if wasOwner \<and> \<not> isOwner then (gained, lost @ [m])
            else (gained, lost)))"

definition ComputeMigration ::
  "hashlib \<Rightarrow> HashRing option \<Rightarrow> HashRing option \<Rightarrow> string \<Rightarrow> MID list \<Rightarrow> int \<Rightarrow>
   MID list \<times> MID list" where
  "ComputeMigration L ro newRing self mids replicas =
     (case newRing of None \<Rightarrow> ([], [])
      | Some nr \<Rightarrow> if self = [] then ([], []) else migration_loop L ro nr self replicas mids ([], []))"

section \<open>Persistence of the peer list\<close>

text \<open>
  The key-value store and encoding/json's treatment of a string list are parameters: \<open>kv_get\<close>,
  \<open>kv_set\<close>, \<open>json_enc\<close> and \<open>json_dec\<close>.
\<close>

definition keyRingPeers :: bytes where "keyRingPeers = bytes_of_string ''shard:ring:peers''"

record 's ring_env =
  kv_get :: "'s \<Rightarrow> bytes \<Rightarrow> bytes result"
  kv_set :: "'s \<Rightarrow> bytes \<Rightarrow> bytes \<Rightarrow> gerror option \<times> 's"
  json_enc :: "string list \<Rightarrow> bytes result"
  json_dec :: "bytes \<Rightarrow> string list result"

definition PersistPeers :: "'s ring_env \<Rightarrow> 's option \<Rightarrow> string list \<Rightarrow> gerror option \<times> 's option" where
  "PersistPeers E store peers =
     (case store of None \<Rightarrow> (None, None)
      | Some s \<Rightarrow>
          (case json_enc E peers of
             Inl e \<Rightarrow> (Some (Wrap ''shard: marshal ring peers: %w'' e), Some s)
           | Inr data \<Rightarrow> (case kv_set E s keyRingPeers data of (err, s') \<Rightarrow> (err, Some s'))))"

definition LoadPeers ::
  "'s ring_env \<Rightarrow> 's option \<Rightarrow> HashRing option \<Rightarrow> gerror option \<times> HashRing option" where
  "LoadPeers E store ring =
     (case (store, ring) of
        (Some s, Some r) \<Rightarrow>
          (case kv_get E s keyRingPeers of
             Inl err \<Rightarrow>
               if errors_Is err db_ErrNotFound then (None, Some r) else (Some err, Some r)
           | Inr data \<Rightarrow>
               (case json_dec E data of
                  Inl e \<Rightarrow> (Some (Wrap ''shard: unmarshal ring peers: %w'' e), Some r)
                | Inr peers \<Rightarrow> (None, Some (fold AddPeer peers r))))
      | _ \<Rightarrow> (None, ring))"

section \<open>Invariant\<close>

definition ring_inv :: "HashRing \<Rightarrow> bool" where
  "ring_inv r \<longleftrightarrow>
     distinct (hr_peers r) \<and> [] \<notin> set (hr_peers r) \<and> dom (hr_domains r) = set (hr_peers r)"

lemma NewHashRing_inv: "ring_inv NewHashRing"
  by (simp add: ring_inv_def NewHashRing_def)

lemma AddPeerWithDomain_inv: "ring_inv r \<Longrightarrow> ring_inv (AddPeerWithDomain p d r)"
  by (auto simp: ring_inv_def AddPeerWithDomain_def Let_def)

lemma RemovePeer_inv: "ring_inv r \<Longrightarrow> ring_inv (RemovePeer p r)"
  by (auto simp: ring_inv_def RemovePeer_def)

lemma AddPeer_inv: "ring_inv r \<Longrightarrow> ring_inv (AddPeer p r)"
  by (simp add: AddPeer_def AddPeerWithDomain_inv)

lemma RemovePeer_peers: "ring_inv r \<Longrightarrow> hr_peers (RemovePeer p r) = filter (\<lambda>q. q \<noteq> p) (hr_peers r)"
  by (auto simp: ring_inv_def RemovePeer_def distinct_remove1_removeAll removeAll_filter_not_eq
      intro!: filter_cong)

section \<open>The assignment as a prefix of one preference list\<close>

text \<open>
  The specification: the peers in order of preference are the best peer of every failure domain
  (a peer without a domain counts as its own), then all others, each part in score order; an
  assignment to \<open>n\<close> replicas is the prefix of length \<open>n\<close> of that list.
\<close>

fun leaders :: "string set \<Rightarrow> scored list \<Rightarrow> scored list" where
  "leaders used [] = []"
| "leaders used (sc # scs) =
     (if sc_domain sc \<noteq> [] \<and> sc_domain sc \<in> used then leaders used scs
      else sc # leaders (if sc_domain sc \<noteq> [] then insert (sc_domain sc) used else used) scs)"

fun followers :: "string set \<Rightarrow> scored list \<Rightarrow> scored list" where
  "followers used [] = []"
| "followers used (sc # scs) =
     (if sc_domain sc \<noteq> [] \<and> sc_domain sc \<in> used then sc # followers used scs
      else followers (if sc_domain sc \<noteq> [] then insert (sc_domain sc) used else used) scs)"

definition preference :: "scored list \<Rightarrow> scored list" where
  "preference scs = leaders {} scs @ followers {} scs"

lemma select_fill_take:
  "select_fill n scs selected = selected @ take (n - length selected) (map sc_peer scs)"
proof (induction n scs selected rule: select_fill.induct)
  case (2 n sc scs selected)
  show ?case
  proof (cases "n \<le> length selected")
    case False
    then have "n - length selected = Suc (n - Suc (length selected))" by simp
    with 2 False show ?thesis by simp
  qed simp
qed simp

lemma select_distinct_leaders:
  "(case select_distinct n scs selected used deferred of (sel, def) \<Rightarrow> select_fill n def sel) =
   selected @ take (n - length selected)
     (map sc_peer (leaders used scs @ deferred @ followers used scs))"
proof (induction n scs selected used deferred rule: select_distinct.induct)
  case (1 n selected used deferred)
  show ?case by (simp add: select_fill_take)
next
  case (2 n sc scs selected used deferred)
  show ?case
  proof (cases "n \<le> length selected")
    case True
    then show ?thesis by (simp add: select_fill_take)
  next
    case False
    then have "n - length selected = Suc (n - Suc (length selected))" by simp
    with 2 False show ?thesis by simp
  qed
qed

lemma mset_leaders_followers: "mset (leaders used scs) + mset (followers used scs) = mset scs"
  by (induction used scs rule: leaders.induct) (auto split: if_splits)

lemma mset_preference [simp]: "mset (preference scs) = mset scs"
  using mset_leaders_followers [of "{}" scs] by (simp add: preference_def)

lemma length_preference [simp]: "length (preference scs) = length scs"
  by (rule mset_eq_length) simp

definition ring_preference :: "HashRing \<Rightarrow> bytes \<Rightarrow> scored list" where
  "ring_preference r mb = preference (sort_Slice scored_less (ring_scores r mb))"

lemma Assign_ok_iff:
  "is_ok (Assign L r m n) \<longleftrightarrow> \<not> IsZero m \<and> 1 \<le> n \<and> n \<le> 64 \<and> hr_peers r \<noteq> []"
  by (simp add: Assign_def MinReplicas_def MaxReplicas_def Let_def split: prod.splits)

lemma Assign_preference:
  assumes "Assign L r m n = Inr ps"
  shows "ps = map sc_peer (take (nat n) (ring_preference r (bytes_of_string (MID_String L m))))"
proof -
  let ?scs = "sort_Slice scored_less (ring_scores r (bytes_of_string (MID_String L m)))"
  have "ps = (case select_distinct (min (nat n) (length ?scs)) ?scs [] {} [] of
                (sel, def) \<Rightarrow> select_fill (min (nat n) (length ?scs)) def sel)"
    using assms by (simp add: Assign_def Let_def split: if_splits prod.splits)
  also have "\<dots> = take (min (nat n) (length ?scs)) (map sc_peer (preference ?scs))"
    unfolding select_distinct_leaders preference_def by (simp del: take_append map_append)
  finally show ?thesis
    by (simp add: ring_preference_def take_map min_def)
qed

section \<open>Order of the scores\<close>

lemma map_sc_peer_ring_scores [simp]: "map sc_peer (ring_scores r mb) = hr_peers r"
  by (simp add: ring_scores_def comp_def)

lemma peers_of_ring_scores: "image_mset sc_peer (mset (ring_scores r mb)) = mset (hr_peers r)"
  by (metis map_sc_peer_ring_scores mset_map)

lemma length_ring_scores [simp]: "length (ring_scores r mb) = length (hr_peers r)"
  by (simp add: ring_scores_def)

lemma scored_less_order: "inj_on sc_peer A \<Longrightarrow> strict_order_on A scored_less"
  unfolding strict_order_on_def scored_less_def
  by (auto simp: inj_on_def split: if_splits) (metis linorder_less_linear)

lemma ring_scores_peers_inj: "ring_inv r \<Longrightarrow> inj_on sc_peer (set (ring_scores r mb))"
  by (auto simp: ring_scores_def inj_on_def)

lemma distinct_ring_scores: "ring_inv r \<Longrightarrow> distinct (ring_scores r mb)"
  by (metis distinct_map map_sc_peer_ring_scores ring_inv_def)

lemma ring_sorted:
  assumes "ring_inv r"
  shows "strict_order_on (set (ring_scores r mb)) scored_less"
    and "sorted_wrt scored_less (sort_Slice scored_less (ring_scores r mb))"
  using scored_less_order [OF ring_scores_peers_inj [OF assms]]
    sort_Slice_sorted distinct_ring_scores [OF assms] by blast+

lemma mset_ring_preference [simp]: "mset (ring_preference r mb) = mset (ring_scores r mb)"
  by (simp add: ring_preference_def)

lemma mset_peers_preference: "mset (map sc_peer (ring_preference r mb)) = mset (hr_peers r)"
  by (simp add: peers_of_ring_scores)

lemma ring_preference_cong:
  assumes "ring_inv r" "ring_inv r'" "set (hr_peers r) = set (hr_peers r')"
    "hr_domains r = hr_domains r'"
  shows "ring_preference r mb = ring_preference r' mb"
proof -
  have "mset (hr_peers r) = mset (hr_peers r')"
    using assms by (simp add: ring_inv_def set_eq_iff_mset_eq_distinct)
  then have "mset (ring_scores r' mb) = mset (ring_scores r mb)"
    by (simp add: ring_scores_def assms(4))
  then have "sort_Slice scored_less (ring_scores r mb) = sort_Slice scored_less (ring_scores r' mb)"
    using assms ring_sorted distinct_ring_scores by (intro sort_Slice_unique) simp_all
  then show ?thesis by (simp add: ring_preference_def)
qed

lemma sorted_filter_scores:
  assumes "ring_inv r"
  shows "sort_Slice scored_less (ring_scores (RemovePeer p r) mb) =
         filter (\<lambda>sc. sc_peer sc \<noteq> p) (sort_Slice scored_less (ring_scores r mb))"
proof (rule sort_Slice_unique)
  note inv = RemovePeer_inv [OF assms, of p]
  show "strict_order_on (set (ring_scores (RemovePeer p r) mb)) scored_less"
    "distinct (ring_scores (RemovePeer p r) mb)"
    using ring_sorted(1) [OF inv] distinct_ring_scores [OF inv] by blast+
  show "sorted_wrt scored_less
      (filter (\<lambda>sc. sc_peer sc \<noteq> p) (sort_Slice scored_less (ring_scores r mb)))"
    using ring_sorted(2) [OF assms] by (rule sorted_wrt_filter)
  have "ring_scores (RemovePeer p r) mb = filter (\<lambda>sc. sc_peer sc \<noteq> p) (ring_scores r mb)"
    by (simp add: ring_scores_def RemovePeer_peers [OF assms] filter_map comp_def)
      (simp add: RemovePeer_def)
  then show "mset (filter (\<lambda>sc. sc_peer sc \<noteq> p) (sort_Slice scored_less (ring_scores r mb))) =
      mset (ring_scores (RemovePeer p r) mb)"
    by (simp add: mset_filter)
qed

section \<open>Removing one peer\<close>

text \<open>Freeing one domain promotes at most the best follower of that domain.\<close>

definition promoted :: "'a list \<Rightarrow> 'a list \<Rightarrow> 'a list \<Rightarrow> 'a list \<Rightarrow> bool" where
  "promoted l f l' f' \<longleftrightarrow>
     l' = l \<and> f' = f \<or>
     (\<exists>a b q c e. l = a @ b \<and> l' = a @ q # b \<and> f = c @ q # e \<and> f' = c @ e)"

lemma promoted_leader: "promoted l f l' f' \<Longrightarrow> promoted (x # l) f (x # l') f'"
  unfolding promoted_def by (metis append_Cons)

lemma promoted_follower: "promoted l f l' f' \<Longrightarrow> promoted l (x # f) l' (x # f')"
  unfolding promoted_def by (metis append_Cons)

lemma promoted_here: "promoted l (x # f) (x # l) f"
  unfolding promoted_def by (metis append_Nil)

lemma promote_one:
  assumes "d \<noteq> []"
  shows "promoted (leaders (insert d used) scs) (followers (insert d used) scs)
           (leaders used scs) (followers used scs)"
proof (induction scs arbitrary: used)
  case Nil
  show ?case by (simp add: promoted_def)
next
  case (Cons x xs)
  consider (skip) "sc_domain x \<noteq> []" "sc_domain x \<in> used"
    | (promote) "sc_domain x = d" "sc_domain x \<notin> used"
    | (none) "sc_domain x = []"
    | (keep) "sc_domain x \<noteq> []" "sc_domain x \<noteq> d" "sc_domain x \<notin> used" by blast
  then show ?case
  proof cases
    case skip
    with Cons.IH [of used] show ?thesis by (simp add: promoted_follower)
  next
    case promote
    with assms show ?thesis by (simp add: promoted_here)
  next
    case none
    with Cons.IH [of used] show ?thesis by (simp add: promoted_leader)
  next
    case keep
    with Cons.IH [of "insert (sc_domain x) used"] show ?thesis
      by (simp add: promoted_leader insert_commute)
  qed
qed

lemma take_shift:
  "set (take n (x @ p # y)) - {p} \<subseteq> set (take n (x @ y))"
  by (cases "n - length x") (auto dest: in_set_takeD simp: take_Suc_conv_app_nth set_take_subset_set_take
      intro: set_take_subset_set_take [THEN subsetD, rotated])

lemma take_behind:
  assumes "\<And>j. set (take j y) \<subseteq> set (take (Suc j) z)"
  shows "set (take k (a @ y)) \<subseteq> set (take (Suc k) (a @ z))"
proof (cases "k < length a")
  case True
  then show ?thesis using set_take_subset_set_take [of k "Suc k" a] by auto
next
  case False
  then have "Suc k - length a = Suc (k - length a)" by simp
  with False assms [of "k - length a"] show ?thesis by auto
qed

lemma take_promote:
  assumes "promoted l f l' f'"
  shows "set (take n (x @ p # l @ t @ f)) - {p} \<subseteq> set (take n (x @ l' @ t @ f'))"
proof -
  consider "l' = l" "f' = f" | (move) a b q c e where
      "l = a @ b" "l' = a @ q # b" "f = c @ q # e" "f' = c @ e"
    using assms by (auto simp: promoted_def)
  then show ?thesis
  proof cases
    case move
    have "set (take j ((b @ t @ c) @ q # e)) \<subseteq> set (take (Suc j) (q # (b @ t @ c) @ e))" for j
      using take_shift [of j "b @ t @ c" q e] by auto
    then have step: "set (take k (a @ (b @ t @ c) @ q # e)) \<subseteq>
        set (take (Suc k) (a @ q # (b @ t @ c) @ e))" for k by (rule take_behind)
    show ?thesis
    proof (cases "n - length x")
      case (Suc k)
      with step [of k] move show ?thesis by auto
    qed auto
  next
    case 1
    with take_shift [of n x p "l @ t @ f"] show ?thesis by (simp only:)
  qed
qed

lemma take_before: "p \<notin> set (take n (x @ p # y)) \<Longrightarrow> n \<le> length x"
  by (cases "n - length x") auto

fun seen :: "string set \<Rightarrow> scored list \<Rightarrow> string set" where
  "seen used [] = used"
| "seen used (sc # scs) = seen (if sc_domain sc \<noteq> [] then insert (sc_domain sc) used else used) scs"

lemma leaders_append: "leaders used (xs @ ys) = leaders used xs @ leaders (seen used xs) ys"
  by (induction xs arbitrary: used) (auto simp: insert_absorb)

lemma followers_append: "followers used (xs @ ys) = followers used xs @ followers (seen used xs) ys"
  by (induction xs arbitrary: used) (auto simp: insert_absorb)

text \<open>The shapes of the preference list before and after a peer is removed.\<close>

lemma preference_remove:
  obtains (leader) x l t f l' f' where
      "preference (xs @ p # ys) = x @ p # l @ t @ f" "preference (xs @ ys) = x @ l' @ t @ f'"
      "promoted l f l' f'"
    | (follower) x y where
      "preference (xs @ p # ys) = x @ p # y" "preference (xs @ ys) = x @ y"
proof -
  let ?u = "seen {} xs"
  let ?u' = "if sc_domain p \<noteq> [] then insert (sc_domain p) ?u else ?u"
  show ?thesis
  proof (cases "sc_domain p \<noteq> [] \<and> sc_domain p \<in> ?u")
    case True
    then show ?thesis
      by (intro follower [of "leaders {} (xs @ ys) @ followers {} xs" "followers ?u ys"])
        (simp_all add: preference_def leaders_append followers_append)
  next
    case False
    have pr: "promoted (leaders ?u' ys) (followers ?u' ys) (leaders ?u ys) (followers ?u ys)"
      by (auto simp: promote_one) (simp add: promoted_def)
    show ?thesis
      by (rule leader [OF _ _ pr, of "leaders {} xs" "followers {} xs"])
        (use False in \<open>auto simp: preference_def leaders_append followers_append\<close>)
  qed
qed

lemma take_preference_remove:
  shows "set (take n (preference (xs @ p # ys))) - {p} \<subseteq> set (take n (preference (xs @ ys)))"
    and "p \<notin> set (take n (preference (xs @ p # ys))) \<Longrightarrow>
         take n (preference (xs @ p # ys)) = take n (preference (xs @ ys))"
proof -
  show "set (take n (preference (xs @ p # ys))) - {p} \<subseteq> set (take n (preference (xs @ ys)))"
  proof (cases rule: preference_remove [of xs p ys])
    case leader
    show ?thesis unfolding leader(1,2) by (rule take_promote [OF leader(3)])
  next
    case follower
    show ?thesis unfolding follower by (rule take_shift)
  qed
  assume p: "p \<notin> set (take n (preference (xs @ p # ys)))"
  show "take n (preference (xs @ p # ys)) = take n (preference (xs @ ys))"
  proof (cases rule: preference_remove [of xs p ys])
    case (leader x l t f l' f')
    from p have "n \<le> length x" unfolding leader(1) by (rule take_before)
    then show ?thesis unfolding leader(1,2) by simp
  next
    case (follower x y)
    from p have "n \<le> length x" unfolding follower(1) by (rule take_before)
    then show ?thesis unfolding follower by simp
  qed
qed

section \<open>Properties of the assignment\<close>

lemma ring_preference_remove:
  assumes inv: "ring_inv r" and p: "p \<in> set (hr_peers r)"
  obtains xs q ys where "sc_peer q = p" "ring_preference r mb = preference (xs @ q # ys)"
    "ring_preference (RemovePeer p r) mb = preference (xs @ ys)"
proof -
  let ?s = "sort_Slice scored_less (ring_scores r mb)"
  have "sc_peer ` set (ring_scores r mb) = set (hr_peers r)"
    by (metis list.set_map map_sc_peer_ring_scores)
  then have "p \<in> sc_peer ` set ?s" using p by simp
  then obtain q where "q \<in> set ?s" and q: "sc_peer q = p" by blast
  then obtain xs ys where s: "?s = xs @ q # ys" by (meson split_list)
  have "mset (map sc_peer ?s) = mset (hr_peers r)" by (simp add: peers_of_ring_scores)
  from mset_eq_imp_distinct_iff [OF this] inv have "distinct (map sc_peer ?s)"
    by (simp add: ring_inv_def)
  then have "p \<notin> sc_peer ` set xs" "p \<notin> sc_peer ` set ys" unfolding s by (simp_all add: q)
  then have "filter (\<lambda>sc. sc_peer sc \<noteq> p) xs = xs" "filter (\<lambda>sc. sc_peer sc \<noteq> p) ys = ys"
    by (auto simp: filter_id_conv)
  then have "filter (\<lambda>sc. sc_peer sc \<noteq> p) ?s = xs @ ys" by (simp add: s q)
  then show ?thesis
    using that [OF q, of xs ys] by (simp add: ring_preference_def sorted_filter_scores [OF inv] s)
qed

lemma Assign_props:
  assumes inv: "ring_inv r" and ok: "Assign L r m n = Inr ps"
  shows "length ps = min (nat n) (length (hr_peers r))" "distinct ps" "set ps \<subseteq> set (hr_peers r)"
proof -
  let ?q = "map sc_peer (ring_preference r (bytes_of_string (MID_String L m)))"
  have ps: "ps = take (nat n) ?q" using Assign_preference [OF ok] by (simp add: take_map)
  have q: "mset ?q = mset (hr_peers r)" by (rule mset_peers_preference)
  have "length ?q = length (hr_peers r)" using q by (rule mset_eq_length)
  then show "length ps = min (nat n) (length (hr_peers r))" unfolding ps by simp
  show "distinct ps"
    using inv mset_eq_imp_distinct_iff [OF q] unfolding ps by (simp add: ring_inv_def)
  show "set ps \<subseteq> set (hr_peers r)"
    unfolding ps using set_take_subset [of "nat n" ?q] mset_eq_setD [OF q] by simp
qed

lemma Assign_Inr:
  "\<not> IsZero m \<Longrightarrow> 1 \<le> n \<Longrightarrow> n \<le> 64 \<Longrightarrow> hr_peers r \<noteq> [] \<Longrightarrow>
   Assign L r m n =
     Inr (map sc_peer (take (nat n) (ring_preference r (bytes_of_string (MID_String L m)))))"
  using Assign_ok_iff [of L r m n] Assign_preference [of L r m n] by (auto simp: is_ok_iff)

text \<open>A ring and a MID for the witnesses: five peers, three of them in one rack.\<close>

definition demo_ring :: HashRing where
  "demo_ring = fold (\<lambda>(p, d). AddPeerWithDomain p d)
     [(''a'', ''r1''), (''b'', ''r1''), (''c'', ''r2''), (''d'', []), (''e'', ''r1'')] NewHashRing"

definition demo_ring_mid :: MID where
  "demo_ring_mid = MID_zero\<lparr>m_Hash := [18, 1], m_str := ''memx''\<rparr>"

lemma demo_ring_inv: "ring_inv demo_ring"
  by (simp add: demo_ring_def AddPeerWithDomain_inv NewHashRing_inv)

lemma demo_ring_peers: "hr_peers demo_ring = [''a'', ''b'', ''c'', ''d'', ''e'']"
  by (simp add: demo_ring_def NewHashRing_def AddPeerWithDomain_def)

lemma demo_ring_domains:
  "hr_domains demo_ring =
     [''a'' \<mapsto> ''r1'', ''b'' \<mapsto> ''r1'', ''c'' \<mapsto> ''r2'', ''d'' \<mapsto> [], ''e'' \<mapsto> ''r1'']"
  by (simp add: demo_ring_def NewHashRing_def AddPeerWithDomain_def)

lemma demo_ring_mid_nz: "\<not> IsZero demo_ring_mid"
  by (simp add: IsZero_def demo_ring_mid_def)

text \<open>
  Property C31. Bounds of an assignment: it fails exactly for a zero MID, a replica count outside
  1..64 or an empty ring; otherwise it returns distinct peers of the ring, as many as asked for,
  or all of them when the ring is smaller.
\<close>

theorem assign_bounds:
  assumes "ring_inv r"
  shows "case Assign L r m n of
           Inl e \<Rightarrow> IsZero m \<or> n < 1 \<or> 64 < n \<or> hr_peers r = []
         | Inr ps \<Rightarrow> \<not> IsZero m \<and> 1 \<le> n \<and> n \<le> 64 \<and>
             length ps = min (nat n) (length (hr_peers r)) \<and> distinct ps \<and>
             set ps \<subseteq> set (hr_peers r)"
proof (cases "Assign L r m n")
  case (Inl e)
  with Assign_ok_iff [of L r m n] show ?thesis by auto
next
  case (Inr ps)
  with Assign_ok_iff [of L r m n] Assign_props [OF assms Inr] show ?thesis by simp
qed

theorem assign_bounds_witness:
  "case Assign demo_lib demo_ring demo_ring_mid 3 of
     Inl e \<Rightarrow> False
   | Inr ps \<Rightarrow> length ps = 3 \<and> distinct ps \<and> set ps \<subseteq> {''a'', ''b'', ''c'', ''d'', ''e''}"
  using assign_bounds [OF demo_ring_inv, where L = demo_lib and m = demo_ring_mid and n = 3]
  by (auto simp: demo_ring_peers demo_ring_mid_nz split: sum.splits)

text \<open>
  Property C32. The assignment depends only on the set of peers and their failure domains: nodes
  that learned of the same peers in different orders, through any history of joins and leaves,
  agree on the owners of every MID and on their order.
\<close>

theorem assign_order_independent:
  assumes "ring_inv r" "ring_inv r'"
    and "set (hr_peers r) = set (hr_peers r')" "hr_domains r = hr_domains r'"
  shows "Assign L r m n = Assign L r' m n"
proof -
  have nil: "hr_peers r = [] \<longleftrightarrow> hr_peers r' = []" using assms(3) by (metis set_empty)
  have pref: "ring_preference r mb = ring_preference r' mb" for mb
    by (rule ring_preference_cong [OF assms])
  show ?thesis
  proof (cases "is_ok (Assign L r m n)")
    case True
    with nil show ?thesis by (simp add: Assign_ok_iff Assign_Inr pref)
  next
    case False
    with nil show ?thesis
      unfolding Assign_ok_iff by (auto simp: Assign_def MinReplicas_def MaxReplicas_def)
  qed
qed

theorem assign_order_independent_witness:
  "Assign demo_lib (AddPeer ''x'' (AddPeer ''y'' NewHashRing)) demo_ring_mid 2 =
   Assign demo_lib (AddPeer ''y'' (AddPeer ''x'' NewHashRing)) demo_ring_mid 2"
  by (rule assign_order_independent)
    (simp_all add: AddPeer_inv NewHashRing_inv, auto simp: AddPeer_def AddPeerWithDomain_def NewHashRing_def)

section \<open>Failure domains\<close>

text \<open>The independent groups of a ring: its failure domains, and every peer without one.\<close>

definition ring_groups :: "HashRing \<Rightarrow> nat" where
  "ring_groups r =
     card {d \<in> ran (hr_domains r). d \<noteq> []} +
     length (filter (\<lambda>p. hr_domains r p = Some []) (hr_peers r))"

lemma leaders_domain: "sc \<in> set (leaders used scs) \<Longrightarrow> sc_domain sc = [] \<or> sc_domain sc \<notin> used"
  by (induction scs arbitrary: used) (fastforce split: if_splits)+

lemma leaders_separate:
  "x \<in> set (leaders used scs) \<Longrightarrow> y \<in> set (leaders used scs) \<Longrightarrow>
   sc_domain x = sc_domain y \<Longrightarrow> sc_domain x \<noteq> [] \<Longrightarrow> x = y"
  by (induction scs arbitrary: used) (auto split: if_splits dest: leaders_domain)

lemma length_leaders:
  "finite used \<Longrightarrow>
   length (leaders used scs) =
     card ((sc_domain ` set scs - {[]}) - used) + length (filter (\<lambda>sc. sc_domain sc = []) scs)"
proof (induction scs arbitrary: used)
  case (Cons x xs)
  let ?D = "sc_domain ` set xs - {[]} - used"
  consider (skip) "sc_domain x \<noteq> []" "sc_domain x \<in> used" | (none) "sc_domain x = []"
    | (new) "sc_domain x \<noteq> []" "sc_domain x \<notin> used" by blast
  then show ?case
  proof cases
    case new
    have "sc_domain ` set (x # xs) - {[]} - used =
        insert (sc_domain x) (sc_domain ` set xs - {[]} - insert (sc_domain x) used)"
      using new by auto
    with new Cons show ?thesis by simp
  qed (use Cons in \<open>simp_all add: insert_Diff_if\<close>)
qed simp

lemma ring_scores_domain:
  "sc \<in> set (ring_scores r mb) \<Longrightarrow>
   sc_domain sc = (case hr_domains r (sc_peer sc) of None \<Rightarrow> [] | Some d \<Rightarrow> d)"
  by (auto simp: ring_scores_def)

lemma ring_groups_leaders:
  assumes "ring_inv r"
  shows "length (leaders {} (sort_Slice scored_less (ring_scores r mb))) = ring_groups r"
proof -
  let ?dom = "\<lambda>p. case hr_domains r p of None \<Rightarrow> [] | Some d \<Rightarrow> d"
  have dom: "dom (hr_domains r) = set (hr_peers r)" using assms by (simp add: ring_inv_def)
  have "?dom ` set (hr_peers r) = ran (hr_domains r)"
    unfolding dom [symmetric] by (force simp: ran_def image_def)
  then have doms: "sc_domain ` set (ring_scores r mb) - {[]} = {d \<in> ran (hr_domains r). d \<noteq> []}"
    by (auto simp: ring_scores_def image_image)
  have "length (filter (\<lambda>sc. sc_domain sc = []) (sort_Slice scored_less (ring_scores r mb))) =
      length (filter (\<lambda>sc. sc_domain sc = []) (ring_scores r mb))"
    by (metis mset_eq_length mset_filter mset_sort_Slice)
  also have "\<dots> = length (filter (\<lambda>p. ?dom p = []) (hr_peers r))"
    by (simp add: ring_scores_def filter_map comp_def)
  also have "filter (\<lambda>p. ?dom p = []) (hr_peers r) = filter (\<lambda>p. hr_domains r p = Some []) (hr_peers r)"
    using dom by (intro filter_cong) (auto split: option.splits)
  finally show ?thesis by (simp add: length_leaders doms ring_groups_def)
qed

text \<open>
  Property C33. Whenever the ring has at least as many independent groups (failure domains, and
  peers without one) as replicas are asked for, no two owners of a MID share a failure domain, so
  the loss of one domain costs at most one replica.
\<close>

theorem assign_domain_diversity:
  assumes inv: "ring_inv r" and ok: "Assign L r m n = Inr ps" and groups: "nat n \<le> ring_groups r"
    and owners: "p \<in> set ps" "q \<in> set ps" and shared: "hr_domains r p = Some d" "hr_domains r q = Some d" "d \<noteq> []"
  shows "p = q"
proof -
  let ?s = "sort_Slice scored_less (ring_scores r (bytes_of_string (MID_String L m)))"
  have "ps = map sc_peer (take (nat n) (leaders {} ?s))"
    using Assign_preference [OF ok] groups ring_groups_leaders [OF inv]
    by (simp add: ring_preference_def preference_def)
  then obtain x y where x: "x \<in> set (leaders {} ?s)" "sc_peer x = p"
    and y: "y \<in> set (leaders {} ?s)" "sc_peer y = q"
    using owners by (auto dest!: in_set_takeD)
  have "set (leaders {} ?s) \<subseteq> set (ring_scores r (bytes_of_string (MID_String L m)))"
    using mset_leaders_followers [of "{}" ?s] by (metis set_mset_mset set_mset_union set_sort_Slice sup_ge1)
  then have "sc_domain x = d" "sc_domain y = d"
    using x y shared ring_scores_domain by (metis (no_types, lifting) option.simps(5) subsetD)+
  with leaders_separate [OF x(1) y(1)] x y shared show ?thesis by simp
qed

theorem assign_domain_diversity_witness:
  "\<exists>ps. Assign demo_lib demo_ring demo_ring_mid 3 = Inr ps \<and> \<not> {''a'', ''b''} \<subseteq> set ps"
proof -
  have "ran (hr_domains demo_ring) = {''r1'', ''r2'', []}" unfolding demo_ring_domains by (simp, blast)
  then have "{d \<in> ran (hr_domains demo_ring). d \<noteq> []} = {''r1'', ''r2''}" by auto
  then have groups: "ring_groups demo_ring = 3"
    by (simp add: ring_groups_def demo_ring_peers demo_ring_domains)
  obtain ps where ps: "Assign demo_lib demo_ring demo_ring_mid 3 = Inr ps"
    using Assign_Inr [OF demo_ring_mid_nz, of 3 demo_ring] by (auto simp: demo_ring_peers)
  have "''a'' \<notin> set ps \<or> ''b'' \<notin> set ps"
    using assign_domain_diversity [OF demo_ring_inv ps, of "''a''" "''b''" "''r1''"]
    by (auto simp: groups demo_ring_domains)
  with ps show ?thesis by auto
qed

section \<open>Membership changes\<close>

lemma assign_owners_stay:
  assumes inv: "ring_inv r" and before: "Assign L r m n = Inr ps"
    and after: "Assign L (RemovePeer p r) m n = Inr qs"
  shows "set ps - {p} \<subseteq> set qs \<and> (p \<notin> set ps \<longrightarrow> qs = ps)"
proof (cases "p \<in> set (hr_peers r)")
  case True
  let ?mb = "bytes_of_string (MID_String L m)"
  obtain xs q ys where q: "sc_peer q = p" "ring_preference r ?mb = preference (xs @ q # ys)"
      "ring_preference (RemovePeer p r) ?mb = preference (xs @ ys)"
    by (rule ring_preference_remove [OF inv True])
  have ps: "ps = map sc_peer (take (nat n) (preference (xs @ q # ys)))"
    and qs: "qs = map sc_peer (take (nat n) (preference (xs @ ys)))"
    using Assign_preference [OF before] Assign_preference [OF after] q by simp_all
  have "set (take (nat n) (preference (xs @ q # ys))) - {q} \<subseteq> set (take (nat n) (preference (xs @ ys)))"
    by (rule take_preference_remove)
  moreover have "qs = ps" if "p \<notin> set ps"
    using that take_preference_remove(2) [of q "nat n" xs ys] q(1) by (force simp: ps qs)
  ultimately show ?thesis using q(1) by (auto simp: ps qs)
next
  case False
  then have "hr_domains r p = None" using inv by (auto simp: ring_inv_def)
  then have "RemovePeer p r = r" using False by (simp add: RemovePeer_def remove1_idem fun_upd_idem)
  with before after show ?thesis by simp
qed

text \<open>
  Property C20. Minimal disruption, failure domains included: when a peer leaves, every other owner
  of a MID stays an owner, and a MID the peer did not own keeps exactly its owners in their order.
\<close>

theorem assign_minimal_disruption:
  assumes inv: "ring_inv r" and before: "Assign L r m n = Inr ps"
    and after: "Assign L (RemovePeer p r) m n = Inr qs"
  shows "set ps - {p} \<subseteq> set qs \<and> (p \<notin> set ps \<longrightarrow> qs = ps)"
  using assms by (rule assign_owners_stay)

theorem assign_minimal_disruption_witness:
  "\<exists>ps qs. Assign demo_lib demo_ring demo_ring_mid 2 = Inr ps \<and>
     Assign demo_lib (RemovePeer ''c'' demo_ring) demo_ring_mid 2 = Inr qs \<and> set ps - {''c''} \<subseteq> set qs"
proof -
  obtain ps where ps: "Assign demo_lib demo_ring demo_ring_mid 2 = Inr ps"
    using Assign_Inr [OF demo_ring_mid_nz, of 2 demo_ring] by (auto simp: demo_ring_peers)
  obtain qs where qs: "Assign demo_lib (RemovePeer ''c'' demo_ring) demo_ring_mid 2 = Inr qs"
    using Assign_Inr [OF demo_ring_mid_nz, of 2 "RemovePeer ''c'' demo_ring"]
    by (auto simp: demo_ring_peers RemovePeer_def)
  from assign_minimal_disruption [OF demo_ring_inv ps qs] ps qs show ?thesis by blast
qed

lemma migration_loop_filter:
  "migration_loop L (Some r) nr self n mids (g, l) =
     (g @ filter (\<lambda>m. \<not> IsOwner L r self m n \<and> IsOwner L nr self m n) mids,
      l @ filter (\<lambda>m. IsOwner L r self m n \<and> \<not> IsOwner L nr self m n) mids)"
  by (induction mids arbitrary: g l) (auto simp: Let_def)

text \<open>
  Migration after a departure: a node that stays never has to drop a MID because
  another peer left, and the MIDs it gains are exactly those it owns now and did not own before.
\<close>

theorem migration_after_leave:
  assumes inv: "ring_inv r" and other: "p \<noteq> self" "self \<in> set (hr_peers r)"
  shows "ComputeMigration L (Some r) (Some (RemovePeer p r)) self mids n =
           (filter (\<lambda>m. \<not> IsOwner L r self m n \<and> IsOwner L (RemovePeer p r) self m n) mids, [])"
proof -
  have self: "self \<noteq> []" using inv other by (auto simp: ring_inv_def)
  have "IsOwner L (RemovePeer p r) self m n" if own: "IsOwner L r self m n" for m
  proof -
    obtain ps where ps: "Assign L r m n = Inr ps" "self \<in> set ps" "\<not> IsZero m"
      using own by (auto simp: IsOwner_def split: if_splits sum.splits)
    have "self \<in> set (hr_peers (RemovePeer p r))"
      using other by (simp add: RemovePeer_peers [OF inv])
    then have "is_ok (Assign L (RemovePeer p r) m n)"
      using ps Assign_ok_iff [of L r m n] by (auto simp: Assign_ok_iff)
    then obtain qs where qs: "Assign L (RemovePeer p r) m n = Inr qs" by (auto simp: is_ok_iff)
    have "set ps - {p} \<subseteq> set qs"
      using assign_owners_stay [OF inv ps(1) qs] by simp
    with ps qs other self show ?thesis by (auto simp: IsOwner_def)
  qed
  then have "filter (\<lambda>m. IsOwner L r self m n \<and> \<not> IsOwner L (RemovePeer p r) self m n) mids = []"
    by (simp add: filter_empty_conv)
  then show ?thesis using self by (simp add: ComputeMigration_def migration_loop_filter)
qed

theorem migration_after_leave_witness:
  "snd (ComputeMigration demo_lib (Some demo_ring) (Some (RemovePeer ''c'' demo_ring)) ''a''
     [demo_ring_mid] 2) = []"
  by (simp add: migration_after_leave [OF demo_ring_inv] demo_ring_peers)

section \<open>The peer list survives a restart\<close>

definition ascii :: "string \<Rightarrow> bool" where
  "ascii s = list_all (\<lambda>c. of_char c < (128 :: nat)) s"

text \<open>
  What the code relies on: a key reads back the value last written to it, and JSON round-trips
  lists of ASCII strings (peer IDs are base58 text).
\<close>

definition ring_env_ok :: "'s ring_env \<Rightarrow> bool" where
  "ring_env_ok E \<longleftrightarrow>
     (\<forall>s k v s'. kv_set E s k v = (None, s') \<longrightarrow> kv_get E s' k = Inr v) \<and>
     (\<forall>ps d. list_all ascii ps \<longrightarrow> json_enc E ps = Inr d \<longrightarrow> json_dec E d = Inr ps)"

lemma fold_AddPeer:
  "distinct (hr_peers r @ ps) \<Longrightarrow> [] \<notin> set ps \<Longrightarrow>
   fold AddPeer ps r =
     \<lparr>hr_peers = hr_peers r @ ps,
      hr_domains = (\<lambda>p. if p \<in> set ps then Some [] else hr_domains r p)\<rparr>"
proof (induction ps arbitrary: r)
  case (Cons p ps)
  have "AddPeer p r = \<lparr>hr_peers = hr_peers r @ [p], hr_domains = (hr_domains r)(p \<mapsto> [])\<rparr>"
    using Cons.prems by (auto simp: AddPeer_def AddPeerWithDomain_def)
  with Cons show ?case by (auto simp: fun_eq_iff)
qed simp

fun split_255 :: "bytes \<Rightarrow> bytes \<Rightarrow> string list" where
  "split_255 acc [] = []"
| "split_255 acc (b # bs) =
     (if b = 255 then string_of_bytes acc # split_255 [] bs else split_255 (acc @ [b]) bs)"

definition demo_env :: "(bytes \<rightharpoonup> bytes) ring_env" where
  "demo_env =
     \<lparr>kv_get = (\<lambda>s k. case s k of None \<Rightarrow> Inl db_ErrNotFound | Some v \<Rightarrow> Inr v),
      kv_set = (\<lambda>s k v. (None, s(k \<mapsto> v))),
      json_enc = (\<lambda>ps. Inr (concat (map (\<lambda>p. bytes_of_string p @ [255]) ps))),
      json_dec = (\<lambda>d. Inr (split_255 [] d))\<rparr>"

lemma split_255_one:
  "ascii p \<Longrightarrow> split_255 acc (bytes_of_string p @ 255 # rest) =
     (string_of_bytes acc @ p) # split_255 [] rest"
proof (induction p arbitrary: acc)
  case (Cons c p)
  have "unat (byte_of_char c) < 128"
    using Cons.prems by (simp add: ascii_def byte_of_char_def unat_of_nat)
  then have "byte_of_char c \<noteq> 255" by auto
  with Cons show ?case by (simp add: bytes_of_string_def string_of_bytes_def ascii_def)
qed (simp add: bytes_of_string_def)

lemma demo_env_ok: "ring_env_ok demo_env"
proof -
  have "split_255 [] (concat (map (\<lambda>p. bytes_of_string p @ [255]) ps)) = ps" if "list_all ascii ps" for ps
    using that by (induction ps) (simp_all add: split_255_one)
  then show ?thesis by (auto simp: ring_env_ok_def demo_env_def)
qed

text \<open>
  Saving the peers of a ring and loading them into a fresh one restores the peers in
  their order. The failure domains are not saved: every peer comes back without one.
\<close>

theorem ring_persist_roundtrip:
  assumes env: "ring_env_ok E" and inv: "ring_inv r" and plain: "list_all ascii (hr_peers r)"
    and saved: "PersistPeers E (Some s) (Peers r) = (None, Some s')"
  shows "LoadPeers E (Some s') (Some NewHashRing) =
           (None, Some \<lparr>hr_peers = hr_peers r,
                        hr_domains = (\<lambda>p. if p \<in> set (hr_peers r) then Some [] else None)\<rparr>)"
proof -
  obtain d where d: "json_enc E (hr_peers r) = Inr d" "kv_set E s keyRingPeers d = (None, s')"
    using saved by (auto simp: PersistPeers_def Peers_def split: sum.splits prod.splits)
  have "kv_get E s' keyRingPeers = Inr d" "json_dec E d = Inr (hr_peers r)"
    using env d plain unfolding ring_env_ok_def by blast+
  moreover have "distinct (hr_peers r)" "[] \<notin> set (hr_peers r)"
    using inv by (simp_all add: ring_inv_def)
  ultimately show ?thesis
    by (simp add: LoadPeers_def fold_AddPeer NewHashRing_def cong: if_cong)
qed

theorem ring_persist_roundtrip_witness:
  "\<exists>s'. LoadPeers demo_env (Some s') (Some NewHashRing) =
     (None, Some \<lparr>hr_peers = [''a'', ''b'', ''c'', ''d'', ''e''],
        hr_domains = (\<lambda>p. if p \<in> {''a'', ''b'', ''c'', ''d'', ''e''} then Some [] else None)\<rparr>)"
proof -
  obtain s' where "PersistPeers demo_env (Some Map.empty) (Peers demo_ring) = (None, Some s')"
    by (simp add: PersistPeers_def demo_env_def)
  moreover have "list_all ascii (hr_peers demo_ring)" unfolding demo_ring_peers by code_simp
  ultimately show ?thesis
    using ring_persist_roundtrip [OF demo_env_ok demo_ring_inv] by (auto simp: demo_ring_peers)
qed

end
