(* ===== verification/GoStrings.thy ===== *)
theory GoStrings
  imports Mid "HOL-Library.List_Lexorder" "HOL-Library.Char_ord" "HOL-Library.Product_Lexorder"
begin

text \<open>
  What the program uses of the standard packages strings, strconv, encoding/base64 and math/big:
  TrimSpace with its Unicode spaces, Index, Contains, Split, Atoi with its range errors, the
  standard base64 alphabet with padding, and the base-36 text of a natural number. Strings are
  byte strings.
\<close>

section \<open>Package strings\<close>

text \<open>The white space runes of unicode.IsSpace in UTF-8.\<close>

definition space_runes :: "nat list list" where
  "space_runes =
     [[9], [10], [11], [12], [13], [32], [0xC2, 0x85], [0xC2, 0xA0], [0xE1, 0x9A, 0x80],
      [0xE2, 0x80, 0xA8], [0xE2, 0x80, 0xA9], [0xE2, 0x80, 0xAF], [0xE2, 0x81, 0x9F],
      [0xE3, 0x80, 0x80]] @ map (\<lambda>b. [0xE2, 0x80, b]) [0x80..<0x8B]"

definition is_prefix :: "'a list \<Rightarrow> 'a list \<Rightarrow> bool" where
  "is_prefix p s = (take (length p) s = p)"

fun strip_prefixes :: "nat \<Rightarrow> 'a list list \<Rightarrow> 'a list \<Rightarrow> 'a list" where
  "strip_prefixes 0 ps s = s"
| "strip_prefixes (Suc n) ps s =
     (case find (\<lambda>p. is_prefix p s) ps of
        None \<Rightarrow> s
      | Some p \<Rightarrow> strip_prefixes n ps (drop (length p) s))"

definition TrimSpace :: "string \<Rightarrow> string" where
  "TrimSpace s =
     (let runes = map (map char_of) space_runes;
          t = strip_prefixes (length s) runes s
      in rev (strip_prefixes (length t) (map rev runes) (rev t)))"

fun Index :: "string \<Rightarrow> string \<Rightarrow> nat option" where
  "Index [] sub = (if sub = [] then Some 0 else None)"
| "Index (c # cs) sub =
     (if is_prefix sub (c # cs) then Some 0 else map_option Suc (Index cs sub))"

definition Contains :: "string \<Rightarrow> string \<Rightarrow> bool" where
  "Contains s sub = (Index s sub \<noteq> None)"

fun Split :: "char \<Rightarrow> string \<Rightarrow> string list" where
  "Split sep [] = [[]]"
| "Split sep (c # cs) =
     (if c = sep then [] # Split sep cs
      else case Split sep cs of [] \<Rightarrow> [[c]] | w # ws \<Rightarrow> (c # w) # ws)"

lemma Index_Some: "Index s sub = Some i \<Longrightarrow> i + length sub \<le> length s \<and> take (length sub) (drop i s) = sub"
proof (induction s arbitrary: i)
  case (Cons c cs)
  show ?case
  proof (cases "is_prefix sub (c # cs)")
    case True
    then have "take (length sub) (c # cs) = sub" by (simp add: is_prefix_def)
    moreover from this have "length sub \<le> length (c # cs)" by (metis length_take min.cobounded1)
    ultimately show ?thesis using True Cons.prems by simp
  next
    case False
    with Cons.prems obtain j where "Index cs sub = Some j" "i = Suc j" by auto
    with Cons.IH [of j] show ?thesis by simp
  qed
qed (auto split: if_splits)

lemma Split_not_Nil [simp]: "Split sep s \<noteq> []"
  by (induction s) (auto split: list.splits)

lemma Split_single: "sep \<notin> set s \<Longrightarrow> Split sep s = [s]"
  by (induction s) auto

section \<open>Package strconv\<close>

definition is_digit :: "char \<Rightarrow> bool" where
  "is_digit c = (CHR ''0'' \<le> c \<and> c \<le> CHR ''9'')"

definition digit_val :: "char \<Rightarrow> int" where
  "digit_val c = int (of_char c) - 48"

definition decimal :: "string \<Rightarrow> int" where
  "decimal ds = foldl (\<lambda>n c. 10 * n + digit_val c) 0 ds"

text \<open>
  Atoi returns the number and whether an error was reported: 0 on a syntax error, the nearest
  representable 64-bit number when the digits are out of range.
\<close>

definition Atoi :: "string \<Rightarrow> int \<times> bool" where
  "Atoi s =
     (let neg = (case s of c # _ \<Rightarrow> c = CHR ''-'' | [] \<Rightarrow> False);
          ds = (case s of c # cs \<Rightarrow> if c = CHR ''-'' \<or> c = CHR ''+'' then cs else s | [] \<Rightarrow> s)
      in if ds = [] \<or> \<not> list_all is_digit ds then (0, True)
         else if neg
         then (if decimal ds > 2 ^ 63 then (- (2 ^ 63), True) else (- decimal ds, False))
         else (if decimal ds \<ge> 2 ^ 63 then (2 ^ 63 - 1, True) else (decimal ds, False)))"

section \<open>Package math/big\<close>

text \<open>big.Int.SetBytes and big.Int.Text(36).\<close>

definition SetBytes :: "bytes \<Rightarrow> nat" where
  "SetBytes bs = foldl (\<lambda>n b. 256 * n + unat b) 0 bs"

definition digit36 :: "nat \<Rightarrow> char" where
  "digit36 d = (if d < 10 then char_of (48 + d) else char_of (87 + d))"

fun Text36 :: "nat \<Rightarrow> string" where
  "Text36 n = (if n < 36 then [digit36 n] else Text36 (n div 36) @ [digit36 (n mod 36)])"

declare Text36.simps [simp del]

section \<open>Package encoding/base64, standard encoding\<close>

definition b64_char :: "nat \<Rightarrow> char" where
  "b64_char d =
     (if d < 26 then char_of (65 + d) else if d < 52 then char_of (71 + d)
      else if d < 62 then char_of (d - 4) else if d = 62 then CHR ''+'' else CHR ''/'')"

definition b64_val :: "char \<Rightarrow> nat option" where
  "b64_val c =
     (let n = of_char c :: nat
      in if 65 \<le> n \<and> n \<le> 90 then Some (n - 65)
         else if 97 \<le> n \<and> n \<le> 122 then Some (n - 71)
         else if 48 \<le> n \<and> n \<le> 57 then Some (n + 4)
         else if c = CHR ''+'' then Some 62 else if c = CHR ''/'' then Some 63 else None)"

fun b64_encode :: "bytes \<Rightarrow> string" where
  "b64_encode [] = []"
| "b64_encode [a] =
     [b64_char (unat a div 4), b64_char (unat a mod 4 * 16), CHR ''='', CHR ''='']"
| "b64_encode [a, b] =
     [b64_char (unat a div 4), b64_char (unat a mod 4 * 16 + unat b div 16),
      b64_char (unat b mod 16 * 4), CHR ''='']"
| "b64_encode (a # b # c # bs) =
     [b64_char (unat a div 4), b64_char (unat a mod 4 * 16 + unat b div 16),
      b64_char (unat b mod 16 * 4 + unat c div 64), b64_char (unat c mod 64)] @ b64_encode bs"

text \<open>
  Decoding works on groups of four characters; the padding may only close the last group. Unused
  low bits of the last digit are ignored (the decoder is not strict) and line breaks are skipped.
\<close>

fun b64_groups :: "string \<Rightarrow> bytes option" where
  "b64_groups [] = Some []"
| "b64_groups (p # q # r # s # cs) =
     (case (b64_val p, b64_val q) of
        (Some x, Some y) \<Rightarrow>
          if r = CHR ''='' then
            (if s = CHR ''='' \<and> cs = [] then Some [word_of_nat (x * 4 + y div 16)] else None)
          else
            (case b64_val r of
               None \<Rightarrow> None
             | Some z \<Rightarrow>
                 if s = CHR ''='' then
                   (if cs = []
                    then Some [word_of_nat (x * 4 + y div 16), word_of_nat (y mod 16 * 16 + z div 4)]
                    else None)
                 else
                   (case (b64_val s, b64_groups cs) of
                      (Some w, Some bs) \<Rightarrow>
                        Some (word_of_nat (x * 4 + y div 16) # word_of_nat (y mod 16 * 16 + z div 4) #
                              word_of_nat (z mod 4 * 64 + w) # bs)
                    | _ \<Rightarrow> None))
      | _ \<Rightarrow> None)"
| "b64_groups _ = None"

definition b64_decode :: "string \<Rightarrow> bytes option" where
  "b64_decode s = b64_groups (filter (\<lambda>c. c \<noteq> CHR 0x0A \<and> c \<noteq> CHR 0x0D) s)"

lemma b64_val_char [simp]: "d < 64 \<Longrightarrow> b64_val (b64_char d) = Some d"
  by (auto simp: b64_val_def b64_char_def Let_def)

lemma b64_char_clean [simp]:
  assumes "d < 64"
  shows "b64_char d \<noteq> CHR 0x0A" "b64_char d \<noteq> CHR 0x0D" "b64_char d \<noteq> CHR ''=''"
  using b64_val_char [OF assms] by (auto simp: b64_val_def Let_def split: if_splits)

lemma unat_byte_less [simp]: "unat (b :: byte) < 256"
  using unsigned_less [of b] by simp

lemma b64_digits [simp]:
  fixes a b c :: byte
  shows "unat a div 4 < 64" "unat a mod 4 * 16 < 64" "unat b mod 16 * 4 < 64" "unat c mod 64 < 64"
    "unat a mod 4 * 16 + unat b div 16 < 64" "unat b mod 16 * 4 + unat c div 64 < 64"
  using unat_byte_less [of a] unat_byte_less [of b] unat_byte_less [of c] by linarith+

lemma b64_high [simp]:
  fixes b c :: byte
  shows "unat b div 16 div 16 = 0" "unat b div 16 mod 16 = unat b div 16"
    "unat c div 64 div 4 = 0" "unat c div 64 mod 4 = unat c div 64"
  using unat_byte_less [of b] unat_byte_less [of c]
  by (simp_all add: less_mult_imp_div_less mod_less)

lemma word_div_mod:
  "word_of_nat (unat b div n) * word_of_nat n + word_of_nat (unat b mod n) = (b :: byte)"
proof -
  have "word_of_nat (unat b div n * n + unat b mod n) = b" by (simp only: div_mult_mod_eq) simp
  then show ?thesis by (simp only: of_nat_add of_nat_mult)
qed

lemma b64_join [simp]:
  fixes a b c :: byte
  shows "word_of_nat (unat a div 4) * 4 + word_of_nat (unat a mod 4) = a"
    "word_of_nat (unat b div 16) * 16 + word_of_nat (unat b mod 16) = b"
    "word_of_nat (unat c div 64) * 64 + word_of_nat (unat c mod 64) = c"
  using word_div_mod [of a 4] word_div_mod [of b 16] word_div_mod [of c 64] by simp_all

lemma b64_groups_encode: "b64_groups (b64_encode bs) = Some bs"
  by (induction bs rule: b64_encode.induct) simp_all

lemma b64_encode_clean: "filter (\<lambda>c. c \<noteq> CHR 0x0A \<and> c \<noteq> CHR 0x0D) (b64_encode bs) = b64_encode bs"
  by (induction bs rule: b64_encode.induct) simp_all

lemma b64_decode_encode [simp]: "b64_decode (b64_encode bs) = Some bs"
  by (simp add: b64_decode_def b64_encode_clean b64_groups_encode)

end
