(* ===== verification/Semver.thy ===== *)
theory Semver
  imports GoStrings
begin

text \<open>
  The version comparison of the desktop application's updater, src/desktop/semver.go: parsing of
  version strings and the precedence of Semantic Versioning, with pre-releases compared identifier
  by identifier.
\<close>

record SemVer =
  sv_Major :: int
  sv_Minor :: int
  sv_Patch :: int
  sv_Prerelease :: string

definition SemVer_zero :: SemVer where
  "SemVer_zero = \<lparr>sv_Major = 0, sv_Minor = 0, sv_Patch = 0, sv_Prerelease = []\<rparr>"

definition ParseSemVer :: "string \<Rightarrow> SemVer" where
  "ParseSemVer v0 =
     (let v = TrimPrefix (TrimPrefix (TrimSpace v0) ''v'') ''V''
      in if v = [] then SemVer_zero
         else
           let (core, pre) =
                 (case Index v ''-'' of
                    None \<Rightarrow> (v, [])
                  | Some idx \<Rightarrow> (take idx v, TrimSpace (drop (idx + 1) v)));
               parts = Split CHR ''.'' core;
               part = (\<lambda>i. if i < length parts then fst (Atoi (parts ! i)) else 0)
           in \<lparr>sv_Major = part 0, sv_Minor = part 1, sv_Patch = part 2, sv_Prerelease = pre\<rparr>)"

text \<open>The loop over the pre-release identifiers; \<open>None\<close> when it runs to its end.\<close>

fun compare_idents :: "string list \<Rightarrow> string list \<Rightarrow> int option" where
  "compare_idents (p1 # ps1) (p2 # ps2) =
     (let (n1, err1) = Atoi p1; (n2, err2) = Atoi p2
      in if \<not> err1 \<and> \<not> err2 then
           (if n1 \<noteq> n2 then Some (if n1 < n2 then - 1 else 1) else compare_idents ps1 ps2)
         else if \<not> err1 \<and> err2 then Some (- 1)
         else if err1 \<and> \<not> err2 then Some 1
         else (if p1 \<noteq> p2 then Some (if p1 < p2 then - 1 else 1) else compare_idents ps1 ps2))"
| "compare_idents _ _ = None"

definition CompareSemVer :: "string \<Rightarrow> string \<Rightarrow> int" where
  "CompareSemVer v1 v2 =
     (let sv1 = ParseSemVer v1; sv2 = ParseSemVer v2
      in if sv_Major sv1 \<noteq> sv_Major sv2 then (if sv_Major sv1 < sv_Major sv2 then - 1 else 1)
         else if sv_Minor sv1 \<noteq> sv_Minor sv2 then (if sv_Minor sv1 < sv_Minor sv2 then - 1 else 1)
         else if sv_Patch sv1 \<noteq> sv_Patch sv2 then (if sv_Patch sv1 < sv_Patch sv2 then - 1 else 1)
         else if sv_Prerelease sv1 = [] \<and> sv_Prerelease sv2 = [] then 0
         else if sv_Prerelease sv1 = [] \<and> sv_Prerelease sv2 \<noteq> [] then 1
         else if sv_Prerelease sv1 \<noteq> [] \<and> sv_Prerelease sv2 = [] then - 1
         else
           let p1Parts = Split CHR ''.'' (sv_Prerelease sv1);
               p2Parts = Split CHR ''.'' (sv_Prerelease sv2)
           in case compare_idents p1Parts p2Parts of
                Some r \<Rightarrow> r
              | None \<Rightarrow>
                  if length p1Parts < length p2Parts then - 1
                  else if length p1Parts > length p2Parts then 1 else 0)"

definition IsVersionNewer :: "string \<Rightarrow> string \<Rightarrow> bool" where
  "IsVersionNewer current candidate = (CompareSemVer current candidate < 0)"

section \<open>Precedence as one linear order\<close>

text \<open>
  The specification: a version has a key in a linear order, and the comparison is the comparison
  of the keys. A numeric identifier lies below every other one, a release above its pre-releases.
\<close>

type_synonym ident_key = "nat \<times> int \<times> string"
type_synonym version_key = "int \<times> int \<times> int \<times> nat \<times> ident_key list"

definition ident_key :: "string \<Rightarrow> ident_key" where
  "ident_key p = (case Atoi p of (n, err) \<Rightarrow> if err then (1, 0, p) else (0, n, []))"

definition version_key :: "string \<Rightarrow> version_key" where
  "version_key v =
     (let sv = ParseSemVer v
      in (sv_Major sv, sv_Minor sv, sv_Patch sv, if sv_Prerelease sv = [] then 1 else 0,
          if sv_Prerelease sv = [] then [] else map ident_key (Split CHR ''.'' (sv_Prerelease sv))))"

definition compare_keys :: "'a::linorder \<Rightarrow> 'a \<Rightarrow> int" where
  "compare_keys a b = (if a < b then - 1 else if a = b then 0 else 1)"

lemma compare_keys_Pair:
  "compare_keys (a, b) (c, d) =
     (if a \<noteq> c then (if a < c then - 1 else 1) else compare_keys b d)"
  by (auto simp: compare_keys_def less_prod_def)

lemma compare_keys_Cons:
  "compare_keys (x # xs) (y # ys) =
     (if x \<noteq> y then (if x < y then - 1 else 1) else compare_keys xs ys)"
  by (auto simp: compare_keys_def)

lemma compare_keys_refl [simp]: "compare_keys x x = 0"
  by (simp add: compare_keys_def)

lemma compare_keys_Nil [simp]:
  "compare_keys [] (y # ys) = - 1" "compare_keys (x # xs) [] = 1"
  by (simp_all add: compare_keys_def)

lemma compare_idents_keys:
  "(case compare_idents ps qs of
      Some r \<Rightarrow> r
    | None \<Rightarrow> if length ps < length qs then - 1 else if length ps > length qs then 1 else 0) =
   compare_keys (map ident_key ps) (map ident_key qs)"
proof (induction ps arbitrary: qs)
  case Nil
  show ?case by (cases qs) simp_all
next
  case (Cons p ps)
  show ?case
  proof (cases qs)
    case (Cons q qs')
    obtain n1 e1 where a1: "Atoi p = (n1, e1)" by fastforce
    obtain n2 e2 where a2: "Atoi q = (n2, e2)" by fastforce
    have k: "ident_key p = (if e1 then (1, 0, p) else (0, n1, []))"
      "ident_key q = (if e2 then (1, 0, q) else (0, n2, []))"
      by (simp_all add: ident_key_def a1 a2)
    show ?thesis
      unfolding Cons list.map compare_keys_Cons Cons.IH [of qs', symmetric]
      by (cases e1; cases e2) (simp_all add: a1 a2 k less_prod_def split: option.split)
  qed simp
qed

text \<open>
  Property C34. The comparison of versions is the comparison of keys in one linear order, so it
  never contradicts itself: it is antisymmetric and transitive on all strings, malformed ones
  included, and an update that is offered as newer is never offered back as a downgrade.
\<close>

theorem compare_is_linear_order:
  "CompareSemVer v1 v2 = compare_keys (version_key v1) (version_key v2)"
  by (simp add: CompareSemVer_def version_key_def Let_def compare_keys_Pair compare_idents_keys)

end
