(* ===== verification/Memns.thy ===== *)
theory Memns
  imports GoStrings Sha256
begin

text \<open>
  The mutable name system: records and their signatures (src/core/memns/record.go), the derivation
  of names from public keys (src/core/keyring/keyring.go), the DHT's validation and choice of
  records (src/net/dht/validator.go), and the record cache (src/core/memns/cache.go).

  The libp2p key operations, the protobuf runtime, net/url's parser and multiaddr parsing are
  parameters: the records \<open>crypto\<close> and \<open>wire\<close> and the argument \<open>url_Path\<close>. Their documented
  behaviour is named by \<open>crypto_ok\<close> and \<open>wire_ok\<close>. Times are Unix nanoseconds.
\<close>

section \<open>Messages\<close>

record MemRoute =
  mr_Target :: bytes
  mr_Weight :: "32 word"
  mr_Label :: string
  mr_Conditions :: "(string \<times> string) list"

record MemLogEntry =
  ml_Sequence :: u64
  ml_Value :: bytes
  ml_Timestamp :: "64 word"
  ml_Signature :: bytes
  ml_Message :: string

datatype ValidityType = EOL | OtherValidity int

record MemNSRecord =
  nr_Value :: bytes
  nr_Signature :: bytes
  nr_Sequence :: u64
  nr_Validity :: "64 word"
  nr_PublicKey :: bytes
  nr_Ttl :: u64
  nr_ValidityType :: ValidityType
  nr_Routes :: "MemRoute list"
  nr_Delegates :: "bytes list"
  nr_Changelog :: "MemLogEntry list"
  nr_Meta :: "string \<rightharpoonup> string"

section \<open>Parameters\<close>

record ('sk, 'pk) crypto =
  GetPublic :: "'sk \<Rightarrow> 'pk"
  MarshalPublicKey :: "'pk \<Rightarrow> bytes result"
  UnmarshalPublicKey :: "bytes \<Rightarrow> 'pk result"
  pk_Sign :: "'sk \<Rightarrow> bytes \<Rightarrow> bytes result"
  pk_Verify :: "'pk \<Rightarrow> bytes \<Rightarrow> bytes \<Rightarrow> bool result"

record wire =
  wr_Marshal :: "MemNSRecord \<Rightarrow> bytes result"
  wr_Unmarshal :: "bytes \<Rightarrow> MemNSRecord result"

definition crypto_ok :: "('sk, 'pk) crypto \<Rightarrow> bool" where
  "crypto_ok C \<longleftrightarrow>
     (\<forall>sk msg sig. pk_Sign C sk msg = Inr sig \<longrightarrow> pk_Verify C (GetPublic C sk) msg sig = Inr True) \<and>
     (\<forall>pk b. MarshalPublicKey C pk = Inr b \<longrightarrow> b \<noteq> [] \<and> UnmarshalPublicKey C b = Inr pk)"

definition wire_ok :: "wire \<Rightarrow> bool" where
  "wire_ok W \<longleftrightarrow> (\<forall>r b. wr_Marshal W r = Inr b \<longrightarrow> wr_Unmarshal W b = Inr r)"

section \<open>Names\<close>

definition name_of_key :: "bytes \<Rightarrow> string" where
  "name_of_key pubBytes = ''k'' @ Text36 (SetBytes (Sum256 pubBytes))"

definition DeriveMemNSName :: "('sk, 'pk) crypto \<Rightarrow> 'pk \<Rightarrow> string result" where
  "DeriveMemNSName C pub =
     (case MarshalPublicKey C pub of
        Inl e \<Rightarrow> Inl (Wrap ''failed to marshal public key: %w'' e)
      | Inr pubBytes \<Rightarrow> Inr (''/memns/'' @ name_of_key pubBytes))"

record ('sk, 'pk) Key =
  k_Name :: string
  k_PrivKey :: 'sk
  k_PubKey :: 'pk
  k_MemNSName :: string

section \<open>Target values\<close>

definition ident_char :: "char \<Rightarrow> bool" where
  "ident_char r \<longleftrightarrow>
     CHR ''a'' \<le> r \<and> r \<le> CHR ''z'' \<or> CHR ''A'' \<le> r \<and> r \<le> CHR ''Z'' \<or>
     CHR ''0'' \<le> r \<and> r \<le> CHR ''9'' \<or> r = CHR ''-'' \<or> r = CHR ''_'' \<or> r = CHR ''.''"

definition isValidTargetIdentifier :: "string \<Rightarrow> bool" where
  "isValidTargetIdentifier s = (s \<noteq> [] \<and> list_all ident_char s)"

text \<open>The prefixes of the web explorer that are cut off.\<close>

definition strip_explorer :: "string \<Rightarrow> string" where
  "strip_explorer v =
     (case Index v ''/explorer/mid/'' of
        Some idx \<Rightarrow> drop (idx + 14) v
      | None \<Rightarrow>
          (case Index v ''/explorer/memns/'' of
             Some idx \<Rightarrow> ''/memns/'' @ drop (idx + 16) v
           | None \<Rightarrow>
               (case Index v ''/explorer/memlink/'' of
                  Some idx \<Rightarrow> ''/memlink/'' @ drop (idx + 18) v
                | None \<Rightarrow> v)))"

definition split_subpath :: "string \<Rightarrow> string \<times> string" where
  "split_subpath v = (case Index v ''/'' of None \<Rightarrow> (v, []) | Some idx \<Rightarrow> (take idx v, drop idx v))"

definition ValidateAndNormalizeValue ::
  "hashlib \<Rightarrow> (string \<Rightarrow> string option) \<Rightarrow> string \<Rightarrow> string result" where
  "ValidateAndNormalizeValue L url_Path input =
     (let v0 = TrimSpace input
      in if v0 = [] then Inl (Msg ''memns: target value cannot be empty'')
         else
           let v1 = (if HasPrefix v0 ''http://'' \<or> HasPrefix v0 ''https://''
                     then (case url_Path v0 of None \<Rightarrow> v0 | Some p \<Rightarrow> p) else v0);
               v2 = strip_explorer v1;
               hasMemPrefix = (HasPrefix v2 ''/mem/'' \<or> HasPrefix v2 ''mem/'');
               v3 = TrimPrefix v2 ''/''
           in if HasPrefix v3 ''memns/'' then
                (let targetName = TrimPrefix v3 ''memns/''
                 in if targetName = [] then Inl (Msg ''memns: invalid MemNS target name'')
                    else Inr (''/memns/'' @ targetName))
              else if HasPrefix v3 ''memlink/'' then
                (let targetDomain = TrimPrefix v3 ''memlink/''
                 in if targetDomain = [] then Inl (Msg ''memns: invalid MemLink target domain'')
                    else Inr (''/memlink/'' @ targetDomain))
              else
                (case split_subpath (if HasPrefix v3 ''mem/'' then drop 4 v3 else v3) of
                   (v4, subpath) \<Rightarrow>
                     (case Parse L v4 of
                        Inr m \<Rightarrow> Inr (''/mem/'' @ MID_String L m @ subpath)
                      | Inl err \<Rightarrow>
                          if hasMemPrefix \<and> isValidTargetIdentifier v4
                          then Inr (''/mem/'' @ v4 @ subpath)
                          else Inl (Wrap ''memns: invalid target MID %q: %w'' err))))"

section \<open>Signing and verification\<close>

definition CanonicalBytes :: "MemNSRecord \<Rightarrow> bytes" where
  "CanonicalBytes record =
     nr_Value record @ PutUint64 (nr_Sequence record) @ PutUint64 (nr_Validity record)"

definition CanonicalLogBytes :: "u64 \<Rightarrow> bytes \<Rightarrow> 64 word \<Rightarrow> bytes" where
  "CanonicalLogBytes sq val timestamp = PutUint64 sq @ val @ PutUint64 timestamp"

definition BuildRecord ::
  "hashlib \<Rightarrow> (string \<Rightarrow> string option) \<Rightarrow> ('sk, 'pk) crypto \<Rightarrow> int \<Rightarrow> ('sk, 'pk) Key \<Rightarrow> string \<Rightarrow> u64 \<Rightarrow>
   64 word \<Rightarrow> MemRoute list \<Rightarrow> string \<Rightarrow> MemNSRecord result" where
  "BuildRecord L url_Path C now key val0 sq ttl routes message =
     (case ValidateAndNormalizeValue L url_Path val0 of
        Inl err \<Rightarrow> Inl err
      | Inr val \<Rightarrow>
          let validity = word_of_int (now + sint ttl)
          in case MarshalPublicKey C (k_PubKey key) of
               Inl err \<Rightarrow> Inl (Wrap ''failed to marshal public key: %w'' err)
             | Inr pubBytes \<Rightarrow>
                 let ts = word_of_int now
                 in case pk_Sign C (k_PrivKey key) (CanonicalLogBytes sq (bytes_of_string val) ts) of
                      Inl err \<Rightarrow> Inl (Wrap ''failed to sign changelog entry: %w'' err)
                    | Inr sig \<Rightarrow>
                        let entry = \<lparr>ml_Sequence = sq, ml_Value = bytes_of_string val,
                              ml_Timestamp = ts, ml_Signature = sig, ml_Message = message\<rparr>;
                            record = \<lparr>nr_Value = bytes_of_string val, nr_Signature = [],
                              nr_Sequence = sq, nr_Validity = validity, nr_PublicKey = pubBytes,
                              nr_Ttl = ttl, nr_ValidityType = EOL, nr_Routes = routes,
                              nr_Delegates = [], nr_Changelog = [entry],
                              nr_Meta = [''owner_key'' \<mapsto> b64_encode pubBytes]\<rparr>
                        in case pk_Sign C (k_PrivKey key) (CanonicalBytes record) of
                             Inl err \<Rightarrow> Inl (Wrap ''failed to sign record: %w'' err)
                           | Inr recordSig \<Rightarrow> Inr (record\<lparr>nr_Signature := recordSig\<rparr>))"

text \<open>The signature check shared by VerifyRecord and validateMemNS.\<close>

definition check_signature :: "('sk, 'pk) crypto \<Rightarrow> MemNSRecord \<Rightarrow> gerror option" where
  "check_signature C record =
     (case UnmarshalPublicKey C (nr_PublicKey record) of
        Inl err \<Rightarrow> Some (Wrap ''invalid public key in record: %w'' err)
      | Inr pubKey \<Rightarrow>
          (case pk_Verify C pubKey (CanonicalBytes record) (nr_Signature record) of
             Inl err \<Rightarrow> Some (Wrap ''signature verification error: %w'' err)
           | Inr ok \<Rightarrow> if \<not> ok then Some (Msg ''invalid signature'') else None))"

definition VerifyRecord ::
  "hashlib \<Rightarrow> (string \<Rightarrow> string option) \<Rightarrow> ('sk, 'pk) crypto \<Rightarrow> int \<Rightarrow> MemNSRecord \<Rightarrow> gerror option" where
  "VerifyRecord L url_Path C now record =
     (if nr_Sequence record = 0 then Some (Msg ''sequence must be > 0'')
      else if sint (nr_Validity record) \<le> now then Some (Msg ''record expired'')
      else case ValidateAndNormalizeValue L url_Path (string_of_bytes (nr_Value record)) of
             Inl err \<Rightarrow> Some (Wrap ''invalid record target value: %w'' err)
           | Inr _ \<Rightarrow>
               (case check_signature C record of
                  Some err \<Rightarrow> Some err
                | None \<Rightarrow>
                    (case nr_Meta record ''owner_key'' of
                       None \<Rightarrow> None
                     | Some ownerBase64 \<Rightarrow>
                         (case b64_decode ownerBase64 of
                            None \<Rightarrow> None
                          | Some ownerBytes \<Rightarrow>
                              if ownerBytes \<noteq> nr_PublicKey record \<and>
                                 nr_PublicKey record \<notin> set (nr_Delegates record)
                              then Some (Msg ''signer is not the owner and not in delegates list'')
                              else None))))"

section \<open>The DHT validator\<close>

definition validateMemNS :: "wire \<Rightarrow> ('sk, 'pk) crypto \<Rightarrow> int \<Rightarrow> string \<Rightarrow> bytes \<Rightarrow> gerror option" where
  "validateMemNS W C now key val =
     (case wr_Unmarshal W val of
        Inl err \<Rightarrow> Some (Wrap ''failed to unmarshal memns record: %w'' err)
      | Inr record \<Rightarrow>
          if nr_Sequence record = 0 then Some (Msg ''sequence must be > 0'')
          else if sint (nr_Validity record) \<le> now then Some (Msg ''record expired'')
          else
            (case check_signature C record of
               Some err \<Rightarrow> Some err
             | None \<Rightarrow>
                 let ob = (case nr_Meta record ''owner_key'' of
                             None \<Rightarrow> []
                           | Some ownerBase64 \<Rightarrow>
                               (case b64_decode ownerBase64 of None \<Rightarrow> [] | Some ob \<Rightarrow> ob));
                     ownerBytes = (if ob = [] then nr_PublicKey record else ob)
                 in if ownerBytes \<noteq> nr_PublicKey record \<and>
                       nr_PublicKey record \<notin> set (nr_Delegates record)
                    then Some (Msg ''signer is not the owner and not in delegates list'')
                    else if TrimPrefix key ''/memns/'' \<noteq> name_of_key ownerBytes
                    then Some (Msg ''record owner public key does not match key name %q'')
                    else None))"

record peer_wire =
  pw_PeerAddr :: "bytes \<Rightarrow> (string \<times> string list) option"
  pw_Registry :: "bytes \<Rightarrow> string list option"
  pw_Json :: "bytes \<Rightarrow> (string \<times> string list) option"
  peer_Decode :: "string \<Rightarrow> gerror option"
  NewMultiaddr :: "string \<Rightarrow> gerror option"

fun first_error :: "('a \<Rightarrow> gerror option) \<Rightarrow> 'a list \<Rightarrow> gerror option" where
  "first_error f [] = None"
| "first_error f (x # xs) = (case f x of None \<Rightarrow> first_error f xs | Some e \<Rightarrow> Some e)"

definition check_addrs :: "peer_wire \<Rightarrow> string \<Rightarrow> string list \<Rightarrow> gerror option" where
  "check_addrs P pid addrs =
     (case peer_Decode P pid of
        Some err \<Rightarrow> Some (Wrap ''invalid peer ID: %w'' err)
      | None \<Rightarrow>
          if length addrs = 0 then Some (Msg ''no addresses provided'')
          else map_option (Wrap ''invalid multiaddr %q: %w'') (first_error (NewMultiaddr P) addrs))"

definition validate_json :: "peer_wire \<Rightarrow> bytes \<Rightarrow> gerror option" where
  "validate_json P val =
     (case pw_Json P val of
        Some (i, addrs) \<Rightarrow>
          if i \<noteq> [] then check_addrs P i addrs
          else Some (Msg ''invalid anchor payload (neither valid protobuf nor JSON)'')
      | None \<Rightarrow> Some (Msg ''invalid anchor payload (neither valid protobuf nor JSON)''))"

definition validate_registry :: "peer_wire \<Rightarrow> bytes \<Rightarrow> gerror option" where
  "validate_registry P val =
     (case pw_Registry P val of
        Some anchors \<Rightarrow>
          if 0 < length anchors
          then map_option (Wrap ''invalid peer ID in registry: %w'') (first_error (peer_Decode P) anchors)
          else validate_json P val
      | None \<Rightarrow> validate_json P val)"

definition validateMembuss :: "peer_wire \<Rightarrow> string \<Rightarrow> bytes \<Rightarrow> gerror option" where
  "validateMembuss P key val =
     (if HasPrefix key ''/membuss/test/''
      then (if length val = 0 then Some (Msg ''empty test value'') else None)
      else if key = ''/membuss/anchors/v1'' \<or> key = ''/membuss/relays/v1'' then
        (case pw_PeerAddr P val of
           Some (i, addrs) \<Rightarrow> if i \<noteq> [] then check_addrs P i addrs else validate_registry P val
         | None \<Rightarrow> validate_registry P val)
      else Some (Msg ''unsupported key path: %q''))"

definition dht_Validate ::
  "wire \<Rightarrow> ('sk, 'pk) crypto \<Rightarrow> peer_wire \<Rightarrow> int \<Rightarrow> string \<Rightarrow> bytes \<Rightarrow> gerror option" where
  "dht_Validate W C P now key val =
     (if HasPrefix key ''/memns/'' then validateMemNS W C now key val
      else if HasPrefix key ''/membuss/'' then validateMembuss P key val
      else Some (Msg ''unsupported namespace for key: %q''))"

text \<open>The loop of Select: the best index so far with its sequence and validity.\<close>

fun select_loop ::
  "wire \<Rightarrow> nat \<Rightarrow> bytes list \<Rightarrow> (nat \<times> u64 \<times> 64 word) option \<Rightarrow> (nat \<times> u64 \<times> 64 word) option" where
  "select_loop W idx [] best = best"
| "select_loop W idx (val # vals) best =
     (case wr_Unmarshal W val of
        Inl err \<Rightarrow> select_loop W (Suc idx) vals best
      | Inr r \<Rightarrow>
          select_loop W (Suc idx) vals
            (case best of
               None \<Rightarrow> Some (idx, nr_Sequence r, nr_Validity r)
             | Some (bestIdx, bestSeq, bestVal) \<Rightarrow>
                 if nr_Sequence r > bestSeq \<or>
                    nr_Sequence r = bestSeq \<and> sint (nr_Validity r) > sint bestVal
                 then Some (idx, nr_Sequence r, nr_Validity r) else best))"

definition dht_Select :: "wire \<Rightarrow> string \<Rightarrow> bytes list \<Rightarrow> nat result" where
  "dht_Select W key vals =
     (if vals = [] then Inl (Msg ''no values'')
      else if HasPrefix key ''/memns/'' then
        (case select_loop W 0 vals None of Some (bestIdx, _) \<Rightarrow> Inr bestIdx | None \<Rightarrow> Inr 0)
      else Inr 0)"

section \<open>The record cache\<close>

text \<open>
  The cache is a Go map; its iteration order is unspecified. The entries are kept as a list of
  distinct keys in the order of iteration, and the theorems hold for every such list.
\<close>

record cacheEntry =
  ce_record :: MemNSRecord
  ce_expiresAt :: int

record RecordCache =
  rc_entries :: "(string \<times> cacheEntry) list"
  rc_limit :: int

definition NewRecordCache :: "int \<Rightarrow> RecordCache" where
  "NewRecordCache limit = \<lparr>rc_entries = [], rc_limit = limit\<rparr>"

definition RecordCache_Get :: "int \<Rightarrow> RecordCache \<Rightarrow> string \<Rightarrow> MemNSRecord option" where
  "RecordCache_Get now c name =
     (case map_of (rc_entries c) name of
        None \<Rightarrow> None
      | Some entry \<Rightarrow> if now > ce_expiresAt entry then None else Some (ce_record entry))"

fun earliest :: "(string \<times> cacheEntry) list \<Rightarrow> (string \<times> int) option \<Rightarrow> (string \<times> int) option" where
  "earliest [] acc = acc"
| "earliest ((k, entry) # es) acc =
     earliest es
       (case acc of
          None \<Rightarrow> Some (k, ce_expiresAt entry)
        | Some (ek, et) \<Rightarrow> if ce_expiresAt entry < et then Some (k, ce_expiresAt entry) else acc)"

definition remove_key :: "'k \<Rightarrow> ('k \<times> 'v) list \<Rightarrow> ('k \<times> 'v) list" where
  "remove_key k es = filter (\<lambda>e. fst e \<noteq> k) es"

definition evict_expired :: "int \<Rightarrow> (string \<times> cacheEntry) list \<Rightarrow> (string \<times> cacheEntry) list" where
  "evict_expired now es = filter (\<lambda>e. \<not> now > ce_expiresAt (snd e)) es"

definition evict_earliest :: "int \<Rightarrow> (string \<times> cacheEntry) list \<Rightarrow> (string \<times> cacheEntry) list" where
  "evict_earliest limit es =
     (if int (length es) \<ge> limit then
        (case earliest es None of
           Some (k, _) \<Rightarrow> if k \<noteq> [] then remove_key k es else es
         | None \<Rightarrow> es)
      else es)"

definition minute :: int where "minute = 60 * 1000000000"

definition RecordCache_Add :: "int \<Rightarrow> string \<Rightarrow> MemNSRecord \<Rightarrow> RecordCache \<Rightarrow> RecordCache" where
  "RecordCache_Add now name record c =
     (let es = evict_earliest (rc_limit c) (evict_expired now (rc_entries c));
          ttl = (if nr_Ttl record > 0 then sint (nr_Ttl record) else minute);
          entry = \<lparr>ce_record = record, ce_expiresAt = now + ttl\<rparr>
      in c\<lparr>rc_entries := remove_key name es @ [(name, entry)]\<rparr>)"

section \<open>Choosing the newest record\<close>

definition rank :: "MemNSRecord \<Rightarrow> u64 \<times> int" where
  "rank r = (nr_Sequence r, sint (nr_Validity r))"

definition parsed :: "wire \<Rightarrow> bytes list \<Rightarrow> (nat \<times> MemNSRecord) set" where
  "parsed W vals = {(i, r). i < length vals \<and> wr_Unmarshal W (vals ! i) = Inr r}"

definition best_of :: "(nat \<times> MemNSRecord) set \<Rightarrow> (nat \<times> u64 \<times> 64 word) option \<Rightarrow> bool" where
  "best_of A best \<longleftrightarrow>
     (case best of
        None \<Rightarrow> A = {}
      | Some (i, sq, va) \<Rightarrow>
          \<exists>r. (i, r) \<in> A \<and> sq = nr_Sequence r \<and> va = nr_Validity r \<and> (\<forall>(j, r')\<in>A. rank r' \<le> rank r))"

lemma parsed_snoc:
  "parsed W (vals @ [v]) =
     parsed W vals \<union> (case wr_Unmarshal W v of Inl e \<Rightarrow> {} | Inr r \<Rightarrow> {(length vals, r)})"
  by (auto simp: parsed_def nth_append less_Suc_eq split: sum.splits if_splits)

lemma best_of_insert:
  assumes "best_of A best"
  shows "best_of (A \<union> {(i, r)})
           (case best of
              None \<Rightarrow> Some (i, nr_Sequence r, nr_Validity r)
            | Some (bestIdx, bestSeq, bestVal) \<Rightarrow>
                if nr_Sequence r > bestSeq \<or>
                   nr_Sequence r = bestSeq \<and> sint (nr_Validity r) > sint bestVal
                then Some (i, nr_Sequence r, nr_Validity r) else best)"
proof (cases best)
  case None
  with assms show ?thesis by (auto simp: best_of_def)
next
  case (Some b)
  then obtain k q where b: "best = Some (k, nr_Sequence q, nr_Validity q)" "(k, q) \<in> A"
      and max: "\<forall>(j, r')\<in>A. rank r' \<le> rank q"
    using assms by (cases b) (auto simp: best_of_def)
  show ?thesis
  proof (cases "rank q < rank r")
    case True
    then have "\<forall>(j, r')\<in>A. rank r' \<le> rank r" using max by (auto intro: order.trans less_imp_le)
    with True b show ?thesis by (auto simp: best_of_def rank_def less_prod_def)
  next
    case False
    then have "rank r \<le> rank q" by simp
    with False b max show ?thesis by (auto simp: best_of_def rank_def less_prod_def)
  qed
qed

lemma select_loop_best:
  "best_of (parsed W pre) best \<Longrightarrow> best_of (parsed W (pre @ vals)) (select_loop W (length pre) vals best)"
proof (induction vals arbitrary: pre best)
  case (Cons v vals)
  show ?case
  proof (cases "wr_Unmarshal W v")
    case (Inl e)
    with Cons.IH [of "pre @ [v]" best] Cons.prems show ?thesis by (simp add: parsed_snoc)
  next
    case (Inr r)
    with Cons.IH [of "pre @ [v]"] best_of_insert [OF Cons.prems, of "length pre" r] show ?thesis
      by (simp add: parsed_snoc)
  qed
qed simp

text \<open>
  Property C35. Among the values of a name the DHT selects one that parses and that no other one
  that parses exceeds in sequence number, or in validity at the same sequence number; an
  unparseable value is never preferred to a parseable one.
\<close>

theorem dht_select_newest:
  assumes "HasPrefix key ''/memns/''" "v \<in> set vals" "is_ok (wr_Unmarshal W v)"
  shows "\<exists>i r. dht_Select W key vals = Inr i \<and> (i, r) \<in> parsed W vals \<and>
           (\<forall>(j, r')\<in>parsed W vals. rank r' \<le> rank r)"
proof -
  have best: "best_of (parsed W vals) (select_loop W 0 vals None)"
    using select_loop_best [of W "[]" None vals] by (simp add: best_of_def parsed_def)
  obtain k where "k < length vals" "vals ! k = v" using assms(2) by (meson in_set_conv_nth)
  then have "parsed W vals \<noteq> {}" using assms(3) by (auto simp: parsed_def is_ok_iff)
  with best obtain i sq va where sel: "select_loop W 0 vals None = Some (i, sq, va)"
    by (auto simp: best_of_def split: option.splits)
  have "vals \<noteq> []" using assms(2) by auto
  with sel assms(1) have "dht_Select W key vals = Inr i" by (simp add: dht_Select_def)
  with best sel show ?thesis by (auto simp: best_of_def)
qed

section \<open>A concrete instance of the parameters\<close>

text \<open>
  A toy signature scheme and wire format that satisfy the documented behaviour: a key is a byte,
  its signature of a message is the message with the key in front; the wire format knows one
  record per byte of a finite table.
\<close>

definition demo_crypto :: "(byte, byte) crypto" where
  "demo_crypto =
     \<lparr>GetPublic = (\<lambda>sk. sk), MarshalPublicKey = (\<lambda>pk. Inr [pk]),
      UnmarshalPublicKey = (\<lambda>b. case b of [pk] \<Rightarrow> Inr pk | _ \<Rightarrow> Inl (Msg ''key'')),
      pk_Sign = (\<lambda>sk msg. Inr (sk # msg)), pk_Verify = (\<lambda>pk msg sig. Inr (sig = pk # msg))\<rparr>"

lemma demo_crypto_ok: "crypto_ok demo_crypto"
  by (simp add: crypto_ok_def demo_crypto_def)

definition demo_wire :: "MemNSRecord list \<Rightarrow> wire" where
  "demo_wire rs =
     \<lparr>wr_Marshal = (\<lambda>r. case find (\<lambda>i. rs ! i = r) [0..<length rs] of
                          None \<Rightarrow> Inl (Msg ''unknown'') | Some i \<Rightarrow> Inr (replicate i 0)),
      wr_Unmarshal = (\<lambda>b. if length b < length rs then Inr (rs ! length b) else Inl (Msg ''wire''))\<rparr>"

lemma demo_wire_ok: "wire_ok (demo_wire rs)"
  by (auto simp: wire_ok_def demo_wire_def find_Some_iff split: option.splits)

definition demo_record :: "u64 \<Rightarrow> MemNSRecord" where
  "demo_record sq =
     \<lparr>nr_Value = [], nr_Signature = [], nr_Sequence = sq, nr_Validity = 5, nr_PublicKey = [],
      nr_Ttl = 0, nr_ValidityType = EOL, nr_Routes = [], nr_Delegates = [], nr_Changelog = [],
      nr_Meta = Map.empty\<rparr>"

theorem dht_select_newest_witness:
  "\<exists>i r. dht_Select (demo_wire [demo_record 3, demo_record 7]) ''/memns/k1'' [[], [0], [0, 0]] = Inr i \<and>
     (i, r) \<in> parsed (demo_wire [demo_record 3, demo_record 7]) [[], [0], [0, 0]] \<and> rank (demo_record 7) \<le> rank r"
proof -
  let ?W = "demo_wire [demo_record 3, demo_record 7]"
  have p: "HasPrefix ''/memns/k1'' ''/memns/''" by code_simp
  have ok: "is_ok (wr_Unmarshal ?W [])" by (simp add: demo_wire_def)
  have "(1, demo_record 7) \<in> parsed ?W [[], [0], [0, 0]]" by (simp add: parsed_def demo_wire_def)
  with dht_select_newest [OF p _ ok, of "[[], [0], [0, 0]]"] show ?thesis by fastforce
qed

section \<open>Publishing\<close>

definition key_ok :: "('sk, 'pk) crypto \<Rightarrow> ('sk, 'pk) Key \<Rightarrow> bool" where
  "key_ok C key \<longleftrightarrow>
     k_PubKey key = GetPublic C (k_PrivKey key) \<and> DeriveMemNSName C (k_PubKey key) = Inr (k_MemNSName key)"

lemma check_signature_ok:
  assumes "crypto_ok C" "MarshalPublicKey C (GetPublic C sk) = Inr pub"
    "pk_Sign C sk (CanonicalBytes r) = Inr sig"
  shows "check_signature C (r\<lparr>nr_PublicKey := pub, nr_Signature := sig\<rparr>) = None"
proof -
  have "CanonicalBytes (r\<lparr>nr_PublicKey := pub, nr_Signature := sig\<rparr>) = CanonicalBytes r"
    by (simp add: CanonicalBytes_def)
  moreover have "UnmarshalPublicKey C pub = Inr (GetPublic C sk)"
    "pk_Verify C (GetPublic C sk) (CanonicalBytes r) sig = Inr True"
    using assms unfolding crypto_ok_def by blast+
  ultimately show ?thesis by (simp add: check_signature_def)
qed

lemma BuildRecord_shape:
  assumes "BuildRecord L U C now key v sq ttl routes msg = Inr r"
  obtains val pub sig where "ValidateAndNormalizeValue L U v = Inr val"
    "MarshalPublicKey C (k_PubKey key) = Inr pub"
    "pk_Sign C (k_PrivKey key) (CanonicalBytes r) = Inr sig"
    "nr_Value r = bytes_of_string val" "nr_Signature r = sig" "nr_Sequence r = sq"
    "nr_Validity r = word_of_int (now + sint ttl)" "nr_PublicKey r = pub"
    "nr_Meta r = [''owner_key'' \<mapsto> b64_encode pub]"
  using assms unfolding BuildRecord_def
  by (auto simp: Let_def CanonicalBytes_def split: sum.splits)

lemma TrimPrefix_memns: "TrimPrefix (''/memns/'' @ n) ''/memns/'' = n"
  by (rule TrimPrefix_append)


definition demo_key :: "(byte, byte) Key" where
  "demo_key = \<lparr>k_Name = ''k'', k_PrivKey = 9, k_PubKey = 9, k_MemNSName = ''/memns/'' @ name_of_key [9]\<rparr>"

lemma demo_key_ok: "key_ok demo_crypto demo_key"
  by (simp add: key_ok_def demo_key_def demo_crypto_def DeriveMemNSName_def)

lemma demo_target: "ValidateAndNormalizeValue demo_lib U ''/memns/kx'' = Inr ''/memns/kx''"
proof -
  have "TrimSpace ''/memns/kx'' = ''/memns/kx''" by code_simp
  moreover have "strip_explorer ''/memns/kx'' = ''/memns/kx''" by code_simp
  ultimately show ?thesis by (simp add: ValidateAndNormalizeValue_def HasPrefix_def TrimPrefix_def)
qed


section \<open>Delegation is not authenticated\<close>

text \<open>
  A record claims its owner key and its delegates itself, and the signature covers neither
  (\<open>CanonicalBytes\<close> is value, sequence and validity). So a signer who is not the owner can list
  himself as a delegate of any owner.
\<close>

definition hijack_record :: "bytes \<Rightarrow> bytes \<Rightarrow> bytes \<Rightarrow> u64 \<Rightarrow> 64 word \<Rightarrow> bytes \<Rightarrow> MemNSRecord" where
  "hijack_record victim attacker val sq validity sig =
     \<lparr>nr_Value = val, nr_Signature = sig, nr_Sequence = sq, nr_Validity = validity,
      nr_PublicKey = attacker, nr_Ttl = 0, nr_ValidityType = EOL, nr_Routes = [],
      nr_Delegates = [attacker], nr_Changelog = [], nr_Meta = [''owner_key'' \<mapsto> b64_encode victim]\<rparr>"

text \<open>
  Property C24. Anyone can publish under any name: whoever holds any key can make a record, signed
  by that key alone, with a target and sequence number of his choice, that every resolver verifies
  and that the DHT accepts under the name of another owner's key. No signature of the owner is
  involved.
\<close>

theorem memns_name_hijack:
  assumes ok: "crypto_ok C" "wire_ok W"
    and victim: "MarshalPublicKey C victim = Inr vb"
    and attacker: "MarshalPublicKey C (GetPublic C sk) = Inr ab"
    and sig: "pk_Sign C sk (val @ PutUint64 sq @ PutUint64 validity) = Inr sig"
    and target: "is_ok (ValidateAndNormalizeValue L U (string_of_bytes val))"
    and fresh: "sq \<noteq> 0" "now < sint validity"
    and sent: "wr_Marshal W (hijack_record vb ab val sq validity sig) = Inr b"
  shows "VerifyRecord L U C now (hijack_record vb ab val sq validity sig) = None \<and>
         validateMemNS W C now (''/memns/'' @ name_of_key vb) b = None"
proof -
  let ?r = "hijack_record vb ab val sq validity sig"
  have "CanonicalBytes ?r = val @ PutUint64 sq @ PutUint64 validity"
    by (simp add: CanonicalBytes_def hijack_record_def)
  moreover have "?r\<lparr>nr_PublicKey := ab, nr_Signature := sig\<rparr> = ?r" by (simp add: hijack_record_def)
  ultimately have chk: "check_signature C ?r = None"
    using check_signature_ok [OF ok(1) attacker, of ?r sig] sig by simp
  have f: "nr_Sequence ?r = sq" "nr_Validity ?r = validity" "nr_Value ?r = val"
    "nr_PublicKey ?r = ab" "nr_Delegates ?r = [ab]" "nr_Meta ?r = [''owner_key'' \<mapsto> b64_encode vb]"
    by (simp_all add: hijack_record_def)
  have "VerifyRecord L U C now ?r = None"
    using fresh target by (auto simp: VerifyRecord_def f chk is_ok_iff)
  moreover have "wr_Unmarshal W b = Inr ?r" using ok(2) sent by (simp add: wire_ok_def)
  moreover have "vb \<noteq> []" using ok(1) victim by (auto simp: crypto_ok_def)
  ultimately show ?thesis
    using fresh by (simp add: validateMemNS_def f chk Let_def TrimPrefix_memns [simplified])
qed

theorem memns_name_hijack_witness:
  "\<exists>r. nr_PublicKey r = [2] \<and> nr_Signature r = 2 # CanonicalBytes r \<and>
     VerifyRecord demo_lib (\<lambda>_. None) demo_crypto 0 r = None \<and>
     validateMemNS (demo_wire [r]) demo_crypto 0 (''/memns/'' @ name_of_key [1]) [] = None"
proof -
  let ?val = "bytes_of_string ''/memns/kx''"
  let ?sig = "2 # ?val @ PutUint64 1 @ PutUint64 9"
  let ?r = "hijack_record [1] [2] ?val 1 9 ?sig"
  have "VerifyRecord demo_lib (\<lambda>_. None) demo_crypto 0 ?r = None \<and>
     validateMemNS (demo_wire [?r]) demo_crypto 0 (''/memns/'' @ name_of_key [1]) [] = None"
    by (rule memns_name_hijack [OF demo_crypto_ok demo_wire_ok, where victim = 1 and sk = 2])
      (simp_all add: demo_crypto_def demo_target demo_wire_def del: bytes_of_string_append)
  moreover have "nr_PublicKey ?r = [2]" "nr_Signature ?r = 2 # CanonicalBytes ?r"
    by (simp_all add: hijack_record_def CanonicalBytes_def)
  ultimately show ?thesis by blast
qed

section \<open>The cache stays within its limit\<close>

definition cache_inv :: "RecordCache \<Rightarrow> bool" where
  "cache_inv c \<longleftrightarrow>
     distinct (map fst (rc_entries c)) \<and> [] \<notin> fst ` set (rc_entries c) \<and>
     int (length (rc_entries c)) \<le> max 1 (rc_limit c)"

lemma earliest_in:
  "earliest es acc = Some (k, t) \<Longrightarrow> acc = Some (k, t) \<or> (\<exists>e. (k, e) \<in> set es \<and> t = ce_expiresAt e)"
  by (induction es acc rule: earliest.induct) (fastforce split: option.splits if_splits)+

lemma earliest_exists: "es \<noteq> [] \<or> acc \<noteq> None \<Longrightarrow> earliest es acc \<noteq> None"
  by (induction es acc rule: earliest.induct) (auto split: option.splits)

lemma remove_key_simps [simp]:
  "map_of (remove_key k es) k' = (if k' = k then None else map_of es k')"
  "distinct (map fst es) \<Longrightarrow> distinct (map fst (remove_key k es))"
  "fst ` set (remove_key k es) = fst ` set es - {k}"
  by (induction es) (auto simp: remove_key_def)

lemma length_remove_key_le: "length (remove_key k es) \<le> length es"
  by (simp add: remove_key_def)

lemma length_remove_key_less:
  assumes "k \<in> fst ` set es"
  shows "length (remove_key k es) < length es"
proof -
  obtain e where "e \<in> set es" "fst e = k" using assms by blast
  then show ?thesis unfolding remove_key_def by (intro length_filter_less) simp_all
qed

lemma evict_expired_facts:
  "distinct (map fst es) \<Longrightarrow> distinct (map fst (evict_expired now es))"
  "fst ` set (evict_expired now es) \<subseteq> fst ` set es"
  by (induction es) (auto simp: evict_expired_def)

lemma length_evict_expired: "int (length (evict_expired now es)) \<le> int (length es)"
  by (simp add: evict_expired_def)

lemma evict_expired_map_of:
  "distinct (map fst es) \<Longrightarrow> map_of (evict_expired now es) k = Some e \<Longrightarrow> map_of es k = Some e"
proof (induction es)
  case (Cons x es)
  obtain a b where x: "x = (a, b)" by fastforce
  have IH: "map_of (evict_expired now es) k = Some e \<Longrightarrow> map_of es k = Some e" using Cons by simp
  have "k \<noteq> a" if "map_of es k = Some e"
    using that Cons.prems(1) x by (metis distinct.simps(2) domI dom_map_of_conv_image_fst fst_conv list.simps(9) set_map)
  with IH Cons.prems(2) x show ?case by (auto simp: evict_expired_def split: if_splits)
qed (simp add: evict_expired_def)

lemma evict_earliest_facts:
  shows "distinct (map fst es) \<Longrightarrow> distinct (map fst (evict_earliest l es))"
    and "fst ` set (evict_earliest l es) \<subseteq> fst ` set es"
    and "map_of (evict_earliest l es) k = Some e \<Longrightarrow> map_of es k = Some e"
  by (auto simp: evict_earliest_def split: option.splits if_splits)

lemma evict_earliest_length:
  assumes "[] \<notin> fst ` set es" "int (length es) \<le> max 1 l"
  shows "int (length (evict_earliest l es)) < max 1 l"
proof (cases "int (length es) \<ge> l")
  case True
  show ?thesis
  proof (cases "es = []")
    case False
    then obtain k t where kt: "earliest es None = Some (k, t)" using earliest_exists by fastforce
    then have "k \<in> fst ` set es" using earliest_in by force
    then have "length (remove_key k es) < length es" by (rule length_remove_key_less)
    moreover have "k \<noteq> []" using assms(1) \<open>k \<in> fst ` set es\<close> by blast
    ultimately have "evict_earliest l es = remove_key k es" "length (remove_key k es) < length es"
      using True kt by (simp_all add: evict_earliest_def)
    with assms(2) show ?thesis by simp
  qed (simp add: evict_earliest_def)
qed (simp add: evict_earliest_def)

lemma put_key_facts:
  assumes "distinct (map fst es)" "[] \<notin> fst ` set es" "name \<noteq> []"
  shows "distinct (map fst (remove_key name es @ [(name, e)]))"
    and "[] \<notin> fst ` set (remove_key name es @ [(name, e)])"
    and "length (remove_key name es @ [(name, e)]) \<le> Suc (length es)"
proof -
  have "fst ` set (remove_key name es) = fst ` set es - {name}" by simp
  with assms show "distinct (map fst (remove_key name es @ [(name, e)]))"
      "[] \<notin> fst ` set (remove_key name es @ [(name, e)])"
    by (simp_all del: remove_key_simps(3) add: remove_key_simps(2))
  show "length (remove_key name es @ [(name, e)]) \<le> Suc (length es)"
    by (simp add: length_remove_key_le)
qed

definition cache_new :: "int \<Rightarrow> RecordCache \<Rightarrow> (string \<times> cacheEntry) list" where
  "cache_new now c = evict_earliest (rc_limit c) (evict_expired now (rc_entries c))"

definition new_entry :: "int \<Rightarrow> MemNSRecord \<Rightarrow> cacheEntry" where
  "new_entry now r = \<lparr>ce_record = r,
     ce_expiresAt = now + (if nr_Ttl r > 0 then sint (nr_Ttl r) else minute)\<rparr>"

lemma RecordCache_Add_entries:
  "RecordCache_Add now name r c =
     c\<lparr>rc_entries := remove_key name (cache_new now c) @ [(name, new_entry now r)]\<rparr>"
  by (simp add: RecordCache_Add_def Let_def cache_new_def new_entry_def)

lemma cache_new_facts:
  assumes "distinct (map fst (rc_entries c))"
  shows "distinct (map fst (cache_new now c))"
    and "fst ` set (cache_new now c) \<subseteq> fst ` set (rc_entries c)"
    and "map_of (cache_new now c) n = Some e \<Longrightarrow> map_of (rc_entries c) n = Some e"
proof -
  show "distinct (map fst (cache_new now c))"
    unfolding cache_new_def by (intro evict_earliest_facts(1) evict_expired_facts(1) assms)
  show "fst ` set (cache_new now c) \<subseteq> fst ` set (rc_entries c)"
    unfolding cache_new_def using evict_earliest_facts(2) evict_expired_facts(2) by (rule order.trans)
  show "map_of (cache_new now c) n = Some e \<Longrightarrow> map_of (rc_entries c) n = Some e"
    unfolding cache_new_def using evict_expired_map_of [OF assms] evict_earliest_facts(3) by blast
qed

lemma RecordCache_Add_distinct:
  assumes "distinct (map fst (rc_entries c))"
  shows "distinct (map fst (rc_entries (RecordCache_Add now name r c)))"
proof -
  have "fst ` set (remove_key name (cache_new now c)) = fst ` set (cache_new now c) - {name}" by simp
  then show ?thesis
    using cache_new_facts(1) [OF assms, of now] unfolding RecordCache_Add_entries
    by (simp del: remove_key_simps(3) add: remove_key_simps(2))
qed

lemma RecordCache_Add_same:
  "map_of (rc_entries (RecordCache_Add now name r c)) name = Some (new_entry now r)"
  unfolding RecordCache_Add_entries by (simp add: map_add_def)

lemma RecordCache_Add_other:
  assumes "distinct (map fst (rc_entries c))" "n \<noteq> name"
    and "map_of (rc_entries (RecordCache_Add now name r c)) n = Some e"
  shows "map_of (rc_entries c) n = Some e"
proof -
  have "map_of (rc_entries (RecordCache_Add now name r c)) n = map_of (cache_new now c) n"
    using assms(2) unfolding RecordCache_Add_entries by (simp add: map_add_def split: option.split)
  with assms(3) cache_new_facts(3) [OF assms(1)] show ?thesis by simp
qed

lemma RecordCache_Add_inv:
  assumes inv: "cache_inv c" and name: "name \<noteq> []"
  shows "cache_inv (RecordCache_Add now name r c)"
proof -
  have dist: "distinct (map fst (rc_entries c))" and nonil: "[] \<notin> fst ` set (rc_entries c)"
    and len: "int (length (rc_entries c)) \<le> max 1 (rc_limit c)"
    using inv by (simp_all add: cache_inv_def)
  have "[] \<notin> fst ` set (evict_expired now (rc_entries c))"
    using evict_expired_facts(2) [of now "rc_entries c"] nonil by blast
  then have short: "int (length (cache_new now c)) < max 1 (rc_limit c)"
    unfolding cache_new_def by (rule evict_earliest_length) (rule order.trans [OF length_evict_expired len])
  have "[] \<notin> fst ` set (cache_new now c)" using cache_new_facts(2) [OF dist, of now] nonil by blast
  from put_key_facts [OF cache_new_facts(1) [OF dist] this name] short show ?thesis
    unfolding RecordCache_Add_entries cache_inv_def by simp
qed

text \<open>
  Property C36. The cache never grows beyond its limit (or one entry, for a smaller limit), whatever
  the clock and the order in which the map is traversed; an entry just added is served at once, and
  adding a record never changes what is served for another name, except that it may be evicted.
\<close>

theorem record_cache_bounded:
  assumes inv: "cache_inv c" and name: "name \<noteq> []"
  shows "cache_inv (RecordCache_Add now name r c) \<and>
         (sint (nr_Ttl r) \<ge> 0 \<longrightarrow> RecordCache_Get now (RecordCache_Add now name r c) name = Some r) \<and>
         (\<forall>n t r'. n \<noteq> name \<longrightarrow> RecordCache_Get t (RecordCache_Add now name r c) n = Some r' \<longrightarrow>
            RecordCache_Get t c n = Some r')"
proof (intro conjI allI impI)
  show "cache_inv (RecordCache_Add now name r c)" using assms by (rule RecordCache_Add_inv)
  show "RecordCache_Get now (RecordCache_Add now name r c) name = Some r" if "sint (nr_Ttl r) \<ge> 0"
    using that by (simp add: RecordCache_Get_def RecordCache_Add_same new_entry_def minute_def)
  have dist: "distinct (map fst (rc_entries c))" using inv by (simp add: cache_inv_def)
  show "RecordCache_Get t c n = Some r'"
    if "n \<noteq> name" "RecordCache_Get t (RecordCache_Add now name r c) n = Some r'" for n t r'
    using that RecordCache_Add_other [OF dist that(1)]
    by (auto simp: RecordCache_Get_def split: option.splits if_splits)
qed

theorem record_cache_bounded_witness:
  "let c = RecordCache_Add 0 ''b'' (demo_record 2) (RecordCache_Add 0 ''a'' (demo_record 1) (NewRecordCache 1))
   in cache_inv c \<and> RecordCache_Get 0 c ''b'' = Some (demo_record 2) \<and> RecordCache_Get 0 c ''a'' = None"
proof -
  let ?c = "RecordCache_Add 0 ''a'' (demo_record 1) (NewRecordCache 1)"
  have "cache_inv (NewRecordCache 1)" by (simp add: cache_inv_def NewRecordCache_def)
  then have "cache_inv ?c" using record_cache_bounded [of "NewRecordCache 1" "''a''"] by blast
  moreover have "sint (nr_Ttl (demo_record 2)) \<ge> 0" by (simp add: demo_record_def)
  ultimately have "cache_inv (RecordCache_Add 0 ''b'' (demo_record 2) ?c)"
    "RecordCache_Get 0 (RecordCache_Add 0 ''b'' (demo_record 2) ?c) ''b'' = Some (demo_record 2)"
    using record_cache_bounded [of ?c "''b''" 0 "demo_record 2"] by blast+
  moreover have "RecordCache_Get 0 (RecordCache_Add 0 ''b'' (demo_record 2) ?c) ''a'' = None"
    by (simp add: RecordCache_Get_def RecordCache_Add_def NewRecordCache_def evict_expired_def
        evict_earliest_def remove_key_def Let_def demo_record_def minute_def)
  ultimately show ?thesis by (simp add: Let_def)
qed

end
