(* ===== verification/MemnsResolver.thy ===== *)
theory MemnsResolver
  imports Memns
begin

text \<open>
  Resolution of names, src/core/memns/resolver.go, with the DHT access of src/core/memns/dht.go and
  the subscription loop of src/core/memns/pubsub.go. The DHT, DNS and the random source are
  parameters (the record \<open>net\<close>); the clock is read once per hop. The caches are the state.
\<close>

section \<open>Route selection\<close>

definition route_matches :: "(string \<rightharpoonup> string) option \<Rightarrow> MemRoute \<Rightarrow> bool" where
  "route_matches conditions r =
     (if length (mr_Conditions r) > 0 then
        (case conditions of
           None \<Rightarrow> False
         | Some cs \<Rightarrow> list_all (\<lambda>(k, v). cs k = Some v) (mr_Conditions r))
      else True)"

definition sum_weights :: "MemRoute list \<Rightarrow> 32 word" where
  "sum_weights rs = foldl (\<lambda>t r. t + mr_Weight r) 0 rs"

fun pick_route :: "32 word \<Rightarrow> 32 word \<Rightarrow> MemRoute list \<Rightarrow> MemRoute option" where
  "pick_route w cumulative [] = None"
| "pick_route w cumulative (r # rs) =
     (if w < cumulative + mr_Weight r then Some r else pick_route w (cumulative + mr_Weight r) rs)"

text \<open>\<open>intn n\<close> is the result of rand.Intn(n).\<close>

definition SelectRoute ::
  "(nat \<Rightarrow> nat) \<Rightarrow> (string \<rightharpoonup> string) option \<Rightarrow> MemRoute list \<Rightarrow> string \<Rightarrow> string" where
  "SelectRoute intn conditions routes defaultValue =
     (if length routes = 0 then defaultValue
      else
        let activeRoutes = filter (route_matches conditions) routes
        in if length activeRoutes = 0 then defaultValue
           else
             let totalWeight = sum_weights activeRoutes
             in if totalWeight = 0
                then string_of_bytes (mr_Target (activeRoutes ! intn (length activeRoutes)))
                else
                  (case pick_route (word_of_nat (intn (unat totalWeight))) 0 activeRoutes of
                     Some r \<Rightarrow> string_of_bytes (mr_Target r)
                   | None \<Rightarrow> string_of_bytes (mr_Target (last activeRoutes))))"

section \<open>The network as the resolver sees it\<close>

record net =
  dht_GetValue :: "string \<Rightarrow> bytes result"
  dns_Resolve :: "(string \<Rightarrow> string result) option"
  lookupTXT :: "(string \<Rightarrow> string list result) option"
  publicTXT :: "string \<Rightarrow> string list result"
  subscribe_ok :: "(string \<Rightarrow> bool) option"
  conditions :: "(string \<rightharpoonup> string) option"
  clock :: "nat \<Rightarrow> int"
  randIntn :: "nat \<Rightarrow> nat \<Rightarrow> nat"

record resolver =
  rs_cache :: RecordCache
  rs_pubsub :: "string \<rightharpoonup> MemNSRecord option"

definition strip_memns :: "string \<Rightarrow> string" where
  "strip_memns name = (if HasPrefix name ''/memns/'' then drop 7 name else name)"

definition ResolveDHT ::
  "hashlib \<Rightarrow> (string \<Rightarrow> string option) \<Rightarrow> ('sk, 'pk) crypto \<Rightarrow> wire \<Rightarrow> net \<Rightarrow> int \<Rightarrow> string \<Rightarrow>
   MemNSRecord result" where
  "ResolveDHT L U C W N now name =
     (case dht_GetValue N (''/memns/'' @ strip_memns name) of
        Inl err \<Rightarrow> Inl (Wrap ''dht get value error: %w'' err)
      | Inr raw \<Rightarrow>
          (case wr_Unmarshal W raw of
             Inl err \<Rightarrow> Inl (Wrap ''failed to unmarshal record: %w'' err)
           | Inr record \<Rightarrow>
               (case VerifyRecord L U C now record of
                  Some err \<Rightarrow> Inl (Wrap ''record verification failed: %w'' err)
                | None \<Rightarrow> Inr record)))"

text \<open>strings.Trim with the double quote as cutset.\<close>

definition trim_quotes :: "string \<Rightarrow> string" where
  "trim_quotes s = rev (dropWhile (\<lambda>c. c = CHR 0x22) (rev (dropWhile (\<lambda>c. c = CHR 0x22) s)))"

fun first_dnslink :: "string list \<Rightarrow> string result" where
  "first_dnslink [] = Inl (Msg ''memns: no dnslink record found'')"
| "first_dnslink (txt # txts) =
     (let clean = trim_quotes (TrimSpace txt)
      in if HasPrefix clean ''dnslink='' \<and> TrimPrefix clean ''dnslink='' \<noteq> []
         then Inr (TrimPrefix clean ''dnslink='') else first_dnslink txts)"

definition no_answer :: "string list result \<Rightarrow> bool" where
  "no_answer r = (case r of Inl _ \<Rightarrow> True | Inr txts \<Rightarrow> txts = [])"

definition resolveDNSLink :: "net \<Rightarrow> string \<Rightarrow> string result" where
  "resolveDNSLink N domain =
     (case lookupTXT N of
        None \<Rightarrow> Inl (Msg ''memns: lookupTXT not configured'')
      | Some lookup \<Rightarrow>
          let r1 = lookup (''_dnslink.'' @ domain);
              r2 = (if no_answer r1 then publicTXT N (''_dnslink.'' @ domain) else r1);
              r3 = (if no_answer r1 \<and> no_answer r2 then lookup domain else r2)
          in case r3 of Inl err \<Rightarrow> Inl err | Inr txts \<Rightarrow> first_dnslink txts)"

definition subscribeToName :: "net \<Rightarrow> string \<Rightarrow> resolver \<Rightarrow> resolver" where
  "subscribeToName N name r =
     (case subscribe_ok N of
        None \<Rightarrow> r
      | Some sub \<Rightarrow>
          if rs_pubsub r name \<noteq> None then r
          else if sub name then r\<lparr>rs_pubsub := (rs_pubsub r)(name \<mapsto> None)\<rparr>
          else r)"

text \<open>The three sources of a record, in their order: cache, subscription, DHT.\<close>

definition fetch_record ::
  "hashlib \<Rightarrow> (string \<Rightarrow> string option) \<Rightarrow> ('sk, 'pk) crypto \<Rightarrow> wire \<Rightarrow> net \<Rightarrow> int \<Rightarrow> string \<Rightarrow> resolver \<Rightarrow>
   MemNSRecord result \<times> resolver" where
  "fetch_record L U C W N now name r =
     (case RecordCache_Get now (rs_cache r) name of
        Some rec \<Rightarrow> (Inr rec, r)
      | None \<Rightarrow>
          let fromDHT =
                (case ResolveDHT L U C W N now name of
                   Inl err \<Rightarrow> (Inl err, r)
                 | Inr rec \<Rightarrow>
                     (Inr rec, subscribeToName N name
                        (r\<lparr>rs_cache := RecordCache_Add now name rec (rs_cache r)\<rparr>)))
          in case rs_pubsub r name of
               Some (Some rec) \<Rightarrow> if sint (nr_Validity rec) > now then (Inr rec, r) else fromDHT
             | _ \<Rightarrow> fromDHT)"

definition is_final :: "string \<Rightarrow> bool" where
  "is_final s = (HasPrefix s ''/mem/'' \<or> HasPrefix s ''/ipfs/'' \<or> HasPrefix s ''https://'')"

definition is_raw_mid :: "string \<Rightarrow> bool" where
  "is_raw_mid s = (HasPrefix s ''mem'' \<and> \<not> Contains s ''/'' \<and> \<not> Contains s ''.'')"

definition is_domain :: "string \<Rightarrow> bool" where
  "is_domain s = (\<not> HasPrefix s ''/memns/'' \<and> \<not> HasPrefix s ''k51'' \<and> Contains s ''.'')"

definition maxDepth :: nat where "maxDepth = 10"

definition domain_target :: "net \<Rightarrow> string \<Rightarrow> string result" where
  "domain_target N domain =
     (let memlink = (case dns_Resolve N of
                       None \<Rightarrow> Inl (Msg ''memns: dns resolver not configured'')
                     | Some resolve \<Rightarrow> resolve domain)
      in case resolveDNSLink N domain of
           Inr target \<Rightarrow> if target \<noteq> [] then Inr target else memlink
         | Inl _ \<Rightarrow> memlink)"

definition route_target :: "net \<Rightarrow> nat \<Rightarrow> MemNSRecord \<Rightarrow> string" where
  "route_target N depth rec =
     SelectRoute (randIntn N depth) (conditions N) (nr_Routes rec) (string_of_bytes (nr_Value rec))"

text \<open>Where a name or domain that is not yet a content path points to.\<close>

definition next_target ::
  "hashlib \<Rightarrow> (string \<Rightarrow> string option) \<Rightarrow> ('sk, 'pk) crypto \<Rightarrow> wire \<Rightarrow> net \<Rightarrow> string \<Rightarrow> nat \<Rightarrow> resolver \<Rightarrow>
   string result \<times> resolver" where
  "next_target L U C W N s depth r =
     (if is_domain s then (domain_target N s, r)
      else case fetch_record L U C W N (clock N depth) (strip_memns s) r of
             (Inl err, r') \<Rightarrow> (Inl err, r')
           | (Inr rec, r') \<Rightarrow> (Inr (route_target N depth rec), r'))"

function resolveDepth ::
  "hashlib \<Rightarrow> (string \<Rightarrow> string option) \<Rightarrow> ('sk, 'pk) crypto \<Rightarrow> wire \<Rightarrow> net \<Rightarrow> string \<Rightarrow> nat \<Rightarrow> resolver \<Rightarrow>
   string result \<times> resolver" where
  "resolveDepth L U C W N s depth r =
     (if depth \<ge> maxDepth then (Inl (Msg ''memns: loop detected, max resolution depth reached''), r)
      else if is_final s then (Inr s, r)
      else if is_raw_mid s then (Inr (''/mem/'' @ s), r)
      else case next_target L U C W N s depth r of
             (Inl err, r') \<Rightarrow> (Inl err, r')
           | (Inr target, r') \<Rightarrow> resolveDepth L U C W N target (depth + 1) r')"
  by pat_completeness auto
termination
  by (relation "measure (\<lambda>(L, U, C, W, N, s, depth, r). maxDepth - depth)") auto

declare resolveDepth.simps [simp del]

definition memns_Resolve ::
  "hashlib \<Rightarrow> (string \<Rightarrow> string option) \<Rightarrow> ('sk, 'pk) crypto \<Rightarrow> wire \<Rightarrow> net \<Rightarrow> string \<Rightarrow> resolver \<Rightarrow>
   string result \<times> resolver" where
  "memns_Resolve L U C W N s r = resolveDepth L U C W N s 0 r"

section \<open>Subscriptions\<close>

text \<open>The messages of a topic, as SubscribePub forwards them; each is checked at its arrival time.\<close>

fun subscription ::
  "hashlib \<Rightarrow> (string \<Rightarrow> string option) \<Rightarrow> ('sk, 'pk) crypto \<Rightarrow> wire \<Rightarrow> u64 \<Rightarrow> (int \<times> bytes) list \<Rightarrow>
   MemNSRecord list" where
  "subscription L U C W lastSeq [] = []"
| "subscription L U C W lastSeq ((now, data) # msgs) =
     (case wr_Unmarshal W data of
        Inl _ \<Rightarrow> subscription L U C W lastSeq msgs
      | Inr record \<Rightarrow>
          if VerifyRecord L U C now record \<noteq> None then subscription L U C W lastSeq msgs
          else if nr_Sequence record > lastSeq
          then record # subscription L U C W (nr_Sequence record) msgs
          else subscription L U C W lastSeq msgs)"

text \<open>The goroutine of subscribeToName for one received record.\<close>

definition on_update :: "int \<Rightarrow> string \<Rightarrow> MemNSRecord \<Rightarrow> resolver \<Rightarrow> resolver" where
  "on_update now name rec r =
     (let newer = (case rs_pubsub r name of
                     Some (Some current) \<Rightarrow> nr_Sequence rec > nr_Sequence current
                   | _ \<Rightarrow> True)
      in if newer
         then r\<lparr>rs_pubsub := (rs_pubsub r)(name \<mapsto> Some rec),
                rs_cache := RecordCache_Add now name rec (rs_cache r)\<rparr>
         else r)"

section \<open>Resolution without caches\<close>

text \<open>
  The specification: follow the records the DHT serves, hop by hop, with no state at all.
\<close>

definition hop ::
  "hashlib \<Rightarrow> (string \<Rightarrow> string option) \<Rightarrow> ('sk, 'pk) crypto \<Rightarrow> wire \<Rightarrow> net \<Rightarrow> string \<Rightarrow> nat \<Rightarrow> string result" where
  "hop L U C W N s depth =
     (if is_domain s then domain_target N s
      else case ResolveDHT L U C W N (clock N depth) (strip_memns s) of
             Inl err \<Rightarrow> Inl err
           | Inr rec \<Rightarrow> Inr (route_target N depth rec))"

function chase ::
  "hashlib \<Rightarrow> (string \<Rightarrow> string option) \<Rightarrow> ('sk, 'pk) crypto \<Rightarrow> wire \<Rightarrow> net \<Rightarrow> string \<Rightarrow> nat \<Rightarrow> string result" where
  "chase L U C W N s depth =
     (if depth \<ge> maxDepth then Inl (Msg ''memns: loop detected, max resolution depth reached'')
      else if is_final s then Inr s
      else if is_raw_mid s then Inr (''/mem/'' @ s)
      else case hop L U C W N s depth of
             Inl err \<Rightarrow> Inl err
           | Inr target \<Rightarrow> chase L U C W N target (depth + 1))"
  by pat_completeness auto
termination
  by (relation "measure (\<lambda>(L, U, C, W, N, s, depth). maxDepth - depth)") auto

declare chase.simps [simp del]

text \<open>Every cached record is the one the DHT serves for its name.\<close>

definition coherent ::
  "hashlib \<Rightarrow> (string \<Rightarrow> string option) \<Rightarrow> ('sk, 'pk) crypto \<Rightarrow> wire \<Rightarrow> net \<Rightarrow> resolver \<Rightarrow> bool" where
  "coherent L U C W N r \<longleftrightarrow>
     distinct (map fst (rc_entries (rs_cache r))) \<and>
     (\<forall>n e. map_of (rc_entries (rs_cache r)) n = Some e \<longrightarrow>
        (\<forall>d. ResolveDHT L U C W N (clock N d) n = Inr (ce_record e))) \<and>
     (\<forall>n rec. rs_pubsub r n = Some (Some rec) \<longrightarrow>
        (\<forall>d. ResolveDHT L U C W N (clock N d) n = Inr rec))"

text \<open>While a name is resolved, the DHT's answers neither change nor expire.\<close>

definition stable ::
  "hashlib \<Rightarrow> (string \<Rightarrow> string option) \<Rightarrow> ('sk, 'pk) crypto \<Rightarrow> wire \<Rightarrow> net \<Rightarrow> bool" where
  "stable L U C W N \<longleftrightarrow>
     (\<forall>n d d'. ResolveDHT L U C W N (clock N d) n = ResolveDHT L U C W N (clock N d') n)"

lemma coherent_subscribe: "coherent L U C W N r \<Longrightarrow> coherent L U C W N (subscribeToName N name r)"
  by (auto simp: coherent_def subscribeToName_def split: option.splits)

lemma coherent_Add:
  assumes "coherent L U C W N r" "stable L U C W N" "ResolveDHT L U C W N (clock N d) name = Inr rec"
  shows "coherent L U C W N (r\<lparr>rs_cache := RecordCache_Add now name rec (rs_cache r)\<rparr>)"
proof -
  have dist: "distinct (map fst (rc_entries (rs_cache r)))"
    and old: "\<And>n e d. map_of (rc_entries (rs_cache r)) n = Some e \<Longrightarrow>
        ResolveDHT L U C W N (clock N d) n = Inr (ce_record e)"
    using assms(1) by (auto simp: coherent_def)
  have "ResolveDHT L U C W N (clock N d') n = Inr (ce_record e)"
    if e: "map_of (rc_entries (RecordCache_Add now name rec (rs_cache r))) n = Some e" for n e d'
  proof (cases "n = name")
    case True
    then have "ce_record e = rec" using e by (auto simp: RecordCache_Add_same new_entry_def)
    with True assms(2,3) show ?thesis unfolding stable_def by metis
  next
    case False
    with RecordCache_Add_other [OF dist False e] old show ?thesis by blast
  qed
  then show ?thesis
    using assms(1) RecordCache_Add_distinct [OF dist, of now name rec] by (simp add: coherent_def)
qed

lemma fetch_record_spec:
  assumes coh: "coherent L U C W N r" and st: "stable L U C W N"
  shows "fst (fetch_record L U C W N (clock N d) name r) = ResolveDHT L U C W N (clock N d) name"
    and "coherent L U C W N (snd (fetch_record L U C W N (clock N d) name r))"
proof -
  have cached: "ResolveDHT L U C W N (clock N d) name = Inr rec"
    if "RecordCache_Get now (rs_cache r) name = Some rec" for now rec
    using that coh by (auto simp: RecordCache_Get_def coherent_def split: option.splits if_splits)
  have pubsub: "ResolveDHT L U C W N (clock N d) name = Inr rec"
    if "rs_pubsub r name = Some (Some rec)" for rec
    using that coh by (simp add: coherent_def)
  show "fst (fetch_record L U C W N (clock N d) name r) = ResolveDHT L U C W N (clock N d) name"
    using cached pubsub by (auto simp: fetch_record_def Let_def split: option.splits sum.splits)
  show "coherent L U C W N (snd (fetch_record L U C W N (clock N d) name r))"
    using coh coherent_subscribe [OF coherent_Add [OF coh st]]
    by (auto simp: fetch_record_def Let_def split: option.splits sum.splits)
qed

lemma next_target_spec:
  assumes "coherent L U C W N r" "stable L U C W N"
  shows "fst (next_target L U C W N s d r) = hop L U C W N s d"
    and "coherent L U C W N (snd (next_target L U C W N s d r))"
  using fetch_record_spec [OF assms, of d "strip_memns s"] assms(1)
  by (auto simp: next_target_def hop_def split: prod.splits sum.splits)

lemma resolveDepth_chase:
  "coherent L U C W N r \<Longrightarrow> stable L U C W N \<Longrightarrow>
   fst (resolveDepth L U C W N s d r) = chase L U C W N s d \<and>
   coherent L U C W N (snd (resolveDepth L U C W N s d r))"
proof (induction L U C W N s d r rule: resolveDepth.induct)
  case (1 L U C W N s d r)
  show ?case
  proof (cases "d \<ge> maxDepth \<or> is_final s \<or> is_raw_mid s")
    case True
    then show ?thesis using "1.prems"
      by (auto simp: resolveDepth.simps [of L U C W N s d r] chase.simps [of L U C W N s d])
  next
    case False
    obtain res r' where n: "next_target L U C W N s d r = (res, r')" by fastforce
    with next_target_spec [OF "1.prems", of s d] have h: "hop L U C W N s d = res"
      and coh: "coherent L U C W N r'" by simp_all
    show ?thesis
    proof (cases res)
      case (Inl err)
      with False n h coh show ?thesis
        by (simp add: resolveDepth.simps [of L U C W N s d r] chase.simps [of L U C W N s d])
    next
      case (Inr t)
      have "fst (resolveDepth L U C W N t (d + 1) r') = chase L U C W N t (d + 1) \<and>
          coherent L U C W N (snd (resolveDepth L U C W N t (d + 1) r'))"
        using "1.IH" [OF _ _ _ n [symmetric] Inr coh "1.prems"(2)] False by simp
      with False n h Inr show ?thesis
        by (simp add: resolveDepth.simps [of L U C W N s d r] chase.simps [of L U C W N s d])
    qed
  qed
qed

section \<open>A concrete network\<close>

text \<open>One name, ka, whose record points to another, kb, which points to content; no DNS.\<close>

definition demo_ns_record :: "string \<Rightarrow> MemNSRecord" where
  "demo_ns_record target =
     (demo_record 1)\<lparr>nr_Value := bytes_of_string target, nr_PublicKey := [9],
        nr_Signature := 9 # bytes_of_string target @ PutUint64 1 @ PutUint64 5\<rparr>"

definition demo_ns_wire :: wire where
  "demo_ns_wire = demo_wire [demo_ns_record ''/memns/kb'', demo_ns_record ''/mem/x1'', demo_ns_record ''/memns/kc'']"

definition demo_net :: net where
  "demo_net =
     \<lparr>dht_GetValue = (\<lambda>k. if k = ''/memns/ka'' then Inr [] else if k = ''/memns/kb'' then Inr [0]
                        else if k = ''/memns/kc'' then Inr [0, 0] else Inl (Msg ''routing: not found'')),
      dns_Resolve = None, lookupTXT = None, publicTXT = (\<lambda>_. Inr []), subscribe_ok = None,
      conditions = None, clock = (\<lambda>_. 0), randIntn = (\<lambda>_ _. 0)\<rparr>"

definition demo_resolver :: resolver where
  "demo_resolver = \<lparr>rs_cache = NewRecordCache 2, rs_pubsub = Map.empty\<rparr>"

lemma demo_stable: "stable demo_lib U demo_crypto demo_ns_wire demo_net"
  by (simp add: stable_def demo_net_def)

lemma demo_coherent: "coherent demo_lib U demo_crypto demo_ns_wire demo_net demo_resolver"
  by (simp add: coherent_def demo_resolver_def NewRecordCache_def)

lemma demo_ns_verify:
  "is_ok (ValidateAndNormalizeValue demo_lib U target) \<Longrightarrow>
   VerifyRecord demo_lib U demo_crypto 0 (demo_ns_record target) = None"
  by (auto simp: VerifyRecord_def demo_ns_record_def demo_record_def check_signature_def
      demo_crypto_def CanonicalBytes_def is_ok_iff)

lemma demo_ns_targets:
  "is_ok (ValidateAndNormalizeValue demo_lib (\<lambda>_. None) ''/memns/kb'')"
  "is_ok (ValidateAndNormalizeValue demo_lib (\<lambda>_. None) ''/memns/kc'')"
  "is_ok (ValidateAndNormalizeValue demo_lib (\<lambda>_. None) ''/mem/x1'')"
  by code_simp+

lemma demo_shapes:
  "\<not> is_final ''/memns/ka''" "\<not> is_raw_mid ''/memns/ka''" "\<not> is_domain ''/memns/ka''"
  "\<not> is_final ''/memns/kb''" "\<not> is_raw_mid ''/memns/kb''" "\<not> is_domain ''/memns/kb''"
  "\<not> is_final ''/memns/kc''" "\<not> is_raw_mid ''/memns/kc''" "\<not> is_domain ''/memns/kc''"
  "is_final ''/mem/x1''"
  by code_simp+

lemma demo_hops:
  "hop demo_lib (\<lambda>_. None) demo_crypto demo_ns_wire demo_net ''/memns/ka'' d = Inr ''/memns/kb''"
  "hop demo_lib (\<lambda>_. None) demo_crypto demo_ns_wire demo_net ''/memns/kb'' d = Inr ''/mem/x1''"
  "hop demo_lib (\<lambda>_. None) demo_crypto demo_ns_wire demo_net ''/memns/kc'' d = Inr ''/memns/kc''"
  using demo_ns_targets [THEN demo_ns_verify]
  by (simp_all add: hop_def demo_shapes ResolveDHT_def strip_memns_def HasPrefix_def demo_net_def
      demo_ns_wire_def demo_wire_def route_target_def SelectRoute_def)
    (simp_all add: demo_ns_record_def demo_record_def)

section \<open>Properties\<close>



lemma resolveDepth_final: "fst (resolveDepth L U C W N s d r) = Inr t \<Longrightarrow> is_final t"
proof (induction L U C W N s d r rule: resolveDepth.induct)
  case (1 L U C W N s d r)
  obtain res r' where n: "next_target L U C W N s d r = (res, r')" by fastforce
  have mem: "is_final (''/mem/'' @ s)"
    unfolding is_final_def using HasPrefix_append [of "''/mem/''" s] by blast
  show ?case
    using "1.prems" "1.IH" [OF _ _ _ n [symmetric]] n mem
    by (cases res) (auto simp: resolveDepth.simps [of L U C W N s d r] split: if_splits)
qed

text \<open>
  Property C37. A resolution that succeeds ends at content: whatever the caches, the DHT and DNS
  contain, the result is a /mem/ or /ipfs/ path or an https URL, never another name or a domain.
\<close>

theorem resolve_ends_at_content:
  assumes "fst (memns_Resolve L U C W N s r) = Inr t"
  shows "HasPrefix t ''/mem/'' \<or> HasPrefix t ''/ipfs/'' \<or> HasPrefix t ''https://''"
  using resolveDepth_final [OF assms [unfolded memns_Resolve_def]] by (simp add: is_final_def)

theorem resolve_ends_at_content_witness:
  "\<exists>t. fst (memns_Resolve demo_lib (\<lambda>_. None) demo_crypto demo_ns_wire demo_net ''memabc'' demo_resolver) = Inr t \<and>
     (HasPrefix t ''/mem/'' \<or> HasPrefix t ''/ipfs/'' \<or> HasPrefix t ''https://'')"
proof -
  have shapes: "\<not> is_final ''memabc''" "is_raw_mid ''memabc''" by code_simp+
  have "fst (memns_Resolve demo_lib (\<lambda>_. None) demo_crypto demo_ns_wire demo_net ''memabc'' demo_resolver) =
      Inr (''/mem/'' @ ''memabc'')"
    by (subst memns_Resolve_def, subst resolveDepth.simps) (simp add: shapes maxDepth_def)
  with resolve_ends_at_content [OF this] show ?thesis by blast
qed

lemma chase_path:
  "(\<And>i. i < k \<Longrightarrow> \<not> is_final (f (d + i)) \<and> \<not> is_raw_mid (f (d + i)) \<and>
      hop L U C W N (f (d + i)) (d + i) = Inr (f (Suc (d + i)))) \<Longrightarrow>
   d + k \<le> maxDepth \<Longrightarrow>
   chase L U C W N (f d) d = chase L U C W N (f (d + k)) (d + k)"
proof (induction k arbitrary: d)
  case (Suc k)
  have "chase L U C W N (f d) d = chase L U C W N (f (Suc d)) (Suc d)"
    using Suc.prems(1) [of 0] Suc.prems(2) by (simp add: chase.simps [of L U C W N "f d" d])
  also have "\<dots> = chase L U C W N (f (Suc d + k)) (Suc d + k)"
    using Suc.prems(1) [of "Suc i" for i] Suc.prems(2) by (intro Suc.IH) simp_all
  finally show ?case by simp
qed simp

text \<open>
  Property C38. Names resolve: a chain of fewer than ten records that ends at content is followed
  to its end.
\<close>

theorem resolve_follows_chain:
  assumes "coherent L U C W N r" "stable L U C W N" "k < 10"
    and chain: "\<forall>i<k. \<not> is_final (f i) \<and> \<not> is_raw_mid (f i) \<and> hop L U C W N (f i) i = Inr (f (Suc i))"
    and "is_final (f k)"
  shows "fst (memns_Resolve L U C W N (f 0) r) = Inr (f k)"
proof -
  have "chase L U C W N (f 0) 0 = chase L U C W N (f (0 + k)) (0 + k)"
    by (rule chase_path) (use chain \<open>k < 10\<close> in \<open>simp_all add: maxDepth_def\<close>)
  also have "\<dots> = Inr (f k)" using assms(3,5) by (simp add: chase.simps [of L U C W N "f k" k] maxDepth_def)
  finally show ?thesis using resolveDepth_chase [OF assms(1,2)] by (simp add: memns_Resolve_def)
qed

theorem resolve_follows_chain_witness:
  "fst (memns_Resolve demo_lib (\<lambda>_. None) demo_crypto demo_ns_wire demo_net ''/memns/ka'' demo_resolver) =
     Inr ''/mem/x1''"
proof -
  let ?f = "\<lambda>i. [''/memns/ka'', ''/memns/kb'', ''/mem/x1''] ! i"
  have "\<forall>i<2. \<not> is_final (?f i) \<and> \<not> is_raw_mid (?f i) \<and>
      hop demo_lib (\<lambda>_. None) demo_crypto demo_ns_wire demo_net (?f i) i = Inr (?f (Suc i))"
    by (auto simp: less_Suc_eq numeral_2_eq_2 demo_shapes demo_hops)
  from resolve_follows_chain [OF demo_coherent demo_stable _ this] show ?thesis
    by (simp add: demo_shapes)
qed

text \<open>
  Property C39. Cycles end: when ten successive hops reach no content, because names point at each
  other or the chain is too long, the resolution stops and reports the loop.
\<close>

theorem resolve_loop_detected:
  assumes "coherent L U C W N r" "stable L U C W N"
    and chain: "\<forall>i<10. \<not> is_final (f i) \<and> \<not> is_raw_mid (f i) \<and> hop L U C W N (f i) i = Inr (f (Suc i))"
  shows "fst (memns_Resolve L U C W N (f 0) r) =
           Inl (Msg ''memns: loop detected, max resolution depth reached'')"
proof -
  have "chase L U C W N (f 0) 0 = chase L U C W N (f (0 + 10)) (0 + 10)"
    by (rule chase_path) (use chain in \<open>simp_all add: maxDepth_def\<close>)
  also have "\<dots> = Inl (Msg ''memns: loop detected, max resolution depth reached'')"
    by (simp add: chase.simps [of L U C W N "f 10" 10] maxDepth_def)
  finally show ?thesis using resolveDepth_chase [OF assms(1,2)] by (simp add: memns_Resolve_def)
qed

theorem resolve_loop_detected_witness:
  "fst (memns_Resolve demo_lib (\<lambda>_. None) demo_crypto demo_ns_wire demo_net ''/memns/kc'' demo_resolver) =
     Inl (Msg ''memns: loop detected, max resolution depth reached'')"
  by (rule resolve_loop_detected [OF demo_coherent demo_stable, where f = "\<lambda>_. ''/memns/kc''"])
    (simp add: demo_shapes demo_hops)

section \<open>Weighted routes\<close>

definition weight_sum :: "MemRoute list \<Rightarrow> nat" where
  "weight_sum rs = sum_list (map (\<lambda>r. unat (mr_Weight r)) rs)"

lemma sum_weights_foldl: "foldl (\<lambda>t r. t + mr_Weight r) a rs = a + word_of_nat (weight_sum rs)"
  by (induction rs arbitrary: a) (simp_all add: weight_sum_def add.assoc)

lemma sum_weights_unat: "weight_sum rs < 2 ^ 32 \<Longrightarrow> unat (sum_weights rs) = weight_sum rs"
  by (simp add: sum_weights_def sum_weights_foldl unat_of_nat)

lemma pick_route_weight:
  "unat c + weight_sum rs < 2 ^ 32 \<Longrightarrow> unat c \<le> unat w \<Longrightarrow> unat w < unat c + weight_sum rs \<Longrightarrow>
   \<exists>i<length rs. pick_route w c rs = Some (rs ! i) \<and>
     unat c + weight_sum (take i rs) \<le> unat w \<and> unat w < unat c + weight_sum (take (Suc i) rs)"
proof (induction rs arbitrary: c)
  case (Cons r rs)
  have c': "unat (c + mr_Weight r) = unat c + unat (mr_Weight r)"
    using Cons.prems(1) by (simp add: weight_sum_def unat_word_ariths)
  show ?case
  proof (cases "w < c + mr_Weight r")
    case True
    with Cons.prems c' show ?thesis
      by (intro exI [of _ 0]) (simp add: weight_sum_def word_less_nat_alt)
  next
    case False
    then have "unat (c + mr_Weight r) \<le> unat w" by (simp add: word_less_nat_alt)
    with Cons.IH [of "c + mr_Weight r"] Cons.prems c' obtain i where "i < length rs"
      "pick_route w (c + mr_Weight r) rs = Some (rs ! i)"
      "unat c + unat (mr_Weight r) + weight_sum (take i rs) \<le> unat w"
      "unat w < unat c + unat (mr_Weight r) + weight_sum (take (Suc i) rs)"
      by (auto simp: weight_sum_def)
    with False show ?thesis by (intro exI [of _ "Suc i"]) (simp add: weight_sum_def)
  qed
qed (simp add: weight_sum_def)

text \<open>
  Weighted routing: when the weights of the routes whose conditions match sum to a
  positive number below \<open>2 ^ 32\<close>, the random draw \<open>n\<close> selects the route in whose interval of
  cumulated weights it falls. So each route is chosen for exactly as many draws as its weight, and a
  route of weight 0 never.
\<close>

theorem route_by_weight:
  fixes routes :: "MemRoute list"
  assumes "active = filter (route_matches cs) routes"
    and "0 < weight_sum active" "weight_sum active < 2 ^ 32" "intn (weight_sum active) < weight_sum active"
  shows "\<exists>i<length active.
           SelectRoute intn cs routes dflt = string_of_bytes (mr_Target (active ! i)) \<and>
           weight_sum (take i active) \<le> intn (weight_sum active) \<and>
           intn (weight_sum active) < weight_sum (take (Suc i) active)"
proof -
  let ?w = "word_of_nat (intn (weight_sum active)) :: 32 word"
  have total: "unat (sum_weights active) = weight_sum active" using assms(3) by (rule sum_weights_unat)
  then have nz: "sum_weights active \<noteq> 0" using assms(2) by auto
  have w: "unat ?w = intn (weight_sum active)" using assms(3,4) by (simp add: unat_of_nat)
  obtain i where i: "i < length active" "pick_route ?w 0 active = Some (active ! i)"
      "weight_sum (take i active) \<le> unat ?w" "unat ?w < weight_sum (take (Suc i) active)"
    using pick_route_weight [of 0 active ?w] assms(3,4) w by auto
  have "active \<noteq> []" "routes \<noteq> []" using i(1) assms(1) by auto
  then have "SelectRoute intn cs routes dflt = string_of_bytes (mr_Target (active ! i))"
    using i(2) nz total by (simp add: SelectRoute_def Let_def flip: assms(1))
  with i w show ?thesis by auto
qed

definition demo_route :: "string \<Rightarrow> 32 word \<Rightarrow> MemRoute" where
  "demo_route t w = \<lparr>mr_Target = bytes_of_string t, mr_Weight = w, mr_Label = [], mr_Conditions = []\<rparr>"

theorem route_by_weight_witness:
  "\<exists>i<length [demo_route ''a'' 3, demo_route ''b'' 2].
     SelectRoute (\<lambda>_. 4) None [demo_route ''a'' 3, demo_route ''b'' 2] [] =
       string_of_bytes (mr_Target ([demo_route ''a'' 3, demo_route ''b'' 2] ! i)) \<and>
     weight_sum (take i [demo_route ''a'' 3, demo_route ''b'' 2]) \<le> 4 \<and>
     4 < weight_sum (take (Suc i) [demo_route ''a'' 3, demo_route ''b'' 2])"
  by (rule route_by_weight [where intn = "\<lambda>_. 4"])
    (simp_all add: route_matches_def demo_route_def weight_sum_def)

section \<open>Subscriptions only move forward\<close>

lemma subscription_increasing:
  "sorted_wrt (<) (lastSeq # map nr_Sequence (subscription L U C W lastSeq msgs))"
proof (induction msgs arbitrary: lastSeq)
  case (Cons m msgs)
  obtain now data where m: "m = (now, data)" by fastforce
  show ?case
  proof (cases "wr_Unmarshal W data")
    case (Inl e)
    with Cons [of lastSeq] m show ?thesis by simp
  next
    case (Inr rec)
    show ?thesis
    proof (cases "VerifyRecord L U C now rec = None \<and> lastSeq < nr_Sequence rec")
      case True
      have "lastSeq < s" if "s \<in> nr_Sequence ` set (subscription L U C W (nr_Sequence rec) msgs)" for s
        using Cons [of "nr_Sequence rec"] True that by force
      with Cons [of "nr_Sequence rec"] True m Inr show ?thesis by simp
    next
      case False
      with Cons [of lastSeq] m Inr show ?thesis by auto
    qed
  qed
qed simp

definition pubsub_seq :: "resolver \<Rightarrow> string \<Rightarrow> u64" where
  "pubsub_seq r name = (case rs_pubsub r name of Some (Some rec) \<Rightarrow> nr_Sequence rec | _ \<Rightarrow> 0)"

lemma on_update_seq: "pubsub_seq r n \<le> pubsub_seq (on_update now name rec r) n"
  by (auto simp: pubsub_seq_def on_update_def Let_def split: option.splits)

text \<open>
  Property C40. No rollback through a subscription: the records a subscription forwards have
  strictly increasing sequence numbers, and whatever updates arrive, the sequence number remembered
  for a name never decreases, so a replayed older record changes nothing.
\<close>

theorem subscription_no_rollback:
  "sorted_wrt (<) (map nr_Sequence (subscription L U C W lastSeq msgs)) \<and>
   pubsub_seq r n \<le> pubsub_seq (fold (\<lambda>(now, rec). on_update now name rec) ups r) n"
proof
  show "sorted_wrt (<) (map nr_Sequence (subscription L U C W lastSeq msgs))"
    using subscription_increasing [of lastSeq L U C W msgs] by simp
  show "pubsub_seq r n \<le> pubsub_seq (fold (\<lambda>(now, rec). on_update now name rec) ups r) n"
    by (induction ups arbitrary: r) (auto intro: order.trans [OF on_update_seq])
qed

end
