(* ===== verification/PebbleDB.thy ===== *)
theory PebbleDB
  imports Blockstore "HOL-Library.List_Lexorder"
begin

text \<open>
  src/core/db/db.go: the wrapper of the Pebble key-value store, its key formats and timestamps.
  Pebble itself is a parameter, the record \<open>pebble\<close> over an abstract state; \<open>pebble_ok\<close> names its
  documented behaviour, relative to the map the state stands for: a read returns the value of the
  key, a batch is applied as a whole or not at all, an iterator runs over all keys in ascending
  order. Every operation of Pebble may fail.
\<close>

section \<open>Pebble\<close>

type_synonym batch = "(bytes \<times> bytes option) list"

record 'd pebble =
  pb_Get :: "'d \<Rightarrow> bytes \<Rightarrow> bytes option result"
  pb_Commit :: "'d \<Rightarrow> batch \<Rightarrow> gerror option \<times> 'd"
  pb_Iter :: "'d \<Rightarrow> (bytes \<times> bytes) list result"
  pb_Close :: "'d \<Rightarrow> gerror option \<times> 'd"

definition apply_op :: "bytes \<times> bytes option \<Rightarrow> (bytes \<rightharpoonup> bytes) \<Rightarrow> (bytes \<rightharpoonup> bytes)" where
  "apply_op op m = m(fst op := snd op)"

definition apply_batch :: "batch \<Rightarrow> (bytes \<rightharpoonup> bytes) \<Rightarrow> (bytes \<rightharpoonup> bytes)" where
  "apply_batch b m = fold apply_op b m"

definition pebble_ok :: "'d pebble \<Rightarrow> ('d \<Rightarrow> bytes \<rightharpoonup> bytes) \<Rightarrow> bool" where
  "pebble_ok P view \<longleftrightarrow>
     (\<forall>d k v. pb_Get P d k = Inr v \<longrightarrow> v = view d k) \<and>
     (\<forall>d b d'. pb_Commit P d b = (None, d') \<longrightarrow> view d' = apply_batch b (view d)) \<and>
     (\<forall>d b e d'. pb_Commit P d b = (Some e, d') \<longrightarrow> view d' = view d) \<and>
     (\<forall>d kvs. pb_Iter P d = Inr kvs \<longrightarrow> sorted_wrt (<) (map fst kvs) \<and> map_of kvs = view d)"

section \<open>The wrapper\<close>

definition db_ErrClosed :: gerror where "db_ErrClosed = Sentinel ''db: closed''"

record 'd DB =
  db_pebble :: 'd
  db_closed :: bool

definition DB_Get :: "'d pebble \<Rightarrow> 'd DB \<Rightarrow> bytes \<Rightarrow> bytes result" where
  "DB_Get P db key =
     (if db_closed db then Inl db_ErrClosed
      else case pb_Get P (db_pebble db) key of
        Inl err \<Rightarrow> Inl err
      | Inr None \<Rightarrow> Inl db_ErrNotFound
      | Inr (Some val) \<Rightarrow> Inr val)"

definition DB_Has :: "'d pebble \<Rightarrow> 'd DB \<Rightarrow> bytes \<Rightarrow> bool result" where
  "DB_Has P db key =
     (if db_closed db then Inl db_ErrClosed
      else case pb_Iter P (db_pebble db) of
        Inl err \<Rightarrow> Inl err
      | Inr kvs \<Rightarrow>
          (case dropWhile (\<lambda>kv. fst kv < key) kvs of
             [] \<Rightarrow> Inr False
           | kv # _ \<Rightarrow> Inr (fst kv = key)))"

definition DB_NewIter :: "'d pebble \<Rightarrow> 'd DB \<Rightarrow> (bytes \<times> bytes) list result" where
  "DB_NewIter P db = (if db_closed db then Inl db_ErrClosed else pb_Iter P (db_pebble db))"

definition Batch_Commit :: "'d pebble \<Rightarrow> 'd DB \<Rightarrow> batch \<Rightarrow> gerror option \<times> 'd DB" where
  "Batch_Commit P db b =
     (case pb_Commit P (db_pebble db) b of (err, d') \<Rightarrow> (err, db\<lparr>db_pebble := d'\<rparr>))"

definition DB_Set :: "'d pebble \<Rightarrow> 'd DB \<Rightarrow> bytes \<Rightarrow> bytes \<Rightarrow> gerror option \<times> 'd DB" where
  "DB_Set P db key val =
     (if db_closed db then (Some db_ErrClosed, db) else Batch_Commit P db [(key, Some val)])"

definition DB_Delete :: "'d pebble \<Rightarrow> 'd DB \<Rightarrow> bytes \<Rightarrow> gerror option \<times> 'd DB" where
  "DB_Delete P db key =
     (if db_closed db then (Some db_ErrClosed, db) else Batch_Commit P db [(key, None)])"

definition DB_Close :: "'d pebble \<Rightarrow> 'd DB \<Rightarrow> gerror option \<times> 'd DB" where
  "DB_Close P db =
     (if db_closed db then (None, db)
      else case pb_Close P (db_pebble db) of (err, d') \<Rightarrow> (err, db\<lparr>db_pebble := d', db_closed := True\<rparr>))"

section \<open>Keys\<close>

definition PrefixBlock :: bytes where "PrefixBlock = bytes_of_string ''/b/''"
definition PrefixDAG :: bytes where "PrefixDAG = bytes_of_string ''/d/''"
definition PrefixSeal :: bytes where "PrefixSeal = bytes_of_string ''/s/''"
definition PrefixMeta :: bytes where "PrefixMeta = bytes_of_string ''/m/''"

definition BlockKey :: "MID \<Rightarrow> bytes" where "BlockKey m = PrefixBlock @ m_Hash m"
definition DagKey :: "MID \<Rightarrow> bytes" where "DagKey m = PrefixDAG @ m_Hash m"
definition SealKey :: "MID \<Rightarrow> bytes" where "SealKey m = PrefixSeal @ m_Hash m"
definition MetaKey :: "string \<Rightarrow> bytes" where "MetaKey k = PrefixMeta @ bytes_of_string k"

definition TimestampKey :: "hashlib \<Rightarrow> MID \<Rightarrow> bytes" where
  "TimestampKey L m = MetaKey (''ts/'' @ MID_String L m)"

definition PutTimestamp :: "hashlib \<Rightarrow> int \<Rightarrow> MID \<Rightarrow> bytes \<times> bytes option" where
  "PutTimestamp L now m = (TimestampKey L m, Some (PutUint64 (word_of_int now)))"

definition ReadTimestamp :: "hashlib \<Rightarrow> 'd pebble \<Rightarrow> 'd DB \<Rightarrow> MID \<Rightarrow> u64 result" where
  "ReadTimestamp L P db m =
     (case DB_Get P db (TimestampKey L m) of
        Inl err \<Rightarrow> if errors_Is err db_ErrNotFound then Inr 0 else Inl err
      | Inr val \<Rightarrow>
          if length val < 8 then Inl (Msg ''db: corrupt timestamp size'') else Inr (Uint64 val))"

text \<open>The loop \<open>for it.SeekGE(p); it.Valid() && HasPrefix(it.Key(), p); it.Next()\<close>.\<close>

definition has_prefix :: "bytes \<Rightarrow> bytes \<Rightarrow> bool" where
  "has_prefix p k = (take (length p) k = p)"

definition scan_prefix :: "bytes \<Rightarrow> (bytes \<times> bytes) list \<Rightarrow> (bytes \<times> bytes) list" where
  "scan_prefix p kvs = takeWhile (\<lambda>kv. has_prefix p (fst kv)) (dropWhile (\<lambda>kv. fst kv < p) kvs)"

section \<open>Lemmas\<close>

lemmas key_prefixes = PrefixBlock_def PrefixDAG_def PrefixSeal_def PrefixMeta_def

lemma length_prefixes [simp]:
  "length PrefixBlock = 3" "length PrefixDAG = 3" "length PrefixSeal = 3" "length PrefixMeta = 3"
  by (simp_all add: key_prefixes bytes_of_string_def)

lemma prefixes_differ [simp]:
  "PrefixBlock \<noteq> PrefixDAG" "PrefixBlock \<noteq> PrefixSeal" "PrefixBlock \<noteq> PrefixMeta"
  "PrefixDAG \<noteq> PrefixSeal" "PrefixDAG \<noteq> PrefixMeta" "PrefixSeal \<noteq> PrefixMeta"
  by code_simp+

lemma prefix_key_eq:
  "length p = length q \<Longrightarrow> p @ x = q @ y \<longleftrightarrow> p = q \<and> x = y"
  by simp

lemma has_prefix_append [simp]: "has_prefix p (p @ x)"
  by (simp add: has_prefix_def)

lemma has_prefixE: "has_prefix p k \<Longrightarrow> (\<And>x. k = p @ x \<Longrightarrow> thesis) \<Longrightarrow> thesis"
  by (metis append_take_drop_id has_prefix_def)

lemma has_prefix_ge: "has_prefix p k \<Longrightarrow> (p :: bytes) \<le> k"
  by (erule has_prefixE) (induction p arbitrary: k, auto)

lemma prefix_convex:
  "has_prefix p c \<Longrightarrow> (p :: bytes) \<le> b \<Longrightarrow> b \<le> c \<Longrightarrow> has_prefix p b"
proof (induction p arbitrary: b c)
  case (Cons x p)
  then obtain c' where c: "c = x # c'" "has_prefix p c'" by (cases c) (auto simp: has_prefix_def)
  obtain y b' where b: "b = y # b'" using Cons.prems(2) by (cases b) auto
  have "y = x" "p \<le> b'" "b' \<le> c'" using Cons.prems(2,3) b c(1) by auto
  with Cons.IH [OF c(2)] b show ?case by (simp add: has_prefix_def)
qed (simp add: has_prefix_def)

lemma scan_prefix_filter:
  assumes "sorted_wrt (<) (map fst kvs)"
  shows "scan_prefix p kvs = filter (\<lambda>kv. has_prefix p (fst kv)) kvs"
  using assms
proof (induction kvs)
  case (Cons kv kvs)
  show ?case
  proof (cases "fst kv < p")
    case True
    then have "\<not> has_prefix p (fst kv)" using has_prefix_ge [of p "fst kv"] by (auto simp: not_le [symmetric])
    with Cons True show ?thesis by (simp add: scan_prefix_def)
  next
    case False
    have later: "fst kv < fst e" if "e \<in> set kvs" for e using Cons.prems that by auto
    have keep: "dropWhile (\<lambda>kv. fst kv < p) kvs = kvs"
    proof (cases kvs)
      case (Cons e es)
      then have "fst kv < fst e" using later by simp
      with False have "\<not> fst e < p" by (meson order.strict_trans)
      with Cons show ?thesis by simp
    qed simp
    show ?thesis
    proof (cases "has_prefix p (fst kv)")
      case True
      with Cons False keep show ?thesis by (simp add: scan_prefix_def)
    next
      case no: False
      have "\<not> has_prefix p (fst e)" if "e \<in> set kvs" for e
        using prefix_convex [of p "fst e" "fst kv"] less_imp_le [OF later [OF that]] no False
        by (auto simp: not_less)
      then show ?thesis using no False by (simp add: scan_prefix_def filter_empty_conv)
    qed
  qed
qed (simp add: scan_prefix_def)

end
