(* ===== verification/StoreIndex.thy ===== *)
theory StoreIndex
  imports PebbleDB CountingBloom
begin

text \<open>
  The two in-memory companions of the persistent store: the Bloom index of
  src/core/store/bloom.go, which lets lookups of absent blocks skip the database, and the write
  tracker of src/core/store/gc_tracker.go, which protects recent and concurrent writes from the
  garbage collector. Times are Unix seconds, durations nanoseconds; the sizes the floating-point
  configuration of the filter leads to are the fields \<open>bi_m\<close> and \<open>bi_k\<close>.
\<close>

section \<open>The Bloom index\<close>

record bloomIndex =
  bi_cbf :: "CountingBloomFilter option"
  bi_m :: u64
  bi_k :: u64
  bi_path :: string
  bi_closed :: bool

text \<open>The snapshot file is read at construction: \<open>None\<close> when there is none.\<close>

definition newBloomIndex :: "u64 \<Rightarrow> u64 \<Rightarrow> string \<Rightarrow> bytes option \<Rightarrow> bloomIndex" where
  "newBloomIndex m k path snapshot =
     (let idx = \<lparr>bi_cbf = None, bi_m = m, bi_k = k, bi_path = path, bi_closed = False\<rparr>;
          fresh = idx\<lparr>bi_cbf := Some (NewCountingBloomFilter m k)\<rparr>
      in if path \<noteq> [] then
           (case snapshot of
              None \<Rightarrow> fresh
            | Some data \<Rightarrow>
                (case cbf_UnmarshalBinary data of
                   Inl _ \<Rightarrow> fresh
                 | Inr cbf \<Rightarrow> idx\<lparr>bi_cbf := Some cbf\<rparr>))
         else fresh)"

text \<open>The loop shared by fromDB and performRebuild.\<close>

definition index_keys :: "(bytes \<times> bytes) list \<Rightarrow> bytes list" where
  "index_keys kvs =
     concat (map (\<lambda>p. map (\<lambda>kv. drop (length p) (fst kv))
       (filter (\<lambda>kv. length p < length (fst kv)) (scan_prefix p kvs))) [PrefixBlock, PrefixDAG])"

definition fromDB :: "'d pebble \<Rightarrow> 'd DB option \<Rightarrow> bloomIndex \<Rightarrow> gerror option \<times> bloomIndex" where
  "fromDB P db b =
     (case db of
        None \<Rightarrow> (Some (Msg ''bloom: nil db''), b)
      | Some d \<Rightarrow>
          let b1 = (if bi_cbf b = None
                    then b\<lparr>bi_cbf := Some (NewCountingBloomFilter (bi_m b) (bi_k b))\<rparr> else b)
          in case DB_NewIter P d of
               Inl err \<Rightarrow> (Some err, b1)
             | Inr kvs \<Rightarrow> (None, b1\<lparr>bi_cbf := fold cbf_Add (index_keys kvs) (bi_cbf b1)\<rparr>))"

definition maybeTest :: "bloomIndex option \<Rightarrow> MID \<Rightarrow> bool" where
  "maybeTest bo m =
     (case bo of None \<Rightarrow> True
      | Some b \<Rightarrow> IsZero m \<or> bi_cbf b = None \<or> cbf_Test (bi_cbf b) (m_Hash m))"

definition bloom_add :: "MID \<Rightarrow> bloomIndex option \<Rightarrow> bloomIndex option" where
  "bloom_add m bo =
     (case bo of None \<Rightarrow> None
      | Some b \<Rightarrow> if IsZero m then Some b else Some (b\<lparr>bi_cbf := cbf_Add (m_Hash m) (bi_cbf b)\<rparr>))"

definition recordDelete :: "MID \<Rightarrow> bloomIndex option \<Rightarrow> bloomIndex option" where
  "recordDelete m bo =
     (case bo of None \<Rightarrow> None
      | Some b \<Rightarrow> if IsZero m then Some b else Some (b\<lparr>bi_cbf := cbf_Remove (m_Hash m) (bi_cbf b)\<rparr>))"

definition rebuildFromDB ::
  "'d pebble \<Rightarrow> 'd DB \<Rightarrow> bloomIndex option \<Rightarrow> gerror option \<times> bloomIndex option" where
  "rebuildFromDB P db bo =
     (case bo of None \<Rightarrow> (None, None)
      | Some b \<Rightarrow>
          (case DB_NewIter P db of
             Inl err \<Rightarrow> (Some err, Some b)
           | Inr kvs \<Rightarrow>
               (None, Some (b\<lparr>bi_cbf :=
                  fold cbf_Add (index_keys kvs) (Some (NewCountingBloomFilter (bi_m b) (bi_k b)))\<rparr>))))"

text \<open>
  The snapshot written on Close: the bytes, if there is anything to write. Creating the directory
  and writing the file may fail.
\<close>

definition snapshot_bytes :: "bloomIndex \<Rightarrow> bytes option" where
  "snapshot_bytes b =
     (if bi_closed b \<or> bi_path b = [] then None
      else case cbf_MarshalBinary (bi_cbf b) of Inl _ \<Rightarrow> None | Inr data \<Rightarrow> Some data)"

section \<open>The write tracker\<close>

definition second :: int where "second = 1000000000"
definition DefaultGCGracePeriod :: int where "DefaultGCGracePeriod = 5 * 60 * second"

record gcWriteTracker =
  gt_gcActive :: bool
  gt_activeBuffer :: "string set"
  gt_gracePeriod :: int

definition newGCWriteTracker :: "int \<Rightarrow> gcWriteTracker" where
  "newGCWriteTracker gracePeriod =
     \<lparr>gt_gcActive = False, gt_activeBuffer = {},
      gt_gracePeriod = (if gracePeriod \<le> 0 then DefaultGCGracePeriod else gracePeriod)\<rparr>"

definition StartGC :: "gcWriteTracker \<Rightarrow> gcWriteTracker" where
  "StartGC g = g\<lparr>gt_gcActive := True, gt_activeBuffer := {}\<rparr>"

definition EndGC :: "gcWriteTracker \<Rightarrow> gcWriteTracker" where
  "EndGC g = g\<lparr>gt_gcActive := False, gt_activeBuffer := {}\<rparr>"

definition RecordWrite :: "hashlib \<Rightarrow> MID \<Rightarrow> gcWriteTracker \<Rightarrow> gcWriteTracker" where
  "RecordWrite L m g =
     (if IsZero m then g
      else if gt_gcActive g
      then g\<lparr>gt_activeBuffer := insert (MID_String L m) (gt_activeBuffer g)\<rparr> else g)"

text \<open>
  \<open>cutoff_of now d\<close> is uint64(time.Now().Add(-d).Unix()) at \<open>now\<close>, in nanoseconds; Unix rounds
  towards the past.
\<close>

definition cutoff_of :: "int \<Rightarrow> int \<Rightarrow> u64" where
  "cutoff_of now d = word_of_int ((now - d) div second)"

definition IsProtected :: "hashlib \<Rightarrow> int \<Rightarrow> gcWriteTracker \<Rightarrow> MID \<Rightarrow> u64 \<Rightarrow> int \<Rightarrow> bool" where
  "IsProtected L now g m writeTs minAge =
     (if IsZero m then True
      else if gt_gcActive g \<and> MID_String L m \<in> gt_activeBuffer g then True
      else if writeTs > 0 then
        (let grace = gt_gracePeriod g;
             effectiveGrace = (if minAge = 0 then 0 else if minAge < grace then minAge else grace)
         in cutoff_of now effectiveGrace \<le> writeTs \<and> effectiveGrace > 0)
      else False)"

section \<open>What the index promises\<close>

text \<open>
  The index covers a database when its filter holds a multiset that contains the hash of every
  block key, of both namespaces.
\<close>

definition block_hashes :: "(bytes \<rightharpoonup> bytes) \<Rightarrow> bytes set" where
  "block_hashes v = {h. PrefixBlock @ h \<in> dom v \<or> PrefixDAG @ h \<in> dom v}"

definition covers :: "bloomIndex option \<Rightarrow> (bytes \<rightharpoonup> bytes) \<Rightarrow> bool" where
  "covers bo v \<longleftrightarrow>
     (case bo of None \<Rightarrow> True
      | Some b \<Rightarrow> bi_m b \<noteq> 0 \<and> bi_k b \<noteq> 0 \<and>
          (\<exists>S. cbf_holds (bi_cbf b) S \<and> block_hashes v - {[]} \<subseteq> set_mset S))"

lemma covers_test: "covers bo v \<Longrightarrow> m_Hash m \<in> block_hashes v \<Longrightarrow> maybeTest bo m"
  by (auto simp: covers_def maybeTest_def IsZero_def split: option.splits intro: cbf_Test_held)

lemma covers_add:
  assumes "covers bo v" "block_hashes v' \<subseteq> insert (m_Hash m) (block_hashes v)"
  shows "covers (bloom_add m bo) v'"
proof (cases bo)
  case (Some b)
  with assms(1) obtain S where S: "cbf_holds (bi_cbf b) S" "block_hashes v - {[]} \<subseteq> set_mset S"
    and mk: "bi_m b \<noteq> 0" "bi_k b \<noteq> 0" by (auto simp: covers_def)
  show ?thesis
  proof (cases "IsZero m")
    case True
    then have "block_hashes v' - {[]} \<subseteq> set_mset S" using assms(2) S(2) by (auto simp: IsZero_def)
    with True Some S mk show ?thesis by (auto simp: covers_def bloom_add_def)
  next
    case False
    then have "cbf_holds (cbf_Add (m_Hash m) (bi_cbf b)) (add_mset (m_Hash m) S)"
      using cbf_Add_holds [OF S(1)] by (simp add: IsZero_def)
    moreover have "block_hashes v' - {[]} \<subseteq> set_mset (add_mset (m_Hash m) S)"
      using assms(2) S(2) by auto
    ultimately show ?thesis using Some False mk unfolding covers_def bloom_add_def
      by (auto simp del: set_mset_add_mset_insert)
  qed
qed (simp add: covers_def bloom_add_def)

lemma covers_delete:
  assumes "covers bo v" "m_Hash m \<in> block_hashes v" "m_Hash m \<notin> block_hashes v'"
    "block_hashes v' \<subseteq> block_hashes v"
  shows "covers (recordDelete m bo) v'"
proof (cases bo)
  case (Some b)
  with assms(1) obtain S where S: "cbf_holds (bi_cbf b) S" "block_hashes v - {[]} \<subseteq> set_mset S"
    and mk: "bi_m b \<noteq> 0" "bi_k b \<noteq> 0" by (auto simp: covers_def)
  show ?thesis
  proof (cases "IsZero m")
    case True
    have "block_hashes v' - {[]} \<subseteq> set_mset S" using assms(4) S(2) by auto
    with True Some S mk show ?thesis by (auto simp: covers_def recordDelete_def)
  next
    case False
    then have "m_Hash m \<in># S" using assms(2) S(2) by (auto simp: IsZero_def)
    then have "cbf_holds (cbf_Remove (m_Hash m) (bi_cbf b)) (S - {#m_Hash m#})"
      by (rule cbf_Remove_holds [OF S(1)])
    moreover have "block_hashes v' - {[]} \<subseteq> set_mset (S - {#m_Hash m#})"
    proof
      fix h assume h: "h \<in> block_hashes v' - {[]}"
      then have "h \<noteq> m_Hash m" "h \<in># S" using assms(3,4) S(2) by auto
      then show "h \<in># S - {#m_Hash m#}" by (simp add: in_diff_count)
    qed
    ultimately show ?thesis using Some False mk unfolding covers_def recordDelete_def by auto
  qed
qed (simp add: covers_def recordDelete_def)

lemma covers_sub: "covers bo v \<Longrightarrow> block_hashes v' \<subseteq> block_hashes v \<Longrightarrow> covers bo v'"
  unfolding covers_def by (cases bo) (simp_all, blast)

lemma index_keys_hashes:
  assumes "sorted_wrt (<) (map fst kvs)" "map_of kvs = v"
  shows "set (index_keys kvs) = block_hashes v - {[]}"
proof -
  have dom: "fst ` set kvs = dom v" using assms(2) by (metis dom_map_of_conv_image_fst)
  have one: "(\<lambda>kv. drop 3 (fst kv)) ` {kv \<in> set kvs. has_prefix p (fst kv) \<and> 3 < length (fst kv)} =
      {h. p @ h \<in> dom v \<and> h \<noteq> []}" if "length p = 3" for p
  proof (intro equalityI subsetI)
    fix h assume "h \<in> (\<lambda>kv. drop 3 (fst kv)) ` {kv \<in> set kvs. has_prefix p (fst kv) \<and> 3 < length (fst kv)}"
    then obtain kv where "kv \<in> set kvs" "has_prefix p (fst kv)" "3 < length (fst kv)" "h = drop 3 (fst kv)"
      by auto
    moreover from this have "fst kv \<in> dom v" using dom by blast
    ultimately show "h \<in> {h. p @ h \<in> dom v \<and> h \<noteq> []}"
      using that by (auto elim!: has_prefixE)
  next
    fix h assume h: "h \<in> {h. p @ h \<in> dom v \<and> h \<noteq> []}"
    then obtain kv where "kv \<in> set kvs" "fst kv = p @ h" using dom by force
    then show "h \<in> (\<lambda>kv. drop 3 (fst kv)) ` {kv \<in> set kvs. has_prefix p (fst kv) \<and> 3 < length (fst kv)}"
      using h that by (intro image_eqI [of _ _ kv]) auto
  qed
  show ?thesis
    unfolding index_keys_def scan_prefix_filter [OF assms(1)] block_hashes_def
    using one [of PrefixBlock] one [of PrefixDAG] by (simp add: conj_commute) blast
qed

end
