(* ===== verification/Pebblestore.thy ===== *)
theory Pebblestore
  imports Memstore StoreIndex
begin

text \<open>
  The persistent store, src/core/store/pebble.go: blocks and DAG nodes in two namespaces of the
  database, large payloads in flat files, the Bloom index in front of lookups and the write
  tracker. Files are kept by their path below the blocks directory. The environment of a call is
  the record \<open>store_env\<close>: the hash library, the protobuf runtime, Pebble, the plugin hooks, the
  error, if any, of each file-system call, and the clock (Unix nanoseconds).
\<close>

section \<open>State and environment\<close>

datatype oscall = OsMkdirAll | OsWriteFile | OsRename | OsReadFile | OsRemove

record hooks =
  hk_BeforePut :: "MID \<Rightarrow> bytes \<Rightarrow> (MID \<times> bytes) option result"
  hk_BeforeGet :: "MID \<Rightarrow> MID result"
  hk_AfterGet :: "MID \<Rightarrow> bytes \<Rightarrow> bytes result"

record 'd store_env =
  se_lib :: hashlib
  se_alg :: u64
  se_proto :: protolib
  se_pebble :: "'d pebble"
  se_hooks :: "hooks option"
  se_os :: "oscall \<Rightarrow> string \<Rightarrow> gerror option"
  se_now :: int

record 'd MemStore =
  st_db :: "'d DB"
  st_bloom :: "bloomIndex option"
  st_blocksPath :: string
  st_files :: "string \<rightharpoonup> bytes"
  st_closed :: bool
  st_dropping :: bool
  st_tracker :: gcWriteTracker

definition LargeBlockThreshold :: nat where "LargeBlockThreshold = 1024 * 1024"

definition enter :: "'d MemStore \<Rightarrow> gerror option" where
  "enter s = (if st_closed s \<or> st_dropping s then Some (Msg ''store: closed'') else None)"

definition blockPath :: "'d store_env \<Rightarrow> 'd MemStore \<Rightarrow> MID \<Rightarrow> string" where
  "blockPath E s m =
     (if st_blocksPath s = [] then []
      else
        let mStr = MID_String (se_lib E) m; n = length mStr
        in (if n < 3 then ''xx'' else slice mStr (n - 3) (n - 1)) @ ''/'' @ mStr @ ''.data'')"

section \<open>Writing\<close>

definition write_block_file :: "'d store_env \<Rightarrow> MID \<Rightarrow> bytes \<Rightarrow> 'd MemStore \<Rightarrow> gerror option \<times> 'd MemStore" where
  "write_block_file E m data s =
     (let fpath = blockPath E s m
      in case se_os E OsMkdirAll fpath of
           Some err \<Rightarrow> (Some (Wrap ''store: create block dir: %w'' err), s)
         | None \<Rightarrow>
             (case se_os E OsWriteFile fpath of
                Some err \<Rightarrow> (Some (Wrap ''store: write block file: %w'' err), s)
              | None \<Rightarrow>
                  (case se_os E OsRename fpath of
                     Some err \<Rightarrow> (Some (Wrap ''store: rename block file: %w'' err), s)
                   | None \<Rightarrow> (None, s\<lparr>st_files := (st_files s)(fpath \<mapsto> data)\<rparr>))))"

text \<open>The part common to Put, PutBatch and PutDAG: the operations a block adds to the batch.\<close>

definition stage_block ::
  "'d store_env \<Rightarrow> bytes \<Rightarrow> MID \<Rightarrow> bytes \<Rightarrow> 'd MemStore \<Rightarrow> gerror option \<times> batch \<times> 'd MemStore" where
  "stage_block E key m data s =
     (let ts = PutTimestamp (se_lib E) (se_now E div second) m
      in if st_blocksPath s \<noteq> [] \<and> LargeBlockThreshold \<le> length data then
           (case write_block_file E m data s of
              (Some err, s') \<Rightarrow> (Some err, [], s')
            | (None, s') \<Rightarrow> (None, [(key, Some (PutUint64 (of_nat (length data)))), ts], s'))
         else (None, [(key, Some data), ts], s))"

definition before_put :: "'d store_env \<Rightarrow> MID \<Rightarrow> bytes \<Rightarrow> (MID \<times> bytes) result" where
  "before_put E m data =
     (case se_hooks E of
        None \<Rightarrow> Inr (m, data)
      | Some h \<Rightarrow>
          (case hk_BeforePut h m data of
             Inl err \<Rightarrow> Inl err
           | Inr None \<Rightarrow> Inr (m, data)
           | Inr (Some blk) \<Rightarrow> Inr blk))"

definition after_put :: "'d store_env \<Rightarrow> MID \<Rightarrow> 'd MemStore \<Rightarrow> 'd MemStore" where
  "after_put E m s =
     s\<lparr>st_bloom := bloom_add m (st_bloom s), st_tracker := RecordWrite (se_lib E) m (st_tracker s)\<rparr>"

definition commit :: "'d store_env \<Rightarrow> batch \<Rightarrow> 'd MemStore \<Rightarrow> gerror option \<times> 'd MemStore" where
  "commit E b s = (case Batch_Commit (se_pebble E) (st_db s) b of (err, db') \<Rightarrow> (err, s\<lparr>st_db := db'\<rparr>))"

definition put_under ::
  "'d store_env \<Rightarrow> (MID \<Rightarrow> bytes) \<Rightarrow> MID \<Rightarrow> bytes \<Rightarrow> 'd MemStore \<Rightarrow> gerror option \<times> 'd MemStore" where
  "put_under E keyf m data s =
     (case verifyContent (se_lib E) (se_alg E) m data of
        Some err \<Rightarrow> (Some err, s)
      | None \<Rightarrow>
          (case stage_block E (keyf m) m data s of
             (Some err, b, s1) \<Rightarrow> (Some err, s1)
           | (None, b, s1) \<Rightarrow>
               (case commit E b s1 of
                  (Some err, s2) \<Rightarrow> (Some err, s2)
                | (None, s2) \<Rightarrow> (None, after_put E m s2))))"

definition MemStore_Put :: "'d store_env \<Rightarrow> 'd MemStore \<Rightarrow> MID \<Rightarrow> bytes \<Rightarrow> gerror option \<times> 'd MemStore" where
  "MemStore_Put E s m0 data0 =
     (case enter s of
        Some err \<Rightarrow> (Some err, s)
      | None \<Rightarrow>
          if IsZero m0 then (Some (Msg ''store: zero MID''), s)
          else case before_put E m0 data0 of
            Inl err \<Rightarrow> (Some err, s)
          | Inr (m, data) \<Rightarrow> put_under E BlockKey m data s)"

definition MemStore_PutDAG :: "'d store_env \<Rightarrow> 'd MemStore \<Rightarrow> MID \<Rightarrow> bytes \<Rightarrow> gerror option \<times> 'd MemStore" where
  "MemStore_PutDAG E s m data =
     (case enter s of
        Some err \<Rightarrow> (Some err, s)
      | None \<Rightarrow>
          if IsZero m then (Some (Msg ''store: zero MID''), s) else put_under E DagKey m data s)"

fun stage_all :: "'d store_env \<Rightarrow> (MID \<times> bytes) list \<Rightarrow> batch \<Rightarrow> 'd MemStore \<Rightarrow> gerror option \<times> batch \<times> 'd MemStore" where
  "stage_all E [] b s = (None, b, s)"
| "stage_all E ((m0, data0) # blocks) b s =
     (if IsZero m0 then (Some (Msg ''store: zero MID in batch''), b, s)
      else case before_put E m0 data0 of
        Inl err \<Rightarrow> (Some err, b, s)
      | Inr (m, data) \<Rightarrow>
          (case verifyContent (se_lib E) (se_alg E) m data of
             Some err \<Rightarrow> (Some err, b, s)
           | None \<Rightarrow>
               (case stage_block E (BlockKey m) m data s of
                  (Some err, _, s') \<Rightarrow> (Some err, b, s')
                | (None, ops, s') \<Rightarrow> stage_all E blocks (b @ ops) s')))"

definition MemStore_PutBatch :: "'d store_env \<Rightarrow> 'd MemStore \<Rightarrow> (MID \<times> bytes) list \<Rightarrow> gerror option \<times> 'd MemStore" where
  "MemStore_PutBatch E s blocks =
     (if blocks = [] then (None, s)
      else case enter s of
        Some err \<Rightarrow> (Some err, s)
      | None \<Rightarrow>
          (case stage_all E blocks [] s of
             (Some err, _, s1) \<Rightarrow> (Some err, s1)
           | (None, b, s1) \<Rightarrow>
               (case commit E b s1 of
                  (Some err, s2) \<Rightarrow> (Some err, s2)
                | (None, s2) \<Rightarrow> (None, fold (after_put E) (map fst blocks) s2))))"

section \<open>Reading\<close>

text \<open>
  An 8-byte value may stand for a file. os.IsNotExist holds of the error of a missing file only.
\<close>

definition load_value :: "'d store_env \<Rightarrow> 'd MemStore \<Rightarrow> MID \<Rightarrow> bytes \<Rightarrow> bytes result" where
  "load_value E s m val =
     (if st_blocksPath s \<noteq> [] \<and> length val = 8 then
        (let fpath = blockPath E s m
         in case st_files s fpath of
              None \<Rightarrow> Inr val
            | Some d \<Rightarrow> (case se_os E OsReadFile fpath of None \<Rightarrow> Inr d | Some err \<Rightarrow> Inl err))
      else Inr val)"

text \<open>The value under the block key, or else under the DAG key.\<close>

definition find_value :: "'d store_env \<Rightarrow> 'd MemStore \<Rightarrow> MID \<Rightarrow> bytes result" where
  "find_value E s m =
     (case DB_Get (se_pebble E) (st_db s) (BlockKey m) of
        Inr b \<Rightarrow> Inr b
      | Inl err \<Rightarrow>
          if \<not> errors_Is err db_ErrNotFound then Inl err
          else case DB_Get (se_pebble E) (st_db s) (DagKey m) of
            Inr d \<Rightarrow> Inr d
          | Inl err' \<Rightarrow> if \<not> errors_Is err' db_ErrNotFound then Inl err' else Inl ErrNotFound)"

definition MemStore_Get :: "'d store_env \<Rightarrow> 'd MemStore \<Rightarrow> MID \<Rightarrow> bytes result" where
  "MemStore_Get E s m0 =
     (case enter s of
        Some err \<Rightarrow> Inl err
      | None \<Rightarrow>
          if IsZero m0 then Inl (Msg ''store: zero MID'')
          else case (case se_hooks E of None \<Rightarrow> Inr m0 | Some h \<Rightarrow> hk_BeforeGet h m0) of
            Inl err \<Rightarrow> Inl err
          | Inr m \<Rightarrow>
              if \<not> maybeTest (st_bloom s) m then Inl ErrNotFound
              else case find_value E s m of
                Inl err \<Rightarrow> Inl err
              | Inr val \<Rightarrow>
                  (case load_value E s m val of
                     Inl err \<Rightarrow> Inl err
                   | Inr data \<Rightarrow>
                       (case se_hooks E of None \<Rightarrow> Inr data | Some h \<Rightarrow> hk_AfterGet h m data)))"

definition MemStore_GetDAG :: "'d store_env \<Rightarrow> 'd MemStore \<Rightarrow> MID \<Rightarrow> bytes result" where
  "MemStore_GetDAG E s m =
     (case enter s of
        Some err \<Rightarrow> Inl err
      | None \<Rightarrow>
          if IsZero m then Inl (Msg ''store: zero MID'')
          else case DB_Get (se_pebble E) (st_db s) (DagKey m) of
            Inl err \<Rightarrow> if errors_Is err db_ErrNotFound then Inl ErrNotFound else Inl err
          | Inr val \<Rightarrow> load_value E s m val)"

definition MemStore_Has :: "'d store_env \<Rightarrow> 'd MemStore \<Rightarrow> MID \<Rightarrow> bool result" where
  "MemStore_Has E s m =
     (case enter s of
        Some err \<Rightarrow> Inl err
      | None \<Rightarrow>
          if IsZero m then Inl (Msg ''store: zero MID'')
          else if \<not> maybeTest (st_bloom s) m then Inr False
          else case DB_Has (se_pebble E) (st_db s) (BlockKey m) of
            Inl err \<Rightarrow> Inl err
          | Inr True \<Rightarrow> Inr True
          | Inr False \<Rightarrow> DB_Has (se_pebble E) (st_db s) (DagKey m))"

definition MemStore_HasDAG :: "'d store_env \<Rightarrow> 'd MemStore \<Rightarrow> MID \<Rightarrow> bool result" where
  "MemStore_HasDAG E s m =
     (case enter s of
        Some err \<Rightarrow> Inl err
      | None \<Rightarrow>
          if IsZero m then Inl (Msg ''store: zero MID'')
          else if \<not> maybeTest (st_bloom s) m then Inr False
          else DB_Has (se_pebble E) (st_db s) (DagKey m))"

definition recorded_size :: "'d MemStore \<Rightarrow> bytes \<Rightarrow> u64" where
  "recorded_size s val =
     (if st_blocksPath s \<noteq> [] \<and> length val = 8 then Uint64 val else of_nat (length val))"

definition MemStore_GetSize :: "'d store_env \<Rightarrow> 'd MemStore \<Rightarrow> MID \<Rightarrow> int result" where
  "MemStore_GetSize E s m =
     (case enter s of
        Some err \<Rightarrow> Inl err
      | None \<Rightarrow>
          (case (case DB_Get (se_pebble E) (st_db s) (BlockKey m) of
                   Inr v \<Rightarrow> Inr v
                 | Inl err \<Rightarrow>
                     if errors_Is err db_ErrNotFound
                     then DB_Get (se_pebble E) (st_db s) (DagKey m) else Inl err) of
             Inl err \<Rightarrow> if errors_Is err db_ErrNotFound then Inl ErrNotFound else Inl err
           | Inr val \<Rightarrow> Inr (sint (recorded_size s val))))"

section \<open>Deleting\<close>

definition remove_file :: "'d store_env \<Rightarrow> MID \<Rightarrow> 'd MemStore \<Rightarrow> 'd MemStore" where
  "remove_file E m s =
     (if st_blocksPath s \<noteq> [] \<and> se_os E OsRemove (blockPath E s m) = None
      then s\<lparr>st_files := (st_files s)(blockPath E s m := None)\<rparr> else s)"

definition delete_ops :: "'d store_env \<Rightarrow> MID \<Rightarrow> batch" where
  "delete_ops E m =
     [(MetaKey (''obj/'' @ MID_String (se_lib E) m), None), (MetaKey (''ts/'' @ MID_String (se_lib E) m), None)]"

definition MemStore_Delete :: "'d store_env \<Rightarrow> 'd MemStore \<Rightarrow> MID \<Rightarrow> gerror option \<times> 'd MemStore" where
  "MemStore_Delete E s m =
     (case enter s of
        Some err \<Rightarrow> (Some err, s)
      | None \<Rightarrow>
          (case commit E ([(BlockKey m, None), (DagKey m, None)] @ delete_ops E m) s of
             (Some err, s1) \<Rightarrow> (Some err, s1)
           | (None, s1) \<Rightarrow>
               (let s2 = remove_file E m s1 in (None, s2\<lparr>st_bloom := recordDelete m (st_bloom s2)\<rparr>))))"

definition MemStore_DeleteDAG :: "'d store_env \<Rightarrow> 'd MemStore \<Rightarrow> MID \<Rightarrow> gerror option \<times> 'd MemStore" where
  "MemStore_DeleteDAG E s m =
     (case enter s of
        Some err \<Rightarrow> (Some err, s)
      | None \<Rightarrow>
          (case commit E ([(DagKey m, None)] @ delete_ops E m) s of
             (Some err, s1) \<Rightarrow> (Some err, s1)
           | (None, s1) \<Rightarrow>
               (let s2 = remove_file E m s1 in (None, s2\<lparr>st_bloom := recordDelete m (st_bloom s2)\<rparr>))))"

section \<open>Lifecycle, sizes and iteration\<close>

text \<open>\<open>snap\<close> is the result of writing the snapshot of the index.\<close>

definition MemStore_Close :: "'d store_env \<Rightarrow> gerror option \<Rightarrow> 'd MemStore \<Rightarrow> gerror option \<times> 'd MemStore" where
  "MemStore_Close E snap s =
     (if st_closed s then (None, s)
      else
        let snapErr = (case st_bloom s of None \<Rightarrow> None
                       | Some b \<Rightarrow> if snapshot_bytes b = None then None else snap)
        in case DB_Close (se_pebble E) (st_db s) of
             (dbErr, db') \<Rightarrow>
               (case dbErr of Some e \<Rightarrow> Some e | None \<Rightarrow> snapErr,
                s\<lparr>st_closed := True, st_db := db', st_bloom := None\<rparr>))"

definition MemStore_DropAll :: "'d store_env \<Rightarrow> 'd MemStore \<Rightarrow> gerror option \<times> 'd MemStore" where
  "MemStore_DropAll E s =
     (if st_closed s \<or> st_dropping s then (Some (Msg ''store closed or dropping''), s)
      else case DB_NewIter (se_pebble E) (st_db s) of
        Inl err \<Rightarrow> (Some err, s)
      | Inr kvs \<Rightarrow>
          (case commit E (map (\<lambda>kv. (fst kv, None)) kvs) s of
             (Some err, s1) \<Rightarrow> (Some (Wrap ''store: drop all failed: %w'' err), s1)
           | (None, s1) \<Rightarrow>
               (let s2 = (if st_blocksPath s1 \<noteq> [] \<and> se_os E OsRemove (st_blocksPath s1) = None
                          then s1\<lparr>st_files := Map.empty\<rparr> else s1)
                in case rebuildFromDB (se_pebble E) (st_db s2) (st_bloom s2) of
                     (err, b') \<Rightarrow>
                       (map_option (Wrap ''store: drop all failed: %w'') err, s2\<lparr>st_bloom := b'\<rparr>))))"

fun size_loop :: "'d MemStore \<Rightarrow> (bytes \<times> bytes) list \<Rightarrow> bytes set \<Rightarrow> u64 \<Rightarrow> u64" where
  "size_loop s [] seen tot = tot"
| "size_loop s ((k, val) # kvs) seen tot =
     (if k \<in> seen then size_loop s kvs seen tot
      else size_loop s kvs (insert k seen) (tot + recorded_size s val))"

definition block_entries :: "(bytes \<times> bytes) list \<Rightarrow> (bytes \<times> bytes) list" where
  "block_entries kvs = scan_prefix PrefixBlock kvs @ scan_prefix PrefixDAG kvs"

definition MemStore_Size :: "'d store_env \<Rightarrow> 'd MemStore \<Rightarrow> u64 result" where
  "MemStore_Size E s =
     (case enter s of
        Some err \<Rightarrow> Inl err
      | None \<Rightarrow>
          (case DB_NewIter (se_pebble E) (st_db s) of
             Inl err \<Rightarrow> Inl err
           | Inr kvs \<Rightarrow> Inr (size_loop s (block_entries kvs) {} 0)))"

fun iterate_raw ::
  "hashlib \<Rightarrow> (MID \<Rightarrow> 'v \<Rightarrow> gerror option \<times> 'v) \<Rightarrow> bytes list \<Rightarrow> string set \<Rightarrow> 'v \<Rightarrow> gerror option \<times> 'v" where
  "iterate_raw L fn [] seen v = (None, v)"
| "iterate_raw L fn (raw # raws) seen v =
     (case FromMultihash L CodecRaw raw of
        Inl _ \<Rightarrow> iterate_raw L fn raws seen v
      | Inr m \<Rightarrow>
          if MID_String L m \<in> seen then iterate_raw L fn raws seen v
          else (case fn m v of
                  (Some err, v') \<Rightarrow> (Some err, v')
                | (None, v') \<Rightarrow> iterate_raw L fn raws (insert (MID_String L m) seen) v'))"

definition MemStore_IterateBlocks ::
  "'d store_env \<Rightarrow> 'd MemStore \<Rightarrow> (MID \<Rightarrow> 'v \<Rightarrow> gerror option \<times> 'v) \<Rightarrow> 'v \<Rightarrow> gerror option \<times> 'v" where
  "MemStore_IterateBlocks E s fn v =
     (case enter s of
        Some err \<Rightarrow> (Some err, v)
      | None \<Rightarrow>
          (case DB_NewIter (se_pebble E) (st_db s) of
             Inl err \<Rightarrow> (Some err, v)
           | Inr kvs \<Rightarrow> iterate_raw (se_lib E) fn (map (\<lambda>kv. drop 3 (fst kv)) (block_entries kvs)) {} v))"

definition MemStore_AllBlocks :: "'d store_env \<Rightarrow> 'd MemStore \<Rightarrow> gerror option \<times> MID list" where
  "MemStore_AllBlocks E s = MemStore_IterateBlocks E s (\<lambda>m out. (None, out @ [m])) []"

definition MemStore_PutMeta :: "'d store_env \<Rightarrow> 'd MemStore \<Rightarrow> string \<Rightarrow> bytes \<Rightarrow> gerror option \<times> 'd MemStore" where
  "MemStore_PutMeta E s key val =
     (case enter s of
        Some err \<Rightarrow> (Some err, s)
      | None \<Rightarrow>
          if key = [] then (Some (Msg ''store: empty meta key''), s)
          else case DB_Set (se_pebble E) (st_db s) (MetaKey key) val of
            (err, db') \<Rightarrow> (err, s\<lparr>st_db := db'\<rparr>))"

definition MemStore_GetMeta :: "'d store_env \<Rightarrow> 'd MemStore \<Rightarrow> string \<Rightarrow> bytes result" where
  "MemStore_GetMeta E s key =
     (case enter s of
        Some err \<Rightarrow> Inl err
      | None \<Rightarrow>
          (case DB_Get (se_pebble E) (st_db s) (MetaKey key) of
             Inl err \<Rightarrow> if errors_Is err db_ErrNotFound then Inl ErrNotFound else Inl err
           | Inr val \<Rightarrow> Inr val))"

fun iterate_strings ::
  "(string \<Rightarrow> 'v \<Rightarrow> gerror option \<times> 'v) \<Rightarrow> string list \<Rightarrow> 'v \<Rightarrow> gerror option \<times> 'v" where
  "iterate_strings fn [] v = (None, v)"
| "iterate_strings fn (k # ks) v =
     (case fn k v of (Some err, v') \<Rightarrow> (Some err, v') | (None, v') \<Rightarrow> iterate_strings fn ks v')"

definition MemStore_IterateMetaPrefix ::
  "'d store_env \<Rightarrow> 'd MemStore \<Rightarrow> string \<Rightarrow> (string \<Rightarrow> 'v \<Rightarrow> gerror option \<times> 'v) \<Rightarrow> 'v \<Rightarrow> gerror option \<times> 'v" where
  "MemStore_IterateMetaPrefix E s prefix fn v =
     (case enter s of
        Some err \<Rightarrow> (Some err, v)
      | None \<Rightarrow>
          (case DB_NewIter (se_pebble E) (st_db s) of
             Inl err \<Rightarrow> (Some err, v)
           | Inr kvs \<Rightarrow>
               iterate_strings fn
                 (map (\<lambda>kv. string_of_bytes (drop (3 + length prefix) (fst kv)))
                   (scan_prefix (MetaKey prefix) kvs)) v))"

section \<open>The invariant\<close>

definition dbview :: "('d \<Rightarrow> bytes \<rightharpoonup> bytes) \<Rightarrow> 'd MemStore \<Rightarrow> bytes \<rightharpoonup> bytes" where
  "dbview view s = view (db_pebble (st_db s))"

text \<open>
  An open store over a Pebble that behaves as documented, whose index covers the database. Nothing
  is assumed of the failures of Pebble and the file system.
\<close>

definition store_ok :: "'d store_env \<Rightarrow> ('d \<Rightarrow> bytes \<rightharpoonup> bytes) \<Rightarrow> 'd MemStore \<Rightarrow> bool" where
  "store_ok E view s \<longleftrightarrow>
     pebble_ok (se_pebble E) view \<and> \<not> st_closed s \<and> \<not> st_dropping s \<and> \<not> db_closed (st_db s) \<and>
     covers (st_bloom s) (dbview view s)"

lemma key_eqs [simp]:
  "BlockKey m = BlockKey m' \<longleftrightarrow> m_Hash m = m_Hash m'" "DagKey m = DagKey m' \<longleftrightarrow> m_Hash m = m_Hash m'"
  "SealKey m = SealKey m' \<longleftrightarrow> m_Hash m = m_Hash m'"
  "BlockKey m \<noteq> DagKey m'" "DagKey m \<noteq> BlockKey m'" "BlockKey m \<noteq> SealKey m'" "SealKey m \<noteq> BlockKey m'"
  "DagKey m \<noteq> SealKey m'" "SealKey m \<noteq> DagKey m'" "BlockKey m \<noteq> MetaKey k" "MetaKey k \<noteq> BlockKey m"
  "DagKey m \<noteq> MetaKey k" "MetaKey k \<noteq> DagKey m" "SealKey m \<noteq> MetaKey k" "MetaKey k \<noteq> SealKey m"
  by (auto simp: BlockKey_def DagKey_def SealKey_def MetaKey_def prefix_key_eq dest: sym)

lemma block_hashes_iff: "m_Hash m \<in> block_hashes v \<longleftrightarrow> BlockKey m \<in> dom v \<or> DagKey m \<in> dom v"
  by (simp add: block_hashes_def BlockKey_def DagKey_def)

lemma block_hashes_upd [simp]:
  "block_hashes (v(MetaKey k := x)) = block_hashes v" "block_hashes (v(SealKey m := x)) = block_hashes v"
  "block_hashes (v(BlockKey m \<mapsto> y)) = insert (m_Hash m) (block_hashes v)"
  "block_hashes (v(DagKey m \<mapsto> y)) = insert (m_Hash m) (block_hashes v)"
  by (auto simp: block_hashes_def BlockKey_def DagKey_def SealKey_def MetaKey_def prefix_key_eq
      prefixes_differ [symmetric])

lemma apply_batch_simps [simp]:
  "apply_batch [] v = v" "apply_batch ((k, x) # b) v = apply_batch b (v(k := x))"
  "apply_batch (b @ b') v = apply_batch b' (apply_batch b v)"
  by (simp_all add: apply_batch_def apply_op_def)

lemma pebble_Get: "pebble_ok B view \<Longrightarrow> pb_Get B d k = Inr v \<Longrightarrow> v = view d k"
  by (simp add: pebble_ok_def)

lemma pebble_Iter:
  "pebble_ok B view \<Longrightarrow> pb_Iter B d = Inr kvs \<Longrightarrow> sorted_wrt (<) (map fst kvs) \<and> map_of kvs = view d"
  by (simp add: pebble_ok_def)

lemma commit_fields [simp]:
  "st_bloom (snd (commit E b s)) = st_bloom s" "st_blocksPath (snd (commit E b s)) = st_blocksPath s"
  "st_files (snd (commit E b s)) = st_files s" "st_closed (snd (commit E b s)) = st_closed s"
  "st_dropping (snd (commit E b s)) = st_dropping s" "st_tracker (snd (commit E b s)) = st_tracker s"
  "db_closed (st_db (snd (commit E b s))) = db_closed (st_db s)"
  by (auto simp: commit_def Batch_Commit_def split: prod.splits)

lemma commit_view:
  assumes "pebble_ok (se_pebble E) view"
  shows "dbview view (snd (commit E b s)) =
           (if fst (commit E b s) = None then apply_batch b (dbview view s) else dbview view s)"
proof -
  obtain err d' where c: "pb_Commit (se_pebble E) (db_pebble (st_db s)) b = (err, d')" by fastforce
  have "view d' = (if err = None then apply_batch b (dbview view s) else dbview view s)"
    using assms c unfolding pebble_ok_def dbview_def by (cases err) auto
  then show ?thesis by (simp add: commit_def Batch_Commit_def c dbview_def)
qed

lemma write_block_file_fields:
  assumes "write_block_file E m data s = (err, s')"
  shows "s' = s\<lparr>st_files := st_files s'\<rparr> \<and> (\<forall>p. p \<noteq> blockPath E s m \<longrightarrow> st_files s' p = st_files s p) \<and>
         (err = None \<longrightarrow> st_files s' (blockPath E s m) = Some data)"
  using assms by (auto simp: write_block_file_def Let_def split: option.splits)

text \<open>What staging a block does: nothing but write the file of a large block.\<close>

lemma stage_block_fields:
  assumes "stage_block E key m data s = (err, b, s')"
  shows "s' = s\<lparr>st_files := st_files s'\<rparr> \<and> (\<forall>p. p \<noteq> blockPath E s m \<longrightarrow> st_files s' p = st_files s p) \<and>
    (err = None \<longrightarrow>
      (\<exists>val. b = [(key, Some val), PutTimestamp (se_lib E) (se_now E div second) m] \<and>
        (if st_blocksPath s \<noteq> [] \<and> LargeBlockThreshold \<le> length data
         then val = PutUint64 (of_nat (length data)) \<and> st_files s' (blockPath E s m) = Some data
         else val = data \<and> s' = s)))"
proof (cases "st_blocksPath s \<noteq> [] \<and> LargeBlockThreshold \<le> length data")
  case True
  obtain err1 s1 where w: "write_block_file E m data s = (err1, s1)" by fastforce
  from write_block_file_fields [OF w] True w assms show ?thesis
    by (cases err1) (auto simp: stage_block_def Let_def)
next
  case False
  with assms show ?thesis by (auto simp: stage_block_def Let_def)
qed

lemma dbview_fields [simp]:
  "dbview view (s\<lparr>st_files := f\<rparr>) = dbview view s" "dbview view (s\<lparr>st_bloom := b\<rparr>) = dbview view s"
  "dbview view (s\<lparr>st_tracker := t\<rparr>) = dbview view s"
  "dbview view (after_put E m s) = dbview view s"
  by (simp_all add: dbview_def after_put_def)

lemma find_value_view:
  assumes "pebble_ok (se_pebble E) view" "\<not> db_closed (st_db s)"
    and "\<And>k. is_ok (pb_Get (se_pebble E) (db_pebble (st_db s)) k)"
  shows "find_value E s m =
    (case dbview view s (BlockKey m) of
       Some val \<Rightarrow> Inr val
     | None \<Rightarrow> (case dbview view s (DagKey m) of Some val \<Rightarrow> Inr val | None \<Rightarrow> Inl ErrNotFound))"
proof -
  have "DB_Get (se_pebble E) (st_db s) k =
      (case dbview view s k of None \<Rightarrow> Inl db_ErrNotFound | Some val \<Rightarrow> Inr val)" for k
    using assms(3) [of k] pebble_Get [OF assms(1)] assms(2)
    by (auto simp: DB_Get_def dbview_def is_ok_iff split: option.splits)
  then show ?thesis by (simp add: find_value_def split: option.splits)
qed

end
