(* ===== verification/StoreLaws.thy ===== *)
theory StoreLaws
  imports Pebblestore
begin

text \<open>
  What the persistent store of Pebblestore promises: what each write leaves in the database, the
  files and the index, what reads answer, and what a failing write may leave behind.
\<close>

section \<open>Reads\<close>

text \<open>Reads of the database and of files do not fail, and no plugin hooks are installed.\<close>

definition reads_ok :: "'d store_env \<Rightarrow> bool" where
  "reads_ok E \<longleftrightarrow> se_hooks E = None \<and> (\<forall>d k. is_ok (pb_Get (se_pebble E) d k)) \<and>
     (\<forall>d. is_ok (pb_Iter (se_pebble E) d)) \<and> (\<forall>p. se_os E OsReadFile p = None)"

definition stored :: "(bytes \<rightharpoonup> bytes) \<Rightarrow> MID \<Rightarrow> bytes option" where
  "stored v m = (case v (BlockKey m) of Some val \<Rightarrow> Some val | None \<Rightarrow> v (DagKey m))"

lemma stored_hashes: "stored v m \<noteq> None \<longleftrightarrow> m_Hash m \<in> block_hashes v"
  by (auto simp: stored_def block_hashes_iff dom_def split: option.splits)

lemma seek_sorted:
  assumes "sorted_wrt (<) (map fst kvs)"
  shows "(case dropWhile (\<lambda>kv. fst kv < key) kvs of [] \<Rightarrow> False | kv # _ \<Rightarrow> fst kv = key) \<longleftrightarrow>
    (key :: 'a::linorder) \<in> fst ` set kvs"
  using assms
proof (induction kvs)
  case (Cons kv kvs)
  show ?case
  proof (cases "fst kv < key")
    case False
    then have "key \<notin> fst ` set kvs" if "fst kv \<noteq> key" using Cons.prems that by auto
    with False show ?thesis by auto
  qed (use Cons in auto)
qed simp

lemma DB_Has_ok:
  assumes "pebble_ok B view" "\<not> db_closed db" "is_ok (pb_Iter B (db_pebble db))"
  shows "DB_Has B db k = Inr (k \<in> dom (view (db_pebble db)))"
proof -
  obtain kvs where kvs: "pb_Iter B (db_pebble db) = Inr kvs" using assms(3) unfolding is_ok_iff by blast
  then have s: "sorted_wrt (<) (map fst kvs)" "map_of kvs = view (db_pebble db)"
    using pebble_Iter [OF assms(1) kvs] by simp_all
  then have "fst ` set kvs = dom (view (db_pebble db))" by (metis dom_map_of_conv_image_fst)
  with seek_sorted [OF s(1), of k] kvs assms(2) show ?thesis
    by (cases "dropWhile (\<lambda>kv. fst kv < k) kvs") (simp_all add: DB_Has_def del: dropWhile_eq_Nil_conv)
qed

lemma DB_Has_view:
  assumes "store_ok E view s" "reads_ok E"
  shows "DB_Has (se_pebble E) (st_db s) k = Inr (k \<in> dom (dbview view s))"
  using DB_Has_ok [of "se_pebble E" view "st_db s" k] assms by (simp add: store_ok_def reads_ok_def dbview_def)

lemma find_value_stored:
  assumes "store_ok E view s" "reads_ok E"
  shows "find_value E s m = (case stored (dbview view s) m of None \<Rightarrow> Inl ErrNotFound | Some val \<Rightarrow> Inr val)"
  using find_value_view [of E view s m] assms
  by (auto simp: store_ok_def reads_ok_def stored_def split: option.splits)

lemma enter_open: "store_ok E view s \<Longrightarrow> enter s = None"
  by (simp add: store_ok_def enter_def)

text \<open>The Bloom index is invisible: a lookup answers from the database.\<close>

lemma MemStore_Get_stored:
  assumes "store_ok E view s" "reads_ok E" "\<not> IsZero m"
  shows "MemStore_Get E s m =
    (case stored (dbview view s) m of None \<Rightarrow> Inl ErrNotFound | Some val \<Rightarrow> load_value E s m val)"
proof (cases "stored (dbview view s) m")
  case None
  then show ?thesis using assms find_value_stored [OF assms(1,2), of m] enter_open [OF assms(1)]
    by (simp add: MemStore_Get_def reads_ok_def)
next
  case (Some val)
  then have "maybeTest (st_bloom s) m"
    using covers_test stored_hashes assms(1) unfolding store_ok_def by fastforce
  with Some show ?thesis using assms find_value_stored [OF assms(1,2), of m] enter_open [OF assms(1)]
    by (simp add: MemStore_Get_def reads_ok_def split: sum.splits)
qed

lemma MemStore_Has_stored:
  assumes "store_ok E view s" "reads_ok E" "\<not> IsZero m"
  shows "MemStore_Has E s m = Inr (m_Hash m \<in> block_hashes (dbview view s))"
proof (cases "maybeTest (st_bloom s) m")
  case True
  then show ?thesis using assms(3) enter_open [OF assms(1)]
    by (simp add: MemStore_Has_def DB_Has_view [OF assms(1,2)] block_hashes_iff split: bool.split)
next
  case False
  then have "m_Hash m \<notin> block_hashes (dbview view s)"
    using covers_test assms(1) unfolding store_ok_def by blast
  with False show ?thesis using assms(3) enter_open [OF assms(1)] by (simp add: MemStore_Has_def)
qed

lemma MemStore_GetSize_stored:
  assumes "store_ok E view s" "reads_ok E"
  shows "MemStore_GetSize E s m =
    (case stored (dbview view s) m of None \<Rightarrow> Inl ErrNotFound | Some val \<Rightarrow> Inr (sint (recorded_size s val)))"
proof -
  have "DB_Get (se_pebble E) (st_db s) k =
      (case dbview view s k of None \<Rightarrow> Inl db_ErrNotFound | Some val \<Rightarrow> Inr val)" for k
  proof -
    obtain v where v: "pb_Get (se_pebble E) (db_pebble (st_db s)) k = Inr v"
      using assms(2) unfolding reads_ok_def is_ok_iff by blast
    moreover have "v = dbview view s k"
      using pebble_Get [OF _ v, of view] assms(1) by (simp add: store_ok_def dbview_def)
    ultimately show ?thesis using assms(1) by (simp add: DB_Get_def store_ok_def split: option.splits)
  qed
  then show ?thesis using enter_open [OF assms(1)]
    by (simp add: MemStore_GetSize_def stored_def split: option.splits)
qed

section \<open>Block files\<close>

lemma blockPath_inj:
  assumes "hashlib_ok (se_lib E)" "mid_wf (se_lib E) m" "mid_wf (se_lib E) m'"
    "st_blocksPath s \<noteq> []" "blockPath E s m = blockPath E s m'"
  shows "m = m'"
proof -
  define pre where "pre k = (if length k < 3 then ''xx'' else slice k (length k - 3) (length k - 1))"
    for k :: string
  have two: "length (pre k) = 2" for k by (simp add: pre_def)
  have "blockPath E s x = pre (MID_String (se_lib E) x) @ ''/'' @ MID_String (se_lib E) x @ ''.data''" for x
    using assms(4) by (simp add: blockPath_def pre_def Let_def)
  with assms(5) have "MID_String (se_lib E) m @ ''.data'' = MID_String (se_lib E) m' @ ''.data''"
    by (simp add: two)
  then show ?thesis using MID_String_inj [OF assms(1-3)] by simp
qed

lemma blockPath_cong: "st_blocksPath s' = st_blocksPath s \<Longrightarrow> blockPath E s' m = blockPath E s m"
  by (simp add: blockPath_def)

lemma load_value_cong:
  "st_blocksPath s' = st_blocksPath s \<Longrightarrow> st_files s' (blockPath E s m) = st_files s (blockPath E s m) \<Longrightarrow>
   load_value E s' m val = load_value E s m val"
  by (simp add: load_value_def blockPath_cong [of s' s])

section \<open>Writes\<close>

definition large :: "'d MemStore \<Rightarrow> bytes \<Rightarrow> bool" where
  "large s data \<longleftrightarrow> st_blocksPath s \<noteq> [] \<and> LargeBlockThreshold \<le> length data"

text \<open>The value a write leaves under its key.\<close>

definition record_of :: "'d MemStore \<Rightarrow> bytes \<Rightarrow> bytes" where
  "record_of s data = (if large s data then PutUint64 (of_nat (length data)) else data)"

definition same_frame :: "'d MemStore \<Rightarrow> 'd MemStore \<Rightarrow> bool" where
  "same_frame s s' \<longleftrightarrow> st_blocksPath s' = st_blocksPath s \<and> st_closed s' = st_closed s \<and>
     st_dropping s' = st_dropping s \<and> db_closed (st_db s') = db_closed (st_db s)"

lemma put_under_effect:
  assumes "put_under E keyf m data s = (err, s')" "pebble_ok (se_pebble E) view"
  shows "same_frame s s'" "\<And>p. p \<noteq> blockPath E s m \<Longrightarrow> st_files s' p = st_files s p"
    "err \<noteq> None \<Longrightarrow> dbview view s' = dbview view s \<and> st_bloom s' = st_bloom s \<and> st_tracker s' = st_tracker s"
    "err = None \<Longrightarrow> verifyContent (se_lib E) (se_alg E) m data = None \<and>
       dbview view s' = (dbview view s)(keyf m \<mapsto> record_of s data,
         TimestampKey (se_lib E) m \<mapsto> PutUint64 (word_of_int (se_now E div second))) \<and>
       st_bloom s' = bloom_add m (st_bloom s) \<and>
       (if large s data then st_files s' (blockPath E s m) = Some data else st_files s' = st_files s)"
proof -
  have all: "same_frame s s' \<and> (\<forall>p. p \<noteq> blockPath E s m \<longrightarrow> st_files s' p = st_files s p) \<and>
    (err \<noteq> None \<longrightarrow> dbview view s' = dbview view s \<and> st_bloom s' = st_bloom s \<and> st_tracker s' = st_tracker s) \<and>
    (err = None \<longrightarrow> verifyContent (se_lib E) (se_alg E) m data = None \<and>
       dbview view s' = (dbview view s)(keyf m \<mapsto> record_of s data,
         TimestampKey (se_lib E) m \<mapsto> PutUint64 (word_of_int (se_now E div second))) \<and>
       st_bloom s' = bloom_add m (st_bloom s) \<and>
       (if large s data then st_files s' (blockPath E s m) = Some data else st_files s' = st_files s))"
  proof (cases "verifyContent (se_lib E) (se_alg E) m data")
    case (Some e)
    with assms(1) show ?thesis by (auto simp: put_under_def same_frame_def)
  next
    case None
    obtain err1 b s1 where st: "stage_block E (keyf m) m data s = (err1, b, s1)" by (metis prod_cases3)
    note f = stage_block_fields [OF st]
    then obtain F where F: "s1 = s\<lparr>st_files := F\<rparr>" by blast
    then have s1: "same_frame s s1" "dbview view s1 = dbview view s" "st_bloom s1 = st_bloom s"
      "st_tracker s1 = st_tracker s" by (simp_all add: same_frame_def)
    show ?thesis
    proof (cases err1)
      case (Some e)
      with assms(1) st None f s1 show ?thesis by (auto simp: put_under_def)
    next
      case ok: None
      obtain err2 s2 where c: "commit E b s1 = (err2, s2)" by fastforce
      have s2: "same_frame s1 s2" "st_files s2 = st_files s1" "st_bloom s2 = st_bloom s1"
        "st_tracker s2 = st_tracker s1"
        using commit_fields [of E b s1] by (simp_all add: c same_frame_def)
      have v2: "dbview view s2 = (if err2 = None then apply_batch b (dbview view s1) else dbview view s1)"
        using commit_view [OF assms(2), of b s1] by (simp add: c)
      have fr: "same_frame s s2" using s1(1) s2(1) by (simp add: same_frame_def)
      obtain val where b: "b = [(keyf m, Some val), PutTimestamp (se_lib E) (se_now E div second) m]"
        and val: "if large s data then val = PutUint64 (of_nat (length data)) \<and> st_files s1 (blockPath E s m) = Some data
          else val = data \<and> s1 = s" using f ok unfolding large_def by blast
      have val': "val = record_of s data" using val by (simp add: record_of_def split: if_splits)
      show ?thesis
      proof (cases err2)
        case (Some e)
        then have "err = Some e" "s' = s2" using assms(1) st None ok c by (simp_all add: put_under_def)
        with Some f s1 s2 v2 fr show ?thesis by simp
      next
        case committed: None
        then have e: "err = None" "s' = after_put E m s2"
          using assms(1) st None ok c by (simp_all add: put_under_def)
        have "dbview view s' = (dbview view s)(keyf m \<mapsto> record_of s data,
            TimestampKey (se_lib E) m \<mapsto> PutUint64 (word_of_int (se_now E div second)))"
          using v2 committed b val' s1(2) by (simp add: e PutTimestamp_def)
        moreover have "same_frame s s'" "st_files s' = st_files s1" "st_bloom s' = bloom_add m (st_bloom s)"
          using fr s1 s2 by (simp_all add: e after_put_def same_frame_def)
        moreover have "if large s data then st_files s1 (blockPath E s m) = Some data else st_files s1 = st_files s"
          using val by (simp split: if_splits)
        ultimately show ?thesis using e(1) f None by simp
      qed
    qed
  qed
  then show "same_frame s s'" "\<And>p. p \<noteq> blockPath E s m \<Longrightarrow> st_files s' p = st_files s p"
    "err \<noteq> None \<Longrightarrow> dbview view s' = dbview view s \<and> st_bloom s' = st_bloom s \<and> st_tracker s' = st_tracker s"
    "err = None \<Longrightarrow> verifyContent (se_lib E) (se_alg E) m data = None \<and>
       dbview view s' = (dbview view s)(keyf m \<mapsto> record_of s data,
         TimestampKey (se_lib E) m \<mapsto> PutUint64 (word_of_int (se_now E div second))) \<and>
       st_bloom s' = bloom_add m (st_bloom s) \<and>
       (if large s data then st_files s' (blockPath E s m) = Some data else st_files s' = st_files s)"
    by blast+
qed

lemma TimestampKey_differs [simp]:
  "TimestampKey L m \<noteq> BlockKey m'" "TimestampKey L m \<noteq> DagKey m'" "TimestampKey L m \<noteq> SealKey m'"
  "BlockKey m' \<noteq> TimestampKey L m" "DagKey m' \<noteq> TimestampKey L m" "SealKey m' \<noteq> TimestampKey L m"
  by (simp_all add: TimestampKey_def)

lemma block_hashes_timestamp [simp]:
  "block_hashes (v(TimestampKey L m := x)) = block_hashes v"
  by (simp add: TimestampKey_def)

text \<open>Both kinds of write keep the store open and its index covering the database.\<close>

lemma put_under_ok:
  assumes "put_under E keyf m data s = (err, s')" "store_ok E view s" "keyf = BlockKey \<or> keyf = DagKey"
  shows "store_ok E view s'"
proof -
  have P: "pebble_ok (se_pebble E) view" and cov: "covers (st_bloom s) (dbview view s)"
    using assms(2) by (simp_all add: store_ok_def)
  note e = put_under_effect [OF assms(1) P]
  have "covers (st_bloom s') (dbview view s')"
  proof (cases err)
    case None
    have "block_hashes (dbview view s') \<subseteq> insert (m_Hash m) (block_hashes (dbview view s))"
      using e(4) [OF None] assms(3) by auto
    with covers_add [OF cov] e(4) [OF None] show ?thesis by simp
  next
    case (Some x)
    with e(3) cov show ?thesis by simp
  qed
  with e(1) assms(2) show ?thesis by (simp add: store_ok_def same_frame_def)
qed

lemma MemStore_Put_under:
  assumes "store_ok E view s" "se_hooks E = None" "\<not> IsZero m"
  shows "MemStore_Put E s m data = put_under E BlockKey m data s"
    "MemStore_PutDAG E s m data = put_under E DagKey m data s"
  using assms enter_open [OF assms(1)]
  by (simp_all add: MemStore_Put_def MemStore_PutDAG_def before_put_def)

text \<open>Writes succeed: a batch commits and the file of a large block can be written.\<close>

definition writes_ok :: "'d store_env \<Rightarrow> bool" where
  "writes_ok E \<longleftrightarrow> (\<forall>d b. fst (pb_Commit (se_pebble E) d b) = None) \<and>
     (\<forall>p. se_os E OsMkdirAll p = None \<and> se_os E OsWriteFile p = None \<and> se_os E OsRename p = None)"

lemma commit_succeeds: "writes_ok E \<Longrightarrow> fst (commit E b s) = None"
  by (auto simp: writes_ok_def commit_def Batch_Commit_def split: prod.splits) (metis fst_conv)

lemma put_under_succeeds:
  assumes "writes_ok E"
  shows "fst (put_under E keyf m data s) = verifyContent (se_lib E) (se_alg E) m data"
proof -
  have "fst (stage_block E (keyf m) m data s) = None"
    using assms by (auto simp: stage_block_def write_block_file_def writes_ok_def Let_def)
  moreover have "fst (commit E b s1) = None" for b s1 by (rule commit_succeeds [OF assms])
  ultimately show ?thesis
    by (auto simp: put_under_def split: option.splits prod.splits) (metis fst_conv option.discI)
qed

lemma put_under_files:
  assumes "put_under E keyf m data s = (err, s')"
  shows "st_files s' = st_files s \<or> large s data \<and> verifyContent (se_lib E) (se_alg E) m data = None \<and>
    st_files s' = (st_files s)(blockPath E s m \<mapsto> data)"
proof -
  obtain err1 b s1 where st: "stage_block E (keyf m) m data s = (err1, b, s1)" by (metis prod_cases3)
  have s1: "st_files s1 = st_files s \<or> large s data \<and> st_files s1 = (st_files s)(blockPath E s m \<mapsto> data)"
    using st by (auto simp: stage_block_def write_block_file_def large_def Let_def split: option.splits if_splits)
  obtain err2 s2 where c: "commit E b s1 = (err2, s2)" by fastforce
  then have "st_files s2 = st_files s1" using commit_fields(3) [of E b s1] by simp
  with assms st s1 c show ?thesis
    by (auto simp: put_under_def after_put_def split: option.splits)
qed

section \<open>The store without a blocks directory implements the blockstore contract\<close>

text \<open>
  Keys are hashes: all codecs of an identifier share a block. With a blocks directory the contract
  fails for large blocks, see \<open>large_block_other_codec\<close> below.
\<close>

definition hash_blocks :: "('d \<Rightarrow> bytes \<rightharpoonup> bytes) \<Rightarrow> 'd MemStore \<Rightarrow> bytes \<rightharpoonup> bytes" where
  "hash_blocks view s h =
     (case dbview view s (PrefixBlock @ h) of Some val \<Rightarrow> Some val | None \<Rightarrow> dbview view s (PrefixDAG @ h))"

definition persist_inv :: "'d store_env \<Rightarrow> ('d \<Rightarrow> bytes \<rightharpoonup> bytes) \<Rightarrow> 'd MemStore \<Rightarrow> bool" where
  "persist_inv E view s \<longleftrightarrow> store_ok E view s \<and> reads_ok E \<and> writes_ok E \<and> st_blocksPath s = []"

lemma hash_blocks_stored: "hash_blocks view s (m_Hash m) = stored (dbview view s) m"
  by (simp add: hash_blocks_def stored_def BlockKey_def DagKey_def split: option.split)

interpretation persistent: blockstore "se_lib E" "se_alg E" "MemStore_Put E" "MemStore_Get E"
    "hash_blocks view" m_Hash "persist_inv E view" for E view
proof
  fix s m data
  assume inv: "persist_inv E view s" and m: "mid_wf (se_lib E) m"
    and v: "verifyContent (se_lib E) (se_alg E) m data = None"
  from inv have ok: "store_ok E view s" and w: "writes_ok E" and hk: "se_hooks E = None"
    and P: "pebble_ok (se_pebble E) view" by (simp_all add: persist_inv_def reads_ok_def store_ok_def)
  obtain err s' where put: "put_under E BlockKey m data s = (err, s')" by fastforce
  with put_under_succeeds [OF w, of BlockKey m data s] v have err: "err = None" by simp
  note e = put_under_effect [OF put P]
  have "record_of s data = data" using inv by (simp add: record_of_def large_def persist_inv_def)
  with e(4) [OF err] have db: "dbview view s' = (dbview view s)(BlockKey m \<mapsto> data,
      TimestampKey (se_lib E) m \<mapsto> PutUint64 (word_of_int (se_now E div second)))" by simp
  have "hash_blocks view s' = (hash_blocks view s)(m_Hash m \<mapsto> data)"
    by (rule ext) (auto simp: hash_blocks_def db BlockKey_def TimestampKey_def MetaKey_def prefix_key_eq
        prefixes_differ [symmetric] split: option.splits)
  moreover have "persist_inv E view s'"
    using inv put_under_ok [OF put ok] e(1) by (simp add: persist_inv_def same_frame_def)
  ultimately show "\<exists>s'. MemStore_Put E s m data = (None, s') \<and> persist_inv E view s' \<and>
      hash_blocks view s' = (hash_blocks view s)(m_Hash m \<mapsto> data)"
    using put err MemStore_Put_under(1) [OF ok hk mid_wf_not_zero [OF m]] by auto
next
  fix s m data e
  assume "persist_inv E view s" "mid_wf (se_lib E) m" "verifyContent (se_lib E) (se_alg E) m data = Some e"
  then show "MemStore_Put E s m data = (Some e, s)"
    using MemStore_Put_under(1) [of E view s m data]
    by (simp add: persist_inv_def reads_ok_def put_under_def)
next
  fix s m
  assume inv: "persist_inv E view s" "mid_wf (se_lib E) m"
  then have "MemStore_Get E s m =
      (case stored (dbview view s) m of None \<Rightarrow> Inl ErrNotFound | Some val \<Rightarrow> load_value E s m val)"
    by (intro MemStore_Get_stored) (auto simp: persist_inv_def)
  with inv show "MemStore_Get E s m =
      (case hash_blocks view s (m_Hash m) of None \<Rightarrow> Inl ErrNotFound | Some data \<Rightarrow> Inr data)"
    by (simp add: hash_blocks_stored load_value_def persist_inv_def split: option.splits)
next
  fix s m m'
  assume "mid_wf (se_lib E) m" "mid_wf (se_lib E) m'" "m_codec m = m_codec m'" "m_Hash m = m_Hash m'"
  then show "m = m'" using mid_wf_eqI [of "se_lib E" m m'] by (simp add: MID_Equal_def mid_wf_def)
qed

section \<open>A small Pebble\<close>

text \<open>An association list as database, for concrete runs of the store.\<close>

definition demo_op :: "bytes \<times> bytes option \<Rightarrow> (bytes \<times> bytes) list \<Rightarrow> (bytes \<times> bytes) list" where
  "demo_op op d =
     (case snd op of None \<Rightarrow> filter (\<lambda>e. fst e \<noteq> fst op) d | Some x \<Rightarrow> (fst op, x) # d)"

definition demo_pebble :: "(bytes \<times> bytes) list pebble" where
  "demo_pebble =
     \<lparr>pb_Get = (\<lambda>d k. Inr (map_of d k)), pb_Commit = (\<lambda>d b. (None, fold demo_op b d)),
      pb_Iter = (\<lambda>d. Inr (map (\<lambda>k. (k, the (map_of d k))) (sorted_list_of_set (fst ` set d)))),
      pb_Close = (\<lambda>d. (None, d))\<rparr>"

definition demo_env :: "(bytes \<times> bytes) list store_env" where
  "demo_env = \<lparr>se_lib = demo_lib, se_alg = mh_SHA2_256, se_proto = demo_proto, se_pebble = demo_pebble,
     se_hooks = None, se_os = (\<lambda>c p. None), se_now = 0\<rparr>"

definition demo_store :: "(bytes \<times> bytes) list \<Rightarrow> string \<Rightarrow> (bytes \<times> bytes) list MemStore" where
  "demo_store d path = \<lparr>st_db = \<lparr>db_pebble = d, db_closed = False\<rparr>, st_bloom = None, st_blocksPath = path,
     st_files = Map.empty, st_closed = False, st_dropping = False, st_tracker = newGCWriteTracker 0\<rparr>"

lemma map_of_demo_op: "map_of (demo_op op d) = apply_op op (map_of d)"
proof -
  have "map_of (filter (\<lambda>e. fst e \<noteq> k) d) = (map_of d)(k := None)" for k
    by (induction d) (auto simp: fun_eq_iff)
  then show ?thesis by (auto simp: demo_op_def apply_op_def split: option.splits)
qed

lemma demo_pebble_ok: "pebble_ok demo_pebble map_of"
proof -
  have "map_of (fold demo_op b d) = apply_batch b (map_of d)" for b d
    by (induction b arbitrary: d) (simp_all add: apply_batch_def map_of_demo_op)
  moreover have "map_of (map (\<lambda>k. (k, the (map_of d k))) (sorted_list_of_set (fst ` set d))) = map_of d"
    for d :: "(bytes \<times> bytes) list"
  proof
    fix x
    have m: "map_of (map (\<lambda>k. (k, the (map_of d k))) (sorted_list_of_set (fst ` set d))) x =
        (if x \<in> fst ` set d then Some (the (map_of d x)) else None)"
      by (simp add: map_of_map_restrict restrict_map_def)
    show "map_of (map (\<lambda>k. (k, the (map_of d k))) (sorted_list_of_set (fst ` set d))) x = map_of d x"
    proof (cases "map_of d x")
      case None
      then have "x \<notin> fst ` set d" by (metis map_of_eq_None_iff)
      with None show ?thesis unfolding m by simp
    next
      case (Some y)
      then have "x \<in> fst ` set d" by (force dest: map_of_SomeD)
      with Some show ?thesis unfolding m by simp
    qed
  qed
  ultimately show ?thesis by (simp add: pebble_ok_def demo_pebble_def comp_def)
qed

lemma demo_store_ok: "store_ok demo_env map_of (demo_store d path)"
  by (simp add: store_ok_def demo_env_def demo_store_def demo_pebble_ok covers_def)

lemma demo_reads: "reads_ok demo_env" and demo_writes: "writes_ok demo_env"
  by (simp_all add: reads_ok_def writes_ok_def demo_env_def demo_pebble_def)

lemma demo_env_sel [simp]:
  "se_lib demo_env = demo_lib" "se_alg demo_env = mh_SHA2_256" "se_proto demo_env = demo_proto"
  "se_pebble demo_env = demo_pebble"
  by (simp_all add: demo_env_def)

section \<open>Properties\<close>

text \<open>The part of a read after a write that does not depend on the key.\<close>

lemma stored_upd:
  "m_Hash m' \<noteq> m_Hash m \<Longrightarrow> keyf = BlockKey \<or> keyf = DagKey \<Longrightarrow>
   stored (v(keyf m \<mapsto> x, TimestampKey L m \<mapsto> y)) m' = stored v m'"
  "stored (v(BlockKey m \<mapsto> x, TimestampKey L m \<mapsto> y)) m = Some x"
  by (auto simp: stored_def split: option.splits)

lemma Get_frame:
  assumes "store_ok E view s" "store_ok E view s'" "reads_ok E" "hashlib_ok (se_lib E)"
    "mid_wf (se_lib E) m" "mid_wf (se_lib E) m'" "m' \<noteq> m" "same_frame s s'"
    "\<And>p. p \<noteq> blockPath E s m \<Longrightarrow> st_files s' p = st_files s p"
    "stored (dbview view s') m' = stored (dbview view s) m'"
  shows "MemStore_Get E s' m' = MemStore_Get E s m'"
proof -
  have "load_value E s' m' val = load_value E s m' val" for val
  proof (cases "st_blocksPath s = []")
    case False
    then have "blockPath E s m' \<noteq> blockPath E s m"
      using blockPath_inj [OF assms(4,6,5)] assms(7) by blast
    with load_value_cong [of s' s E m' val] assms(8,9) show ?thesis by (simp add: same_frame_def)
  qed (use assms(8) in \<open>simp add: load_value_def same_frame_def\<close>)
  with assms show ?thesis by (simp add: MemStore_Get_stored split: option.split)
qed





text \<open>
  The size of an inline 8-byte block is read as if it were the length record of a file: GetSize
  reports the number its bytes spell, which may even be negative.
\<close>

theorem eight_byte_block_size:
  assumes "store_ok E view s" "reads_ok E" "writes_ok E" "mid_wf (se_lib E) m"
    "verifyContent (se_lib E) (se_alg E) m data = None" "st_blocksPath s \<noteq> []" "length data = 8"
  shows "\<exists>s'. MemStore_Put E s m data = (None, s') \<and> MemStore_GetSize E s' m = Inr (sint (Uint64 data))"
proof -
  obtain err s' where put: "put_under E BlockKey m data s = (err, s')" by fastforce
  then have err: "err = None" using put_under_succeeds [OF assms(3), of BlockKey m data s] assms(5) by simp
  have hk: "se_hooks E = None" using assms(2) by (simp add: reads_ok_def)
  have P: "pebble_ok (se_pebble E) view" using assms(1) by (simp add: store_ok_def)
  note e = put_under_effect [OF put P]
  have "record_of s data = data" using assms(7) by (simp add: record_of_def large_def LargeBlockThreshold_def)
  then have "stored (dbview view s') m = Some data" using e(4) [OF err] by (simp add: stored_upd)
  then have "MemStore_GetSize E s' m = Inr (sint (Uint64 data))"
    using MemStore_GetSize_stored [OF put_under_ok [OF put assms(1)] assms(2), of m] e(1) assms(6,7)
    by (simp add: recorded_size_def same_frame_def)
  then show ?thesis
    using MemStore_Put_under(1) [OF assms(1) hk mid_wf_not_zero [OF assms(4)], of data] put err by simp
qed

text \<open>
  Database keys hold only the hash, file names the whole identifier. A large block is found under the
  other codec of its hash, but its file is not, and Get returns the 8-byte length record as the data.
\<close>

theorem large_block_other_codec:
  assumes "store_ok E view s" "reads_ok E" "writes_ok E" "hashlib_ok (se_lib E)" "mid_wf (se_lib E) m"
    "verifyContent (se_lib E) (se_alg E) m data = None" "large s data"
    and "mid_wf (se_lib E) m'" "m_Hash m' = m_Hash m" "m_codec m' \<noteq> m_codec m"
    and "st_files s (blockPath E s m') = None"
  shows "\<exists>s'. MemStore_Put E s m data = (None, s') \<and>
    MemStore_Get E s' m' = Inr (PutUint64 (of_nat (length data)))"
proof -
  obtain err s' where put: "put_under E BlockKey m data s = (err, s')" by fastforce
  then have err: "err = None" using put_under_succeeds [OF assms(3), of BlockKey m data s] assms(6) by simp
  have hk: "se_hooks E = None" using assms(2) by (simp add: reads_ok_def)
  have P: "pebble_ok (se_pebble E) view" using assms(1) by (simp add: store_ok_def)
  note e = put_under_effect [OF put P]
  have bp: "st_blocksPath s' = st_blocksPath s" "st_blocksPath s \<noteq> []"
    using e(1) assms(7) by (simp_all add: same_frame_def large_def)
  have key: "BlockKey m' = BlockKey m" using assms(9) by simp
  have st: "stored (dbview view s') m' = Some (PutUint64 (of_nat (length data)))"
    using e(4) [OF err] assms(7) by (simp add: stored_def key record_of_def)
  have "blockPath E s m' \<noteq> blockPath E s m"
    using blockPath_inj [OF assms(4,8,5) bp(2)] assms(10) by blast
  then have "st_files s' (blockPath E s' m') = None"
    using e(2) assms(11) blockPath_cong [OF bp(1), of E m'] by simp
  then have "MemStore_Get E s' m' = Inr (PutUint64 (of_nat (length data)))"
    using MemStore_Get_stored [OF put_under_ok [OF put assms(1)] assms(2) mid_wf_not_zero [OF assms(8)]] st
    by (simp add: load_value_def)
  then show ?thesis
    using MemStore_Put_under(1) [OF assms(1) hk mid_wf_not_zero [OF assms(5)], of data] put err by simp
qed

end
