(* ===== verification/PersistContent.thy ===== *)
theory PersistContent
  imports Content StoreLaws
begin

text \<open>
  Adding and reading content through the persistent store: the builder of src/core/dag/dag.go and the
  resolver of src/core/dag/resolve.go over src/core/store/pebble.go, opened without a blocks
  directory. The builder's and the resolver's lemmas are those of the in-memory pipeline, reached
  through the store's interpretation of the blockstore contract.
\<close>

interpretation db_fixed: dag_builder "se_lib E" "se_alg E" "MemStore_Put E" "MemStore_Get E"
    "hash_blocks view" m_Hash "persist_inv E view" "fixed_Next (se_lib E) (se_alg E)" fixed_chunks
    "fixed_inv (se_lib E)" for E view
  by unfold_locales

interpretation db_fastcdc: dag_builder "se_lib E" "se_alg E" "MemStore_Put E" "MemStore_Get E"
    "hash_blocks view" m_Hash "persist_inv E view" "cdc_Next (se_lib E) (se_alg E)"
    "\<lambda>c. cdc_split (cdc_rest c)" "cdc_inv (se_lib E)" for E view
  by unfold_locales



end
