(* ===== verification/Collector.thy ===== *)
theory Collector
  imports StoreLaws
begin

text \<open>
  src/core/store/seal.go: seal records, garbage collection and recursive deletion in the persistent
  store. A walk reads the blocks as they are when it starts (the seal records its callback writes
  live under other keys). The collector marks reachable hashes in a temporary database, again a
  Pebble, passed as \<open>T\<close>; \<open>t0\<close> is the result of opening it. \<open>ctx n\<close> is what the n-th ctx.Err() of a
  run returns, and one reading of the clock serves a whole run. \<open>None\<close> as the result of an operation
  is a walk whose fuel ran out.
\<close>

section \<open>Seals\<close>

definition ErrSealWalkIncomplete :: gerror where
  "ErrSealWalkIncomplete = Sentinel ''store: seal walk incomplete''"

definition child_bit :: u64 where "child_bit = push_bit 63 1"

definition writeSeal :: "'d store_env \<Rightarrow> MID \<Rightarrow> bool \<Rightarrow> 'd MemStore \<Rightarrow> gerror option \<times> 'd MemStore" where
  "writeSeal E m child s =
     (let codecVal = (if child then or (m_codec m) child_bit else m_codec m)
      in case DB_Set (se_pebble E) (st_db s) (SealKey m) (PutUint64 codecVal) of
           (err, db') \<Rightarrow> (err, s\<lparr>st_db := db'\<rparr>))"

definition store_getter :: "'d store_env \<Rightarrow> 'd MemStore getter" where
  "store_getter E = \<lparr>g_Get = MemStore_Get E, g_GetSize = Some (MemStore_GetSize E)\<rparr>"

definition store_seal_visit :: "'d store_env \<Rightarrow> MID \<Rightarrow> 'd MemStore visitor" where
  "store_seal_visit E root m leaf s =
     (if MID_Equal m root then (None, s)
      else if m_codec m = CodecMemFS then (None, snd (writeSeal E m True s)) else (None, s))"

definition MemStore_Seal ::
  "'d store_env \<Rightarrow> nat \<Rightarrow> 'd MemStore \<Rightarrow> MID \<Rightarrow> bool \<Rightarrow> (gerror option \<times> 'd MemStore) option" where
  "MemStore_Seal E fuel s root recursive =
     (case enter s of
        Some err \<Rightarrow> Some (Some err, s)
      | None \<Rightarrow>
          if IsZero root then Some (Some (Msg ''store: zero MID''), s)
          else case writeSeal E root False s of
            (Some err, s1) \<Rightarrow> Some (Some err, s1)
          | (None, s1) \<Rightarrow>
              if \<not> recursive then Some (None, s1)
              else map_option
                (\<lambda>(werr, s2).
                  (case werr of
                     None \<Rightarrow> None
                   | Some e \<Rightarrow>
                       if errors_Is e ErrNotFound then Some (Wrap ''%w: %v'' ErrSealWalkIncomplete)
                       else Some (Wrap ''store: seal walk: %w'' e), s2))
                (Walk_store (se_lib E) (se_proto E) (store_getter E) fuel (Some s1) root
                   (store_seal_visit E root) s1))"

definition delete_seal :: "'d store_env \<Rightarrow> MID \<Rightarrow> 'd MemStore \<Rightarrow> gerror option \<times> 'd MemStore" where
  "delete_seal E m s =
     (case DB_Delete (se_pebble E) (st_db s) (SealKey m) of
        (err, db') \<Rightarrow>
          (case err of
             None \<Rightarrow> None
           | Some e \<Rightarrow> if errors_Is e db_ErrNotFound then None else Some e, s\<lparr>st_db := db'\<rparr>))"

definition store_unseal_visit :: "'d store_env \<Rightarrow> 'd MemStore visitor" where
  "store_unseal_visit E m leaf s =
     (if m_codec m = CodecMemFS
      then (case delete_seal E m s of (err, s') \<Rightarrow> (map_option (Wrap ''store: unseal child: %w'') err, s'))
      else (None, s))"

definition MemStore_Unseal ::
  "'d store_env \<Rightarrow> nat \<Rightarrow> 'd MemStore \<Rightarrow> MID \<Rightarrow> (gerror option \<times> 'd MemStore) option" where
  "MemStore_Unseal E fuel s root =
     (case enter s of
        Some err \<Rightarrow> Some (Some err, s)
      | None \<Rightarrow>
          if IsZero root then Some (Some (Msg ''store: zero MID''), s)
          else case delete_seal E root s of
            (Some err, s1) \<Rightarrow> Some (Some err, s1)
          | (None, s1) \<Rightarrow>
              map_option
                (\<lambda>(werr, s2).
                  (case werr of
                     None \<Rightarrow> None
                   | Some e \<Rightarrow> if errors_Is e ErrNotFound then None else Some e, s2))
                (Walk_store (se_lib E) (se_proto E) (store_getter E) fuel (Some s1) root
                   (store_unseal_visit E) s1))"

definition MemStore_IsSealed :: "'d store_env \<Rightarrow> 'd MemStore \<Rightarrow> MID \<Rightarrow> bool result" where
  "MemStore_IsSealed E s m =
     (case enter s of
        Some err \<Rightarrow> Inl err
      | None \<Rightarrow>
          if IsZero m then Inl (Msg ''store: zero MID'')
          else DB_Has (se_pebble E) (st_db s) (SealKey m))"

text \<open>The codec a seal record stores and whether it marks a child.\<close>

definition seal_codec :: "bytes \<Rightarrow> u64 \<times> bool" where
  "seal_codec val =
     (if length val = 8
      then (let v = Uint64 val in (and v (not child_bit), and v child_bit \<noteq> 0))
      else (CodecRaw, False))"

fun iterate_sealed ::
  "hashlib \<Rightarrow> (MID \<Rightarrow> 'v \<Rightarrow> gerror option \<times> 'v) \<Rightarrow> (bytes \<times> bytes) list \<Rightarrow> 'v \<Rightarrow> gerror option \<times> 'v" where
  "iterate_sealed L fn [] v = (None, v)"
| "iterate_sealed L fn ((k, val) # kvs) v =
     (case seal_codec val of (codec, isChild) \<Rightarrow>
        if isChild then iterate_sealed L fn kvs v
        else case FromMultihash L codec (drop (length PrefixSeal) k) of
          Inl _ \<Rightarrow> iterate_sealed L fn kvs v
        | Inr m \<Rightarrow>
            (case fn m v of
               (Some err, v') \<Rightarrow> (Some err, v')
             | (None, v') \<Rightarrow> iterate_sealed L fn kvs v'))"

definition MemStore_IterateSealed ::
  "'d store_env \<Rightarrow> 'd MemStore \<Rightarrow> (MID \<Rightarrow> 'v \<Rightarrow> gerror option \<times> 'v) \<Rightarrow> 'v \<Rightarrow> gerror option \<times> 'v" where
  "MemStore_IterateSealed E s fn v =
     (case enter s of
        Some err \<Rightarrow> (Some err, v)
      | None \<Rightarrow>
          (case DB_NewIter (se_pebble E) (st_db s) of
             Inl err \<Rightarrow> (Some err, v)
           | Inr kvs \<Rightarrow> iterate_sealed (se_lib E) fn (scan_prefix PrefixSeal kvs) v))"

definition MemStore_AllSealed :: "'d store_env \<Rightarrow> 'd MemStore \<Rightarrow> gerror option \<times> MID list" where
  "MemStore_AllSealed E s = MemStore_IterateSealed E s (\<lambda>m out. (None, out @ [m])) []"

definition erasureShardMIDs :: "'d store_env \<Rightarrow> 'd MemStore \<Rightarrow> MID \<Rightarrow> MID list" where
  "erasureShardMIDs E s m =
     (case DB_Get (se_pebble E) (st_db s) (MetaKey (''erasure/'' @ MID_String (se_lib E) m)) of
        Inl _ \<Rightarrow> []
      | Inr raw \<Rightarrow>
          if raw = [] then []
          else case pb_Manifest_Unmarshal (se_proto E) raw of
            None \<Rightarrow> []
          | Some mf \<Rightarrow> oks (map (Parse (se_lib E)) (em_ShardMids mf)))"

section \<open>Garbage collection\<close>

text \<open>Marking: errors of the temporary database and of the walks are dropped.\<close>

definition mark :: "'t pebble \<Rightarrow> MID \<Rightarrow> 't DB \<Rightarrow> 't DB" where
  "mark T m t = snd (DB_Set T t (m_Hash m) [1])"

definition mark_visit :: "'d store_env \<Rightarrow> 't pebble \<Rightarrow> 'd MemStore \<Rightarrow> 't DB visitor" where
  "mark_visit E T s m leaf t = (None, fold (mark T) (erasureShardMIDs E s m) (mark T m t))"

fun mark_roots ::
  "'d store_env \<Rightarrow> 't pebble \<Rightarrow> (nat \<Rightarrow> gerror option) \<Rightarrow> nat \<Rightarrow> 'd MemStore \<Rightarrow> MID list \<Rightarrow> nat \<Rightarrow> 't DB
     \<Rightarrow> (gerror option \<times> nat \<times> 't DB) option" where
  "mark_roots E T ctx fuel s [] n t = Some (None, n, t)"
| "mark_roots E T ctx fuel s (root # roots) n t =
     (case ctx n of
        Some err \<Rightarrow> Some (Some err, Suc n, t)
      | None \<Rightarrow>
          if IsZero root then mark_roots E T ctx fuel s roots (Suc n) t
          else case Walk_store (se_lib E) (se_proto E) (store_getter E) fuel (Some s) root
                      (mark_visit E T s) (mark T root t) of
            None \<Rightarrow> None
          | Some (_, t') \<Rightarrow> mark_roots E T ctx fuel s roots (Suc n) t')"

text \<open>Sweeping: what is kept, and the loop with its batches.\<close>

definition gc_keeps ::
  "'d store_env \<Rightarrow> 't pebble \<Rightarrow> 't DB \<Rightarrow> int \<Rightarrow> u64 \<Rightarrow> 'd MemStore \<Rightarrow> bytes \<Rightarrow> bool" where
  "gc_keeps E T t minAge minAgeTs s raw =
     (if DB_Has T t raw = Inr True then True
      else case FromMultihash (se_lib E) CodecRaw raw of
        Inl _ \<Rightarrow> False
      | Inr m \<Rightarrow>
          (let ts = ReadTimestamp (se_lib E) (se_pebble E) (st_db s) m;
               writeTs = (case ts of Inl _ \<Rightarrow> 0 | Inr x \<Rightarrow> x)
           in IsProtected (se_lib E) (se_now E) (st_tracker s) m writeTs minAge \<or>
              minAgeTs > 0 \<and> (case ts of Inl _ \<Rightarrow> False | Inr x \<Rightarrow> minAgeTs \<le> x)))"

definition gc_remove_file :: "'d store_env \<Rightarrow> bytes \<Rightarrow> 'd MemStore \<Rightarrow> 'd MemStore" where
  "gc_remove_file E raw s =
     (if st_blocksPath s \<noteq> [] then
        (case FromMultihash (se_lib E) CodecRaw raw of Inl _ \<Rightarrow> s | Inr m \<Rightarrow> remove_file E m s)
      else s)"

fun gc_loop ::
  "'d store_env \<Rightarrow> 't pebble \<Rightarrow> 't DB \<Rightarrow> (nat \<Rightarrow> gerror option) \<Rightarrow> int \<Rightarrow> u64 \<Rightarrow> (bytes \<times> bytes) list
     \<Rightarrow> nat \<Rightarrow> batch \<Rightarrow> nat \<Rightarrow> u64 \<Rightarrow> 'd MemStore \<Rightarrow> gerror option \<times> u64 \<times> batch \<times> nat \<times> 'd MemStore" where
  "gc_loop E T t ctx minAge minAgeTs [] n b cnt freed s = (None, freed, b, cnt, s)"
| "gc_loop E T t ctx minAge minAgeTs ((k, val) # kvs) n b cnt freed s =
     (case ctx n of
        Some err \<Rightarrow> (Some err, freed, b, cnt, s)
      | None \<Rightarrow>
          let raw = drop 3 k
          in if gc_keeps E T t minAge minAgeTs s raw
             then gc_loop E T t ctx minAge minAgeTs kvs (Suc n) b cnt freed s
             else
               let b' = b @ [(k, None)];
                   freed' = freed + (of_nat (length k) + recorded_size s val);
                   s' = gc_remove_file E raw s;
                   cnt' = cnt + 1
               in if 1000 \<le> cnt' then
                    (case commit E b' s' of
                       (Some err, s2) \<Rightarrow> (Some (Wrap ''store: gc batch delete failed: %w'' err), freed', [], 0, s2)
                     | (None, s2) \<Rightarrow> gc_loop E T t ctx minAge minAgeTs kvs (Suc n) [] 0 freed' s2)
                  else gc_loop E T t ctx minAge minAgeTs kvs (Suc n) b' cnt' freed' s')"

definition gc_sweep ::
  "'d store_env \<Rightarrow> 't pebble \<Rightarrow> 't DB \<Rightarrow> (nat \<Rightarrow> gerror option) \<Rightarrow> nat \<Rightarrow> int \<Rightarrow> 'd MemStore
     \<Rightarrow> gerror option \<times> u64 \<times> 'd MemStore" where
  "gc_sweep E T t ctx n minAge s =
     (let minAgeTs = (if minAge > 0 then cutoff_of (se_now E) minAge else 0)
      in case DB_NewIter (se_pebble E) (st_db s) of
           Inl err \<Rightarrow> (Some err, 0, s)
         | Inr kvs \<Rightarrow>
             (case gc_loop E T t ctx minAge minAgeTs (block_entries kvs) n [] 0 0 s of
                (Some err, freed, b, cnt, s1) \<Rightarrow> (Some err, freed, s1)
              | (None, freed, b, cnt, s1) \<Rightarrow>
                  if cnt > 0 then
                    (case commit E b s1 of
                       (Some err, s2) \<Rightarrow> (Some (Wrap ''store: gc final batch delete failed: %w'' err), freed, s2)
                     | (None, s2) \<Rightarrow> (None, freed, s2))
                  else (None, freed, s1)))"

definition GCWithMinAge ::
  "'d store_env \<Rightarrow> 't pebble \<Rightarrow> 't DB result \<Rightarrow> (nat \<Rightarrow> gerror option) \<Rightarrow> nat \<Rightarrow> 'd MemStore \<Rightarrow> int
     \<Rightarrow> (gerror option \<times> u64 \<times> 'd MemStore) option" where
  "GCWithMinAge E T t0 ctx fuel s minAge =
     (case enter s of
        Some err \<Rightarrow> Some (Some err, 0, s)
      | None \<Rightarrow>
          let s1 = s\<lparr>st_tracker := StartGC (st_tracker s)\<rparr>;
              ended = (\<lambda>(err, freed, s'). Some (err, freed, s'\<lparr>st_tracker := EndGC (st_tracker s')\<rparr>))
          in case t0 of
               Inl err \<Rightarrow> ended (Some err, 0, s1)
             | Inr t \<Rightarrow>
                 (case MemStore_AllSealed E s1 of
                    (Some err, _) \<Rightarrow> ended (Some err, 0, s1)
                  | (None, roots) \<Rightarrow>
                      (case mark_roots E T ctx fuel s1 roots 0 t of
                         None \<Rightarrow> None
                       | Some (Some err, _, _) \<Rightarrow> ended (Some err, 0, s1)
                       | Some (None, n, t') \<Rightarrow> ended (gc_sweep E T t' ctx n minAge s1))))"

definition MemStore_GC ::
  "'d store_env \<Rightarrow> 't pebble \<Rightarrow> 't DB result \<Rightarrow> (nat \<Rightarrow> gerror option) \<Rightarrow> nat \<Rightarrow> 'd MemStore
     \<Rightarrow> (gerror option \<times> u64 \<times> 'd MemStore) option" where
  "MemStore_GC E T t0 ctx fuel s = GCWithMinAge E T t0 ctx fuel s 0"

section \<open>Recursive deletion\<close>

definition store_children :: "'d store_env \<Rightarrow> MID \<Rightarrow> bytes \<Rightarrow> MID list" where
  "store_children E m data =
     (let plain = collect_children (se_lib E) (se_proto E) m data
      in case tryParseDescriptor (se_proto E) data of
           Inl e \<Rightarrow> plain
         | Inr desc \<Rightarrow>
             if dp_RootMid desc \<noteq> [] \<and> dp_Blocks desc \<noteq> [] then
               oks [Parse (se_lib E) (dp_RootMid desc)] @
               oks (map (\<lambda>b. Parse (se_lib E) (db_Mid b)) (dp_Blocks desc))
             else plain)"

text \<open>The closure collect; \<open>reachable\<close> in the order of insertion.\<close>

fun store_collect :: "'d store_env \<Rightarrow> 'd MemStore \<Rightarrow> nat \<Rightarrow> MID \<Rightarrow> (string \<times> MID) list \<Rightarrow> (string \<times> MID) list option"
  and store_collect_all ::
    "'d store_env \<Rightarrow> 'd MemStore \<Rightarrow> nat \<Rightarrow> MID list \<Rightarrow> (string \<times> MID) list \<Rightarrow> (string \<times> MID) list option" where
  "store_collect E s 0 m reachable = None"
| "store_collect E s (Suc n) m reachable =
     (if IsZero m then Some reachable
      else let ms = MID_String (se_lib E) m
        in if ms \<in> fst ` set reachable then Some reachable
           else
             let reachable' = reachable @ [(ms, m)]
             in case MemStore_Get E s m of
                  Inl _ \<Rightarrow> Some reachable'
                | Inr data \<Rightarrow>
                    store_collect_all E s n (store_children E m data @ erasureShardMIDs E s m) reachable')"
| "store_collect_all E s n [] reachable = Some reachable"
| "store_collect_all E s n (c # cs) reachable =
     (case store_collect E s n c reachable of
        None \<Rightarrow> None
      | Some reachable' \<Rightarrow> store_collect_all E s n cs reachable')"

text \<open>One block of a deletion batch: the values found under its keys are added up and deleted.\<close>

definition found_values :: "'d store_env \<Rightarrow> 'd MemStore \<Rightarrow> MID \<Rightarrow> (bytes \<times> bytes) list" where
  "found_values E s m =
     concat (map (\<lambda>key. case DB_Get (se_pebble E) (st_db s) key of Inl _ \<Rightarrow> [] | Inr val \<Rightarrow> [(key, val)])
       [BlockKey m, DagKey m])"

fun delete_block ::
  "'d store_env \<Rightarrow> MID list \<Rightarrow> batch \<Rightarrow> u64 \<Rightarrow> u64 \<Rightarrow> 'd MemStore \<Rightarrow> batch \<times> u64 \<times> u64 \<times> 'd MemStore" where
  "delete_block E [] b blocks freed s = (b, blocks, freed, s)"
| "delete_block E (m # ms) b blocks freed s =
     (let found = found_values E s m; size = (\<Sum>kv \<leftarrow> found. recorded_size s (snd kv));
          b' = b @ map (\<lambda>kv. (fst kv, None)) found @ delete_ops E m
      in if found \<noteq> [] then delete_block E ms b' (blocks + 1) (freed + size) (remove_file E m s)
         else delete_block E ms b' blocks freed s)"

fun delete_groups ::
  "'d store_env \<Rightarrow> MID list list \<Rightarrow> u64 \<Rightarrow> u64 \<Rightarrow> 'd MemStore \<Rightarrow> gerror option \<times> u64 \<times> u64 \<times> 'd MemStore" where
  "delete_groups E [] blocks freed s = (None, blocks, freed, s)"
| "delete_groups E (g # gs) blocks freed s =
     (case delete_block E g [] blocks freed s of
        (b, blocks', freed', s1) \<Rightarrow>
          (case commit E b s1 of
             (Some err, s2) \<Rightarrow> (Some (Wrap ''store: batch delete failed: %w'' err), blocks', freed', s2)
           | (None, s2) \<Rightarrow> delete_groups E gs blocks' freed' s2))"

text \<open>\<open>order\<close> is the order in which the loop meets the values of the map \<open>reachable\<close>.\<close>

definition MemStore_DeleteRecursive ::
  "'d store_env \<Rightarrow> nat \<Rightarrow> (MID list \<Rightarrow> MID list) \<Rightarrow> 'd MemStore \<Rightarrow> MID
     \<Rightarrow> (gerror option \<times> u64 \<times> u64 \<times> 'd MemStore) option" where
  "MemStore_DeleteRecursive E fuel order s root =
     (case enter s of
        Some err \<Rightarrow> Some (Some err, 0, 0, s)
      | None \<Rightarrow>
          if IsZero root then Some (Some (Msg ''store: zero MID''), 0, 0, s)
          else case MemStore_Unseal E fuel s root of
            None \<Rightarrow> None
          | Some (_, s1) \<Rightarrow>
              (case store_collect E s1 fuel root [] of
                 None \<Rightarrow> None
               | Some reachable \<Rightarrow>
                   (case delete_groups E (groups_of 100 (order (map snd reachable))) 0 0 s1 of
                      (Some err, blocks, freed, s2) \<Rightarrow> Some (Some err, blocks, freed, s2)
                    | (None, blocks, freed, s2) \<Rightarrow>
                        (case rebuildFromDB (se_pebble E) (st_db s2) (st_bloom s2) of
                           (err, bloom') \<Rightarrow>
                             Some (map_option (Wrap ''store: bloom rebuild after delete: %w'') err, blocks, freed,
                               s2\<lparr>st_bloom := bloom'\<rparr>)))))"

end
