(* ===== verification/StoreRun.thy ===== *)
theory StoreRun
  imports Collector
begin

text \<open>
  The invariant of the persistent store along arbitrary sequences of its operations: the Bloom index
  covers the database, whatever fails, so that lookups never deny a block that is stored.
\<close>

section \<open>Operations that add no block\<close>

definition block_frame :: "('d \<Rightarrow> bytes \<rightharpoonup> bytes) \<Rightarrow> 'd MemStore \<Rightarrow> 'd MemStore \<Rightarrow> bool" where
  "block_frame view s s' \<longleftrightarrow> same_frame s s' \<and> st_bloom s' = st_bloom s \<and>
     block_hashes (dbview view s') \<subseteq> block_hashes (dbview view s)"

lemma block_frame_refl [simp]: "block_frame view s s"
  by (simp add: block_frame_def same_frame_def)

lemma block_frame_trans: "block_frame view s s' \<Longrightarrow> block_frame view s' s'' \<Longrightarrow> block_frame view s s''"
  by (auto simp: block_frame_def same_frame_def)

lemma block_frame_ok: "store_ok E view s \<Longrightarrow> block_frame view s s' \<Longrightarrow> store_ok E view s'"
  by (auto simp: block_frame_def same_frame_def store_ok_def intro: covers_sub)

definition harmless :: "batch \<Rightarrow> bool" where
  "harmless b \<longleftrightarrow> (\<forall>(k, x) \<in> set b. x = None \<or> (\<forall>h. k \<noteq> PrefixBlock @ h \<and> k \<noteq> PrefixDAG @ h))"

lemma harmless_simps [simp]:
  "harmless []" "harmless ((k, None) # b) \<longleftrightarrow> harmless b" "harmless (b @ b') \<longleftrightarrow> harmless b \<and> harmless b'"
  "harmless ((SealKey m, x) # b) \<longleftrightarrow> harmless b" "harmless ((MetaKey y, x) # b) \<longleftrightarrow> harmless b"
  "harmless (map (\<lambda>kv. (f kv, None)) kvs)"
  by (auto simp: harmless_def SealKey_def MetaKey_def prefix_key_eq prefixes_differ [symmetric])

lemma harmless_hashes: "harmless b \<Longrightarrow> block_hashes (apply_batch b v) \<subseteq> block_hashes v"
proof (induction b arbitrary: v)
  case (Cons op b)
  obtain k x where op: "op = (k, x)" by fastforce
  have "harmless b" using Cons.prems by (simp add: harmless_def)
  moreover have "block_hashes (v(k := x)) \<subseteq> block_hashes v"
    using Cons.prems op by (auto simp: harmless_def block_hashes_def split: if_splits)
  ultimately show ?case using subset_trans [OF Cons.IH [of "v(k := x)"]] by (simp add: op del: fun_upd_apply)
qed simp

lemma commit_frame:
  assumes "pebble_ok (se_pebble E) view" "harmless b"
  shows "block_frame view s (snd (commit E b s))"
  using commit_view [OF assms(1), of b s] harmless_hashes [OF assms(2), of "dbview view s"]
  by (auto simp: block_frame_def same_frame_def)

lemma DB_Set_commit:
  "(case DB_Set (se_pebble E) (st_db s) k x of (err, db') \<Rightarrow> (err, s\<lparr>st_db := db'\<rparr>)) =
     (if db_closed (st_db s) then (Some db_ErrClosed, s) else commit E [(k, Some x)] s)"
  "(case DB_Delete (se_pebble E) (st_db s) k of (err, db') \<Rightarrow> (err, s\<lparr>st_db := db'\<rparr>)) =
     (if db_closed (st_db s) then (Some db_ErrClosed, s) else commit E [(k, None)] s)"
  by (simp_all add: DB_Set_def DB_Delete_def commit_def)

lemma remove_file_fields [simp]:
  "dbview view (remove_file E m s) = dbview view s" "st_bloom (remove_file E m s) = st_bloom s"
  "same_frame s (remove_file E m s)" "st_tracker (remove_file E m s) = st_tracker s"
  "block_frame view s (remove_file E m s)"
  by (simp_all add: remove_file_def dbview_def same_frame_def block_frame_def)

lemma writeSeal_frame:
  "pebble_ok (se_pebble E) view \<Longrightarrow> block_frame view s (snd (writeSeal E m child s))"
  by (simp add: writeSeal_def Let_def DB_Set_commit commit_frame)

lemma delete_seal_frame:
  assumes "pebble_ok (se_pebble E) view"
  shows "block_frame view s (snd (delete_seal E m s))"
proof -
  have "snd (delete_seal E m s) =
      snd (case DB_Delete (se_pebble E) (st_db s) (SealKey m) of (err, db') \<Rightarrow> (err, s\<lparr>st_db := db'\<rparr>))"
    by (simp add: delete_seal_def split: prod.splits)
  then show ?thesis using assms by (simp add: DB_Set_commit commit_frame)
qed

lemma Seal_frame:
  assumes "pebble_ok (se_pebble E) view" "MemStore_Seal E fuel s root recursive = Some (err, s')"
  shows "block_frame view s s'"
proof -
  obtain e1 s1 where w: "writeSeal E root False s = (e1, s1)" by fastforce
  then have f1: "block_frame view s s1" using writeSeal_frame [OF assms(1), of s root False] by simp
  show ?thesis
  proof (cases "enter s = None \<and> \<not> IsZero root \<and> e1 = None \<and> recursive")
    case True
    then obtain r where "Walk_store (se_lib E) (se_proto E) (store_getter E) fuel (Some s1) root
        (store_seal_visit E root) s1 = Some (r, s')"
      using assms(2) w by (auto simp: MemStore_Seal_def)
    then show ?thesis
    proof (rule Walk_store_keeps [where I = "block_frame view s", rotated 2])
      show "block_frame view s (snd (store_seal_visit E root m leaf v))" if "block_frame view s v" for m leaf v
        using that block_frame_trans [OF that writeSeal_frame [OF assms(1), of v m True]]
        by (simp add: store_seal_visit_def)
    qed (rule f1)
  next
    case False
    with assms(2) w f1 show ?thesis by (auto simp: MemStore_Seal_def split: option.splits if_splits)
  qed
qed

lemma Unseal_frame:
  assumes "pebble_ok (se_pebble E) view" "MemStore_Unseal E fuel s root = Some (err, s')"
  shows "block_frame view s s'"
proof -
  obtain e1 s1 where w: "delete_seal E root s = (e1, s1)" by fastforce
  then have f1: "block_frame view s s1" using delete_seal_frame [OF assms(1), of s root] by simp
  show ?thesis
  proof (cases "enter s = None \<and> \<not> IsZero root \<and> e1 = None")
    case True
    then obtain r where "Walk_store (se_lib E) (se_proto E) (store_getter E) fuel (Some s1) root
        (store_unseal_visit E) s1 = Some (r, s')"
      using assms(2) w by (auto simp: MemStore_Unseal_def)
    then show ?thesis
    proof (rule Walk_store_keeps [where I = "block_frame view s", rotated 2])
      show "block_frame view s (snd (store_unseal_visit E m leaf v))" if "block_frame view s v" for m leaf v
        using that block_frame_trans [OF that delete_seal_frame [OF assms(1), of v m]]
        by (cases "delete_seal E m v") (simp add: store_unseal_visit_def)
    qed (rule f1)
  next
    case False
    with assms(2) w f1 show ?thesis by (auto simp: MemStore_Unseal_def split: option.splits if_splits)
  qed
qed

section \<open>The collector\<close>

lemma gc_remove_file_fields [simp]:
  "block_frame view s (gc_remove_file E raw s)" "dbview view (gc_remove_file E raw s) = dbview view s"
  "st_tracker (gc_remove_file E raw s) = st_tracker s" "st_bloom (gc_remove_file E raw s) = st_bloom s"
  "same_frame s (gc_remove_file E raw s)"
  by (simp_all add: gc_remove_file_def split: sum.split) (simp add: same_frame_def)

lemma gc_loop_frame:
  assumes "pebble_ok (se_pebble E) view"
  shows "gc_loop E T t ctx minAge ts kvs n b cnt freed s = (err, freed', b', cnt', s') \<Longrightarrow> harmless b \<Longrightarrow>
    block_frame view s s' \<and> harmless b'"
proof (induction kvs arbitrary: n b cnt freed s)
  case (Cons kv kvs)
  obtain k val where kv: "kv = (k, val)" by fastforce
  let ?s = "gc_remove_file E (drop 3 k) s"
  have hb: "harmless (b @ [(k, None)])" using Cons.prems(2) by simp
  obtain e2 s2 where c: "commit E (b @ [(k, None)]) ?s = (e2, s2)" by fastforce
  have f1: "block_frame view s ?s" by simp
  have f2: "block_frame view s s2"
    using block_frame_trans [OF f1 commit_frame [OF assms hb, of ?s]] c by simp
  show ?case
  proof (cases "ctx n = None \<and> \<not> gc_keeps E T t minAge ts s (drop 3 k)")
    case False
    with Cons kv show ?thesis by (auto simp: Let_def split: option.splits if_splits)
  next
    case drop: True
    show ?thesis
    proof (cases "1000 \<le> cnt + 1")
      case True
      with Cons.prems(1) drop kv c have
        "e2 \<noteq> None \<and> b' = [] \<and> s' = s2 \<or>
         gc_loop E T t ctx minAge ts kvs (Suc n) [] 0 (freed + (of_nat (length k) + recorded_size s val)) s2 =
           (err, freed', b', cnt', s')"
        by (auto simp: Let_def split: option.splits)
      then show ?thesis using Cons.IH [of "Suc n" "[]" 0 _ s2] f2 block_frame_trans [OF f2] by auto
    next
      case False
      with Cons.prems(1) drop kv have
        "gc_loop E T t ctx minAge ts kvs (Suc n) (b @ [(k, None)]) (cnt + 1)
           (freed + (of_nat (length k) + recorded_size s val)) ?s = (err, freed', b', cnt', s')"
        by (auto simp: Let_def)
      from Cons.IH [OF this hb] show ?thesis using block_frame_trans [OF f1] by blast
    qed
  qed
qed simp

lemma gc_sweep_frame:
  assumes "pebble_ok (se_pebble E) view" "gc_sweep E T t ctx n minAge s = (err, freed, s')"
  shows "block_frame view s s'"
proof (cases "DB_NewIter (se_pebble E) (st_db s)")
  case (Inr kvs)
  obtain e1 f1 b1 c1 s1 where
    g: "gc_loop E T t ctx minAge (if minAge > 0 then cutoff_of (se_now E) minAge else 0) (block_entries kvs)
      n [] 0 0 s = (e1, f1, b1, c1, s1)" by (metis prod_cases5)
  then have f: "block_frame view s s1" "harmless b1" using gc_loop_frame [OF assms(1) g] by auto
  then have "block_frame view s (snd (commit E b1 s1))"
    using block_frame_trans [OF f(1) commit_frame [OF assms(1)]] by blast
  with assms(2) Inr g f(1) show ?thesis
    by (auto simp: gc_sweep_def Let_def split: option.splits if_splits prod.splits)
qed (use assms(2) in \<open>simp add: gc_sweep_def Let_def\<close>)

lemma tracker_frame [simp]:
  "block_frame view s (s'\<lparr>st_tracker := x\<rparr>) \<longleftrightarrow> block_frame view s s'"
  "block_frame view (s\<lparr>st_tracker := x\<rparr>) s' \<longleftrightarrow> block_frame view s s'"
  by (simp_all add: block_frame_def same_frame_def dbview_def)

lemma GC_frame:
  assumes "pebble_ok (se_pebble E) view" "GCWithMinAge E T t0 ctx fuel s minAge = Some (err, freed, s')"
  shows "block_frame view s s'"
proof -
  have "block_frame view s x" if "gc_sweep E T t ctx n minAge (s\<lparr>st_tracker := y\<rparr>) = (err, freed, x)"
    for t n y x using gc_sweep_frame [OF assms(1) that] by simp
  with assms(2) show ?thesis
    by (auto simp: GCWithMinAge_def Let_def split: option.splits sum.splits prod.splits)
qed

section \<open>Recursive deletion\<close>

lemma delete_block_frame:
  "delete_block E ms b n freed s = (b', n', freed', s') \<Longrightarrow> harmless b \<Longrightarrow>
     block_frame view s s' \<and> harmless b'"
proof (induction ms arbitrary: b n freed s)
  case (Cons m ms)
  have ops: "harmless (delete_ops E m)" by (simp add: delete_ops_def)
  show ?case
  proof (cases "found_values E s m = []")
    case True
    with Cons.prems(1) have "delete_block E ms (b @ delete_ops E m) n freed s = (b', n', freed', s')"
      by (simp add: Let_def)
    then show ?thesis using Cons.IH Cons.prems(2) ops by auto
  next
    case False
    with Cons.prems(1) have
      "delete_block E ms (b @ map (\<lambda>kv. (fst kv, None)) (found_values E s m) @ delete_ops E m) (n + 1)
         (freed + (\<Sum>kv \<leftarrow> found_values E s m. recorded_size s (snd kv))) (remove_file E m s) = (b', n', freed', s')"
      by (simp add: Let_def)
    then have "block_frame view (remove_file E m s) s' \<and> harmless b'"
      using Cons.IH Cons.prems(2) ops by auto
    then show ?thesis using block_frame_trans [of view s "remove_file E m s"] by auto
  qed
qed simp

lemma delete_groups_frame:
  assumes "pebble_ok (se_pebble E) view"
  shows "delete_groups E gs n freed s = (err, n', freed', s') \<Longrightarrow> block_frame view s s'"
proof (induction gs arbitrary: n freed s)
  case (Cons g gs)
  obtain b n1 f1 s1 where d: "delete_block E g [] n freed s = (b, n1, f1, s1)" by (metis prod_cases4)
  then have f: "block_frame view s s1" "harmless b" using delete_block_frame [OF d] by auto
  obtain e2 s2 where c: "commit E b s1 = (e2, s2)" by fastforce
  then have f2: "block_frame view s s2"
    using block_frame_trans [OF f(1) commit_frame [OF assms f(2), of s1]] by simp
  show ?case
  proof (cases e2)
    case None
    with Cons d c show ?thesis using block_frame_trans [OF f2] by auto
  qed (use Cons d c f2 in auto)
qed simp

lemma fold_cbf_Add_holds:
  "cbf_holds co S \<Longrightarrow> [] \<notin> set ks \<Longrightarrow> cbf_holds (fold cbf_Add ks co) (S + mset ks)"
proof (induction ks arbitrary: co S)
  case (Cons k ks)
  then have "cbf_holds (cbf_Add k co) (add_mset k S)" by (intro cbf_Add_holds) auto
  with Cons.IH [OF this] Cons.prems(2) show ?case by simp
qed simp

text \<open>A rebuilt index covers the database; a failed rebuild leaves the old one.\<close>

lemma rebuild_covers:
  assumes "pebble_ok B view" "covers bo (view (db_pebble db))" "rebuildFromDB B db bo = (err, bo')"
  shows "covers bo' (view (db_pebble db))"
proof (cases bo)
  case (Some b)
  show ?thesis
  proof (cases "DB_NewIter B db")
    case (Inr kvs)
    then have it: "pb_Iter B (db_pebble db) = Inr kvs" by (simp add: DB_NewIter_def split: if_splits)
    have keys: "set (index_keys kvs) = block_hashes (view (db_pebble db)) - {[]}"
      using index_keys_hashes pebble_Iter [OF assms(1) it] by blast
    have mk: "bi_m b \<noteq> 0" "bi_k b \<noteq> 0" using assms(2) Some by (simp_all add: covers_def)
    define F where "F = fold cbf_Add (index_keys kvs) (Some (NewCountingBloomFilter (bi_m b) (bi_k b)))"
    have "cbf_holds F ({#} + mset (index_keys kvs))"
      unfolding F_def using fold_cbf_Add_holds [OF cbf_empty_holds [OF mk]] keys by simp
    then have "\<exists>S. cbf_holds F S \<and> block_hashes (view (db_pebble db)) - {[]} \<subseteq> set_mset S"
      using keys by (intro exI [of _ "{#} + mset (index_keys kvs)"]) simp
    moreover have "bo' = Some (b\<lparr>bi_cbf := F\<rparr>)"
      unfolding F_def using assms(3) Some Inr by (simp add: rebuildFromDB_def)
    ultimately show ?thesis using mk by (simp add: covers_def)
  qed (use assms Some in \<open>simp add: rebuildFromDB_def\<close>)
qed (use assms in \<open>simp add: rebuildFromDB_def\<close>)

lemma rebuild_ok:
  assumes "store_ok E view s" "rebuildFromDB (se_pebble E) (st_db s) (st_bloom s) = (err, bo')"
  shows "store_ok E view (s\<lparr>st_bloom := bo'\<rparr>)"
  using rebuild_covers [OF _ _ assms(2), of view] assms(1) by (simp add: store_ok_def dbview_def)

lemma DeleteRecursive_ok:
  assumes "store_ok E view s" "MemStore_DeleteRecursive E fuel order s root = Some (err, n, freed, s')"
  shows "store_ok E view s'"
proof (cases "IsZero root")
  case False
  have P: "pebble_ok (se_pebble E) view" using assms(1) by (simp add: store_ok_def)
  from assms(2) False enter_open [OF assms(1)] obtain e1 s1 reach where
    u: "MemStore_Unseal E fuel s root = Some (e1, s1)" and
    c: "store_collect E s1 fuel root [] = Some reach"
    by (auto simp: MemStore_DeleteRecursive_def split: option.splits)
  have ok1: "store_ok E view s1" by (rule block_frame_ok [OF assms(1) Unseal_frame [OF P u]])
  obtain e2 n2 f2 s2 where
    d: "delete_groups E (groups_of 100 (order (map snd reach))) 0 0 s1 = (e2, n2, f2, s2)" by (metis prod_cases4)
  have ok2: "store_ok E view s2" by (rule block_frame_ok [OF ok1 delete_groups_frame [OF P d]])
  show ?thesis
    using assms(2) False enter_open [OF assms(1)] u c d ok2 rebuild_ok [OF ok2]
    by (cases e2) (auto simp: MemStore_DeleteRecursive_def split: prod.splits)
qed (use assms enter_open [OF assms(1)] in \<open>simp add: MemStore_DeleteRecursive_def\<close>)

section \<open>Batches, deletions, reset\<close>

lemma covers_add_all:
  "covers bo v \<Longrightarrow> block_hashes v' \<subseteq> block_hashes v \<union> m_Hash ` set ms \<Longrightarrow> covers (fold bloom_add ms bo) v'"
proof (induction ms arbitrary: bo v)
  case Nil
  then show ?case using covers_sub by simp
next
  case (Cons m ms)
  have "covers (bloom_add m bo) (v(BlockKey m \<mapsto> []))" by (rule covers_add [OF Cons.prems(1)]) simp
  then have "covers (fold bloom_add ms (bloom_add m bo)) v'"
    by (rule Cons.IH) (use Cons.prems(2) in \<open>simp del: fun_upd_apply\<close>)
  then show ?case by simp
qed

lemma stage_all_effect:
  "stage_all E blocks b s = (err, b', s') \<Longrightarrow> se_hooks E = None \<Longrightarrow>
     (\<exists>F. s' = s\<lparr>st_files := F\<rparr>) \<and>
     (\<forall>v. block_hashes (apply_batch b' v) \<subseteq> block_hashes (apply_batch b v) \<union> m_Hash ` fst ` set blocks)"
proof (induction blocks arbitrary: b s)
  case Nil
  then show ?case by (auto intro: exI [of _ "st_files s"])
next
  case (Cons blk blocks)
  obtain m data where blk: "blk = (m, data)" by fastforce
  obtain e1 ops s1 where st: "stage_block E (BlockKey m) m data s = (e1, ops, s1)" by (metis prod_cases3)
  note f = stage_block_fields [OF st]
  then obtain F where F: "s1 = s\<lparr>st_files := F\<rparr>" by blast
  show ?case
  proof (cases "IsZero m \<or> verifyContent (se_lib E) (se_alg E) m data \<noteq> None \<or> e1 \<noteq> None")
    case True
    with Cons.prems blk st F show ?thesis
      by (auto simp: before_put_def split: if_splits option.splits intro: exI [of _ "st_files s"])
  next
    case False
    then have "stage_all E blocks (b @ ops) s1 = (err, b', s')"
      using Cons.prems blk st by (simp add: before_put_def)
    from Cons.IH [OF this Cons.prems(2)] have
      ih: "\<exists>F. s' = s1\<lparr>st_files := F\<rparr>"
      "block_hashes (apply_batch b' v) \<subseteq> block_hashes (apply_batch (b @ ops) v) \<union> m_Hash ` fst ` set blocks" for v
      by blast+
    from f False obtain val where ops: "ops = [(BlockKey m, Some val), PutTimestamp (se_lib E) (se_now E div second) m]"
      by blast
    have "block_hashes (apply_batch (b @ ops) v) = insert (m_Hash m) (block_hashes (apply_batch b v))" for v
      by (simp add: ops PutTimestamp_def)
    with ih F blk show ?thesis by auto
  qed
qed

lemma fold_after_put_fields:
  "st_db (fold (after_put E) ms s) = st_db s \<and> st_bloom (fold (after_put E) ms s) = fold bloom_add ms (st_bloom s) \<and>
   same_frame s (fold (after_put E) ms s)"
  by (induction ms arbitrary: s) (simp_all add: after_put_def same_frame_def)

lemma PutBatch_ok:
  assumes "store_ok E view s" "se_hooks E = None" "MemStore_PutBatch E s blocks = (err, s')"
  shows "store_ok E view s'"
proof (cases "blocks = []")
  case False
  have P: "pebble_ok (se_pebble E) view" using assms(1) by (simp add: store_ok_def)
  obtain e1 b s1 where st: "stage_all E blocks [] s = (e1, b, s1)" by (metis prod_cases3)
  from stage_all_effect [OF st assms(2)] obtain F where F: "s1 = s\<lparr>st_files := F\<rparr>"
    and h: "\<And>v. block_hashes (apply_batch b v) \<subseteq> block_hashes v \<union> m_Hash ` fst ` set blocks" by auto
  have ok1: "store_ok E view s1" using assms(1) by (simp add: F store_ok_def)
  obtain e2 s2 where c: "commit E b s1 = (e2, s2)" by fastforce
  have s2: "same_frame s1 s2" "st_bloom s2 = st_bloom s1"
    using commit_fields [of E b s1] by (simp_all add: c same_frame_def)
  have v2: "dbview view s2 = (if e2 = None then apply_batch b (dbview view s1) else dbview view s1)"
    using commit_view [OF P, of b s1] by (simp add: c)
  have failed: "store_ok E view s2" if "e2 \<noteq> None"
    using ok1 s2 v2 that by (simp add: store_ok_def same_frame_def)
  let ?s = "fold (after_put E) (map fst blocks) s2"
  have "covers (fold bloom_add (map fst blocks) (st_bloom s1)) (dbview view s2)" if "e2 = None"
    using covers_add_all [of "st_bloom s1" "dbview view s1" "dbview view s2" "map fst blocks"]
      ok1 h [of "dbview view s1"] v2 that by (simp add: store_ok_def)
  then have stored: "store_ok E view ?s" if "e2 = None"
    using that fold_after_put_fields [of E "map fst blocks" s2] s2 ok1
    by (simp add: store_ok_def same_frame_def dbview_def)
  show ?thesis
    using assms(3) False st c ok1 failed stored enter_open [OF assms(1)]
    by (cases e1; cases e2) (auto simp: MemStore_PutBatch_def)
qed (use assms in \<open>simp add: MemStore_PutBatch_def\<close>)

lemma block_hashes_deleted:
  "block_hashes (v(BlockKey m := None, DagKey m := None)) = block_hashes v - {m_Hash m}"
  "DagKey m \<in> dom v \<Longrightarrow> BlockKey m \<notin> dom v \<Longrightarrow> block_hashes (v(DagKey m := None)) = block_hashes v - {m_Hash m}"
  by (auto simp: block_hashes_def BlockKey_def DagKey_def prefix_key_eq prefixes_differ [symmetric]
      split: if_splits)

text \<open>What Delete and DeleteDAG share.\<close>

lemma delete_ok:
  assumes ok: "store_ok E view s" and keys: "commit E (ks @ delete_ops E m) s = (err, s1)"
    and ks: "block_hashes (apply_batch ks (dbview view s)) = block_hashes (dbview view s) - {m_Hash m}"
    and m: "m_Hash m \<in> block_hashes (dbview view s)"
  shows "err = None \<Longrightarrow> store_ok E view ((remove_file E m s1)\<lparr>st_bloom := recordDelete m (st_bloom (remove_file E m s1))\<rparr>)"
    "err \<noteq> None \<Longrightarrow> store_ok E view s1"
proof -
  have P: "pebble_ok (se_pebble E) view" using ok by (simp add: store_ok_def)
  have fr: "same_frame s s1" "st_bloom s1 = st_bloom s"
    using commit_fields [of E "ks @ delete_ops E m" s] by (simp_all add: keys same_frame_def)
  have v: "dbview view s1 = (if err = None then apply_batch (ks @ delete_ops E m) (dbview view s) else dbview view s)"
    using commit_view [OF P, of "ks @ delete_ops E m" s] by (simp add: keys)
  have gone: "block_hashes (dbview view s1) = block_hashes (dbview view s) - {m_Hash m}" if "err = None"
    using v that ks by (simp add: delete_ops_def)
  have "covers (recordDelete m (st_bloom s)) (dbview view s1)" if "err = None"
    using covers_delete [OF _ m] ok gone [OF that] by (simp add: store_ok_def)
  moreover have "same_frame s (remove_file E m s1)"
    using fr(1) remove_file_fields(3) [of s1 E m] by (simp add: same_frame_def)
  ultimately show "err = None \<Longrightarrow> store_ok E view ((remove_file E m s1)\<lparr>st_bloom := recordDelete m (st_bloom (remove_file E m s1))\<rparr>)"
    using ok fr(2) by (simp add: store_ok_def same_frame_def)
  show "store_ok E view s1" if "err \<noteq> None"
    using ok fr v that by (simp add: store_ok_def same_frame_def split: if_splits)
qed

lemma Delete_ok:
  assumes "store_ok E view s" "m_Hash m \<in> block_hashes (dbview view s)" "MemStore_Delete E s m = (err, s')"
  shows "store_ok E view s'"
proof -
  obtain e s1 where c: "commit E ([(BlockKey m, None), (DagKey m, None)] @ delete_ops E m) s = (e, s1)" by fastforce
  from delete_ok [OF assms(1) c] assms(2) enter_open [OF assms(1)] assms(3) c show ?thesis
    by (cases e) (auto simp: MemStore_Delete_def block_hashes_deleted Let_def)
qed

lemma DeleteDAG_ok:
  assumes "store_ok E view s" "DagKey m \<in> dom (dbview view s)" "BlockKey m \<notin> dom (dbview view s)"
    "MemStore_DeleteDAG E s m = (err, s')"
  shows "store_ok E view s'"
proof -
  obtain e s1 where c: "commit E ([(DagKey m, None)] @ delete_ops E m) s = (e, s1)" by fastforce
  from delete_ok [OF assms(1) c] assms(2,3) enter_open [OF assms(1)] assms(4) c show ?thesis
    by (cases e) (auto simp: MemStore_DeleteDAG_def block_hashes_deleted block_hashes_iff Let_def)
qed

lemma PutMeta_ok:
  assumes "store_ok E view s" "MemStore_PutMeta E s key x = (err, s')"
  shows "store_ok E view s'"
proof (cases "key = []")
  case False
  have "snd (commit E [(MetaKey key, Some x)] s) = s'"
    using assms DB_Set_commit(1) [where E = E and s = s and k = "MetaKey key" and x = x] False enter_open [OF assms(1)]
    by (auto simp: MemStore_PutMeta_def store_ok_def)
  moreover have "pebble_ok (se_pebble E) view" using assms(1) by (simp add: store_ok_def)
  ultimately show ?thesis using block_frame_ok [OF assms(1)] commit_frame [of E view "[(MetaKey key, Some x)]" s] by auto
qed (use assms enter_open [OF assms(1)] in \<open>simp add: MemStore_PutMeta_def\<close>)

lemma DropAll_ok:
  assumes "store_ok E view s" "MemStore_DropAll E s = (err, s')"
  shows "store_ok E view s'"
proof -
  have P: "pebble_ok (se_pebble E) view" using assms(1) by (simp add: store_ok_def)
  show ?thesis
  proof (cases "DB_NewIter (se_pebble E) (st_db s)")
    case (Inl e)
    with assms show ?thesis by (simp add: MemStore_DropAll_def store_ok_def)
  next
    case (Inr kvs)
    obtain e1 s1 where c: "commit E (map (\<lambda>kv. (fst kv, None)) kvs) s = (e1, s1)" by fastforce
    then have ok1: "store_ok E view s1"
      using block_frame_ok [OF assms(1) commit_frame [OF P, of "map (\<lambda>kv. (fst kv, None)) kvs" s]] by simp
    define s2 where "s2 = (if st_blocksPath s1 \<noteq> [] \<and> se_os E OsRemove (st_blocksPath s1) = None
        then s1\<lparr>st_files := Map.empty\<rparr> else s1)"
    have ok2: "store_ok E view s2" using ok1 by (simp add: s2_def store_ok_def)
    show ?thesis
      using assms c ok1 rebuild_ok [OF ok2] Inr
      by (cases e1) (auto simp: MemStore_DropAll_def store_ok_def Let_def s2_def [symmetric] split: prod.splits)
  qed
qed

section \<open>Runs\<close>

text \<open>
  One call on an open store, under any environment over the same Pebble: any clock, any failures of
  the file system and the database, any plugin hooks. Three calls are restricted to where the index
  stays right: a batch without hooks, since PutBatch registers the identifiers from before the hooks;
  Delete of a block that is stored and DeleteDAG of one stored only as a DAG node, since the removal of
  an item the counting filter does not hold can evict others.
\<close>

inductive store_step :: "'d pebble \<Rightarrow> ('d \<Rightarrow> bytes \<rightharpoonup> bytes) \<Rightarrow> 'd MemStore \<Rightarrow> 'd MemStore \<Rightarrow> bool"
  for B :: "'d pebble" and view :: "'d \<Rightarrow> bytes \<rightharpoonup> bytes" where
  put: "se_pebble E = B \<Longrightarrow> MemStore_Put E s m data = (err, s') \<Longrightarrow> store_step B view s s'"
| put_dag: "se_pebble E = B \<Longrightarrow> MemStore_PutDAG E s m data = (err, s') \<Longrightarrow> store_step B view s s'"
| put_batch: "se_pebble E = B \<Longrightarrow> se_hooks E = None \<Longrightarrow> MemStore_PutBatch E s blocks = (err, s') \<Longrightarrow>
    store_step B view s s'"
| put_meta: "se_pebble E = B \<Longrightarrow> MemStore_PutMeta E s key x = (err, s') \<Longrightarrow> store_step B view s s'"
| delete: "se_pebble E = B \<Longrightarrow> m_Hash m \<in> block_hashes (dbview view s) \<Longrightarrow>
    MemStore_Delete E s m = (err, s') \<Longrightarrow> store_step B view s s'"
| delete_dag: "se_pebble E = B \<Longrightarrow> DagKey m \<in> dom (dbview view s) \<Longrightarrow> BlockKey m \<notin> dom (dbview view s) \<Longrightarrow>
    MemStore_DeleteDAG E s m = (err, s') \<Longrightarrow> store_step B view s s'"
| delete_recursive: "se_pebble E = B \<Longrightarrow>
    MemStore_DeleteRecursive E fuel order s root = Some (err, n, freed, s') \<Longrightarrow> store_step B view s s'"
| seal: "se_pebble E = B \<Longrightarrow> MemStore_Seal E fuel s root recursive = Some (err, s') \<Longrightarrow> store_step B view s s'"
| unseal: "se_pebble E = B \<Longrightarrow> MemStore_Unseal E fuel s root = Some (err, s') \<Longrightarrow> store_step B view s s'"
| gc: "se_pebble E = B \<Longrightarrow> GCWithMinAge E (T :: 'd pebble) t0 ctx fuel s minAge = Some (err, freed, s') \<Longrightarrow>
    store_step B view s s'"
| drop_all: "se_pebble E = B \<Longrightarrow> MemStore_DropAll E s = (err, s') \<Longrightarrow> store_step B view s s'"

lemma store_ok_env: "se_pebble E = se_pebble E' \<Longrightarrow> store_ok E view s \<longleftrightarrow> store_ok E' view s"
  by (simp add: store_ok_def)

lemma Put_ok:
  assumes "store_ok E view s"
  shows "MemStore_Put E s m data = (err, s') \<Longrightarrow> store_ok E view s'"
    "MemStore_PutDAG E s m data = (err, s') \<Longrightarrow> store_ok E view s'"
  using assms enter_open [OF assms]
  by (auto simp: MemStore_Put_def MemStore_PutDAG_def dest: put_under_ok split: if_splits sum.splits)

lemma store_step_ok:
  assumes "store_step (se_pebble E) view s s'" "store_ok E view s"
  shows "store_ok E view s'"
  using assms(1)
proof cases
  case (put E' m data err)
  with Put_ok(1) [of E' view s m data err s'] assms(2) show ?thesis
    using store_ok_env [OF put(1)] by simp
next
  case (put_dag E' m data err)
  with Put_ok(2) [of E' view s m data err s'] assms(2) show ?thesis
    using store_ok_env [OF put_dag(1)] by simp
next
  case (put_batch E' blocks err)
  with PutBatch_ok [of E' view s blocks err s'] assms(2) show ?thesis
    using store_ok_env [OF put_batch(1)] by simp
next
  case (put_meta E' key x err)
  with PutMeta_ok [of E' view s key x err s'] assms(2) show ?thesis
    using store_ok_env [OF put_meta(1)] by simp
next
  case (delete E' m err)
  with Delete_ok [of E' view s m err s'] assms(2) show ?thesis
    using store_ok_env [OF delete(1)] by simp
next
  case (delete_dag E' m err)
  with DeleteDAG_ok [of E' view s m err s'] assms(2) show ?thesis
    using store_ok_env [OF delete_dag(1)] by simp
next
  case (delete_recursive E' fuel order root err n freed)
  with DeleteRecursive_ok [of E' view s fuel order root err n freed s'] assms(2) show ?thesis
    using store_ok_env [OF delete_recursive(1)] by simp
next
  case (seal E' fuel root recursive err)
  have "pebble_ok (se_pebble E') view" using seal(1) assms(2) by (simp add: store_ok_def)
  from block_frame_ok [OF assms(2) Seal_frame [OF this seal(2)]] show ?thesis .
next
  case (unseal E' fuel root err)
  have "pebble_ok (se_pebble E') view" using unseal(1) assms(2) by (simp add: store_ok_def)
  from block_frame_ok [OF assms(2) Unseal_frame [OF this unseal(2)]] show ?thesis .
next
  case (gc E' T t0 ctx fuel minAge err freed)
  have "pebble_ok (se_pebble E') view" using gc(1) assms(2) by (simp add: store_ok_def)
  from block_frame_ok [OF assms(2) GC_frame [OF this gc(2)]] show ?thesis .
next
  case (drop_all E' err)
  with DropAll_ok [of E' view s err s'] assms(2) show ?thesis
    using store_ok_env [OF drop_all(1)] by simp
qed

lemma store_run_ok:
  "(store_step (se_pebble E) view)\<^sup>*\<^sup>* s s' \<Longrightarrow> store_ok E view s \<Longrightarrow> store_ok E view s'"
  by (induction rule: rtranclp_induct) (auto intro: store_step_ok)



end
