(* ===== verification/CollectorLaws.thy ===== *)
theory CollectorLaws
  imports StoreRun
begin

text \<open>
  What the garbage collector of src/core/store/seal.go keeps and removes, and what a seal record
  stands for.
\<close>

section \<open>Marking\<close>

text \<open>The temporary database of a run: a Pebble that behaves as documented and does not fail.\<close>

definition temp_ok :: "'t pebble \<Rightarrow> ('t \<Rightarrow> bytes \<rightharpoonup> bytes) \<Rightarrow> bool" where
  "temp_ok T vt \<longleftrightarrow> pebble_ok T vt \<and> (\<forall>d b. fst (pb_Commit T d b) = None) \<and> (\<forall>d. is_ok (pb_Iter T d))"

definition marked :: "('t \<Rightarrow> bytes \<rightharpoonup> bytes) \<Rightarrow> 't DB \<Rightarrow> bytes set" where
  "marked vt t = dom (vt (db_pebble t))"

lemma mark_marks:
  assumes "temp_ok T vt" "\<not> db_closed t"
  shows "marked vt (mark T m t) = insert (m_Hash m) (marked vt t) \<and> \<not> db_closed (mark T m t)"
proof -
  obtain err d' where c: "pb_Commit T (db_pebble t) [(m_Hash m, Some [1])] = (err, d')" by fastforce
  then have "err = None" using assms(1) unfolding temp_ok_def by (metis fst_conv)
  then have "vt d' = (vt (db_pebble t))(m_Hash m \<mapsto> [1])"
    using c assms(1) by (simp add: temp_ok_def pebble_ok_def)
  then show ?thesis using assms(2) c by (simp add: mark_def DB_Set_def Batch_Commit_def marked_def)
qed

lemma marks_mark:
  "temp_ok T vt \<Longrightarrow> \<not> db_closed t \<Longrightarrow>
   marked vt (fold (mark T) ms t) = m_Hash ` set ms \<union> marked vt t \<and> \<not> db_closed (fold (mark T) ms t)"
  by (induction ms arbitrary: t) (auto simp: mark_marks)

lemma replay_marks:
  assumes "temp_ok T vt"
  shows "\<not> db_closed t \<Longrightarrow>
    marked vt (replay (mark_visit E T s) l t) =
      (\<Union>x \<in> fst ` set l. m_Hash ` insert x (set (erasureShardMIDs E s x))) \<union> marked vt t \<and>
    \<not> db_closed (replay (mark_visit E T s) l t)"
proof (induction l arbitrary: t)
  case (Cons e l)
  obtain x leaf where e: "e = (x, leaf)" by fastforce
  let ?t = "fold (mark T) (erasureShardMIDs E s x) (mark T x t)"
  have "marked vt ?t = m_Hash ` insert x (set (erasureShardMIDs E s x)) \<union> marked vt t \<and> \<not> db_closed ?t"
    using mark_marks [OF assms Cons.prems, of x] marks_mark [OF assms] by auto
  moreover have "replay (mark_visit E T s) (e # l) t = replay (mark_visit E T s) l ?t"
    by (simp add: e replay_def mark_visit_def)
  ultimately show ?case using Cons.IH [of ?t] by (auto simp: e)
qed simp

text \<open>What the marking walk from a root sees of the store, and the hashes it marks.\<close>

definition store_look :: "'d store_env \<Rightarrow> 'd MemStore \<Rightarrow> MID \<Rightarrow> visit_step" where
  "store_look E s = inspect (se_lib E) (se_proto E) (store_getter E) s False"

definition kept_by :: "'d store_env \<Rightarrow> 'd MemStore \<Rightarrow> MID \<Rightarrow> bytes set" where
  "kept_by E s root =
     (\<Union>x \<in> {x. reaches (store_look E s) root x}. m_Hash ` insert x (set (erasureShardMIDs E s x)))"

definition intact :: "'d store_env \<Rightarrow> 'd MemStore \<Rightarrow> nat \<Rightarrow> MID \<Rightarrow> bool" where
  "intact E s fuel root \<longleftrightarrow> mid_wf (se_lib E) root \<and> finite {x. reaches (store_look E s) root x} \<and>
     card {x. reaches (store_look E s) root x} < fuel \<and>
     (\<forall>x e. reaches (store_look E s) root x \<longrightarrow> store_look E s x \<noteq> Return (Some e))"

lemma reported_all:
  assumes "\<And>x e. x \<in> R \<Longrightarrow> look x \<noteq> Return e"
  shows "fst ` reports look R = R"
proof -
  have "\<exists>leaf. report (look x) leaf" if "x \<in> R" for x
    using assms [OF that] by (cases "look x") auto
  then show ?thesis by (force simp: reports_def)
qed

lemma mark_root:
  assumes "temp_ok T vt" "hashlib_ok (se_lib E)" "intact E s fuel root" "\<not> db_closed t"
  shows "\<exists>t'. Walk_store (se_lib E) (se_proto E) (store_getter E) fuel (Some s) root (mark_visit E T s)
      (mark T root t) = Some (None, t') \<and> marked vt t' = kept_by E s root \<union> marked vt t \<and> \<not> db_closed t'"
proof -
  let ?look = "store_look E s"
  have i: "mid_wf (se_lib E) root" "finite {x. reaches ?look root x}" "card {x. reaches ?look root x} < fuel"
    "\<And>x e. reaches ?look root x \<Longrightarrow> ?look x \<noteq> Return (Some e)"
    using assms(3) by (simp_all add: intact_def)
  obtain l where l: "set l = reports ?look {x. reaches ?look root x}"
    "Walk_store (se_lib E) (se_proto E) (store_getter E) fuel (Some s) root (mark_visit E T s) (mark T root t) =
       Some (None, replay (mark_visit E T s) l (mark T root t))"
    using Walk_store_replay [OF assms(2) i(1) i(2-4) [unfolded store_look_def], where 'v = "'a DB"]
    by (auto simp: mark_visit_def store_look_def)
  have "?look x \<noteq> Return e" if "x \<in> {x. reaches ?look root x}" for x e
    using i(4) that inspect_no_silent [of "se_lib E" "se_proto E" "store_getter E" s x]
    by (cases e) (auto simp: store_look_def)
  then have "fst ` set l = {x. reaches ?look root x}" unfolding l(1) by (rule reported_all)
  moreover have "reaches ?look root root" by (rule reaches.here)
  ultimately have "marked vt (replay (mark_visit E T s) l (mark T root t)) = kept_by E s root \<union> marked vt t \<and>
      \<not> db_closed (replay (mark_visit E T s) l (mark T root t))"
    using replay_marks [OF assms(1), of "mark T root t" E s l] mark_marks [OF assms(1,4), of root]
    by (auto simp: kept_by_def)
  with l(2) show ?thesis by blast
qed

lemma mark_roots_all:
  assumes "temp_ok T vt" "hashlib_ok (se_lib E)" "\<And>n. ctx n = None"
  shows "\<forall>root \<in> set roots. intact E s fuel root \<Longrightarrow> \<not> db_closed t \<Longrightarrow>
    \<exists>n' t'. mark_roots E T ctx fuel s roots n t = Some (None, n', t') \<and>
      marked vt t' = (\<Union>root \<in> set roots. kept_by E s root) \<union> marked vt t \<and> \<not> db_closed t'"
proof (induction roots arbitrary: n t)
  case (Cons root roots)
  have z: "\<not> IsZero root" using Cons.prems(1) by (auto simp: intact_def)
  from mark_root [OF assms(1,2) _ Cons.prems(2), of s fuel root] Cons.prems(1) obtain t1 where
    t1: "Walk_store (se_lib E) (se_proto E) (store_getter E) fuel (Some s) root (mark_visit E T s) (mark T root t) =
      Some (None, t1)" "marked vt t1 = kept_by E s root \<union> marked vt t" "\<not> db_closed t1" by auto
  from Cons.IH [OF _ t1(3), of "Suc n"] Cons.prems(1) obtain n' t' where
    "mark_roots E T ctx fuel s roots (Suc n) t1 = Some (None, n', t')"
    "marked vt t' = (\<Union>root \<in> set roots. kept_by E s root) \<union> marked vt t1" "\<not> db_closed t'" by auto
  with t1 z assms(3) [of n] show ?case by (intro exI [of _ n'] exI [of _ t']) auto
qed simp

section \<open>Sweeping\<close>

lemma gc_keeps_now:
  assumes "temp_ok T vt" "\<not> db_closed t" "gt_activeBuffer (st_tracker s) = {}"
  shows "gc_keeps E T t 0 0 s raw \<longleftrightarrow> raw \<in> marked vt t"
proof -
  have "DB_Has T t raw = Inr (raw \<in> marked vt t)"
    using DB_Has_ok [of T vt t raw] assms(1,2) by (simp add: temp_ok_def marked_def)
  moreover have "\<not> IsProtected (se_lib E) (se_now E) (st_tracker s) m ts 0" if "FromMultihash (se_lib E) CodecRaw raw = Inr m" for m ts
    using mid_wf_not_zero [of "se_lib E" m] FromMultihash_wf [OF that] assms(3)
    by (simp add: IsProtected_def Let_def)
  ultimately show ?thesis by (auto simp: gc_keeps_def Let_def split: sum.splits)
qed

text \<open>The keys a sweep over \<open>kvs\<close> removes.\<close>

definition dead_keys :: "bytes set \<Rightarrow> (bytes \<times> bytes) list \<Rightarrow> bytes set" where
  "dead_keys M kvs = {k \<in> fst ` set kvs. drop 3 k \<notin> M}"

definition without_keys :: "bytes set \<Rightarrow> (bytes \<rightharpoonup> bytes) \<Rightarrow> (bytes \<rightharpoonup> bytes)" where
  "without_keys D v k = (if k \<in> D then None else v k)"

definition swept_files ::
  "'d store_env \<Rightarrow> bytes set \<Rightarrow> 'd MemStore \<Rightarrow> 'd MemStore \<Rightarrow> bool" where
  "swept_files E M s s' \<longleftrightarrow>
     (\<forall>m. mid_wf (se_lib E) m \<and> m_Hash m \<in> M \<and> st_blocksPath s \<noteq> [] \<longrightarrow>
       st_files s' (blockPath E s m) = st_files s (blockPath E s m))"

lemma swept_files_trans:
  "swept_files E M s s' \<Longrightarrow> same_frame s s' \<Longrightarrow> swept_files E M s' s'' \<Longrightarrow> swept_files E M s s''"
  by (auto simp: swept_files_def same_frame_def blockPath_cong [of s' s])

lemma gc_remove_swept:
  assumes "hashlib_ok (se_lib E)" "raw \<notin> M"
  shows "swept_files E M s (gc_remove_file E raw s)"
proof -
  have "st_files (remove_file E m s) (blockPath E s x) = st_files s (blockPath E s x)"
    if "FromMultihash (se_lib E) CodecRaw raw = Inr m" "mid_wf (se_lib E) x" "m_Hash x \<in> M" "st_blocksPath s \<noteq> []"
    for m x
  proof -
    have "mid_wf (se_lib E) m" "m \<noteq> x" using FromMultihash_wf [OF that(1)] that(3) assms(2) by auto
    then have "blockPath E s x \<noteq> blockPath E s m" using blockPath_inj [OF assms(1) that(2)] that(4) by blast
    then show ?thesis by (simp add: remove_file_def)
  qed
  then show ?thesis by (auto simp: swept_files_def gc_remove_file_def split: sum.splits)
qed

lemma without_keys_simps: "without_keys {} v = v" "without_keys D (v(k := None)) = without_keys (insert k D) v"
  by (auto simp: without_keys_def fun_eq_iff)

lemma dead_keys_Cons:
  "dead_keys M ((k, val) # kvs) = (if drop 3 k \<in> M then dead_keys M kvs else insert k (dead_keys M kvs))"
  by (auto simp: dead_keys_def)

definition freed_bytes :: "bytes set \<Rightarrow> 'd MemStore \<Rightarrow> (bytes \<times> bytes) list \<Rightarrow> u64" where
  "freed_bytes M s kvs =
     (\<Sum>(k, val) \<leftarrow> filter (\<lambda>kv. drop 3 (fst kv) \<notin> M) kvs. of_nat (length k) + recorded_size s val)"

lemma freed_bytes_cong: "same_frame s s' \<Longrightarrow> freed_bytes M s' kvs = freed_bytes M s kvs"
  by (simp add: freed_bytes_def recorded_size_def same_frame_def)

lemma gc_loop_sweeps:
  assumes "temp_ok T vt" "\<not> db_closed t" "pebble_ok (se_pebble E) view" "writes_ok E" "hashlib_ok (se_lib E)"
    "\<And>n. ctx n = None"
  shows "gt_activeBuffer (st_tracker s) = {} \<Longrightarrow> cnt = length b \<Longrightarrow>
    \<exists>b' s'. gc_loop E T t ctx 0 0 kvs n b cnt freed s =
        (None, freed + freed_bytes (marked vt t) s kvs, b', length b', s') \<and>
      same_frame s s' \<and> st_bloom s' = st_bloom s \<and> swept_files E (marked vt t) s s' \<and>
      apply_batch b' (dbview view s') = without_keys (dead_keys (marked vt t) kvs) (apply_batch b (dbview view s))"
proof (induction kvs arbitrary: n b cnt freed s)
  case Nil
  then show ?case
    by (simp add: freed_bytes_def dead_keys_def without_keys_simps swept_files_def same_frame_def)
next
  case (Cons kv kvs)
  let ?M = "marked vt t"
  obtain k val where kv: "kv = (k, val)" by fastforce
  have keeps: "gc_keeps E T t 0 0 s (drop 3 k) \<longleftrightarrow> drop 3 k \<in> ?M"
    by (rule gc_keeps_now [OF assms(1,2) Cons.prems(1)])
  show ?case
  proof (cases "drop 3 k \<in> ?M")
    case True
    with Cons.IH [OF Cons.prems, of "Suc n" freed] keeps kv assms(6) [of n] show ?thesis
      by (simp add: dead_keys_Cons freed_bytes_def)
  next
    case dead: False
    let ?s = "gc_remove_file E (drop 3 k) s" and ?b = "b @ [(k, None)]"
    let ?f = "freed + (of_nat (length k) + recorded_size s val)"
    have f1: "same_frame s ?s" "st_bloom ?s = st_bloom s" "st_tracker ?s = st_tracker s"
      "dbview view ?s = dbview view s" by simp_all
    note sw = gc_remove_swept [OF assms(5) dead, of s]
    have fb: "freed_bytes ?M s ((k, val) # kvs) = of_nat (length k) + recorded_size s val + freed_bytes ?M s kvs"
      using dead by (simp add: freed_bytes_def)
    obtain e2 s2 where c: "commit E ?b ?s = (e2, s2)" by fastforce
    have e2: "e2 = None" using commit_succeeds [OF assms(4), of ?b ?s] by (simp add: c)
    have s2: "same_frame s s2" "st_bloom s2 = st_bloom s" "st_files s2 = st_files ?s" "st_tracker s2 = st_tracker s"
      using commit_fields [of E ?b ?s] f1 by (simp_all add: c same_frame_def)
    have v2: "dbview view s2 = (apply_batch b (dbview view s))(k := None)"
      using commit_view [OF assms(3), of ?b ?s] f1(4) by (simp add: c e2)
    have sw2: "swept_files E ?M s s2" using sw s2(3) by (simp add: swept_files_def)
    show ?thesis
    proof (cases "1000 \<le> cnt + 1")
      case True
      from Cons.IH [of s2 0 "[]" "Suc n" ?f] Cons.prems(1) s2(4) obtain b' s' where
        ih: "gc_loop E T t ctx 0 0 kvs (Suc n) [] 0 ?f s2 = (None, ?f + freed_bytes ?M s2 kvs, b', length b', s')"
          "same_frame s2 s'" "st_bloom s' = st_bloom s2" "swept_files E ?M s2 s'"
          "apply_batch b' (dbview view s') = without_keys (dead_keys ?M kvs) (dbview view s2)" by auto
      have "gc_loop E T t ctx 0 0 (kv # kvs) n b cnt freed s = (None, freed + freed_bytes ?M s (kv # kvs), b', length b', s')"
        using ih(1) True keeps dead kv c e2 assms(6) [of n] freed_bytes_cong [OF s2(1), of ?M kvs]
        by (simp add: Let_def fb add.assoc)
      moreover have "same_frame s s'" using s2(1) ih(2) by (simp add: same_frame_def)
      moreover have "apply_batch b' (dbview view s') = without_keys (dead_keys ?M (kv # kvs)) (apply_batch b (dbview view s))"
        using ih(5) dead by (simp add: kv v2 without_keys_simps dead_keys_Cons)
      ultimately show ?thesis using ih s2 swept_files_trans [OF sw2 s2(1)] by auto
    next
      case False
      from Cons.IH [of ?s "cnt + 1" ?b "Suc n" ?f] Cons.prems f1(3) obtain b' s' where
        ih: "gc_loop E T t ctx 0 0 kvs (Suc n) ?b (cnt + 1) ?f ?s = (None, ?f + freed_bytes ?M ?s kvs, b', length b', s')"
          "same_frame ?s s'" "st_bloom s' = st_bloom ?s" "swept_files E ?M ?s s'"
          "apply_batch b' (dbview view s') = without_keys (dead_keys ?M kvs) (apply_batch ?b (dbview view ?s))"
        by (auto simp del: fun_upd_apply)
      have "gc_loop E T t ctx 0 0 (kv # kvs) n b cnt freed s = (None, freed + freed_bytes ?M s (kv # kvs), b', length b', s')"
        using ih(1) False keeps dead kv assms(6) [of n] freed_bytes_cong [OF f1(1), of ?M kvs]
        by (simp add: Let_def fb add.assoc)
      moreover have "same_frame s s'" using f1(1) ih(2) by (simp add: same_frame_def)
      moreover have "apply_batch b' (dbview view s') = without_keys (dead_keys ?M (kv # kvs)) (apply_batch b (dbview view s))"
        using ih(5) dead f1(4) by (simp add: kv without_keys_simps dead_keys_Cons)
      ultimately show ?thesis using ih f1 swept_files_trans [OF sw f1(1)] by auto
    qed
  qed
qed

lemma block_entries_keys:
  assumes "sorted_wrt (<) (map fst kvs)" "map_of kvs = v"
  shows "k \<in> fst ` set (block_entries kvs) \<longleftrightarrow> k \<in> dom v \<and> (\<exists>h. k = PrefixBlock @ h \<or> k = PrefixDAG @ h)"
proof -
  have "fst ` set kvs = dom v" using assms(2) by (metis dom_map_of_conv_image_fst)
  moreover have "has_prefix p k \<longleftrightarrow> (\<exists>h. k = p @ h)" for p by (auto elim: has_prefixE)
  moreover have "k \<in> fst ` {x \<in> set kvs. has_prefix p (fst x)} \<longleftrightarrow> k \<in> fst ` set kvs \<and> has_prefix p k" for p
    by auto
  ultimately show ?thesis by (auto simp: block_entries_def scan_prefix_filter [OF assms(1)] image_Un)
qed

definition swept :: "bytes set \<Rightarrow> (bytes \<rightharpoonup> bytes) \<Rightarrow> (bytes \<rightharpoonup> bytes)" where
  "swept M v k = (if \<exists>h. (k = PrefixBlock @ h \<or> k = PrefixDAG @ h) \<and> h \<notin> M then None else v k)"

lemma without_dead_keys:
  assumes "sorted_wrt (<) (map fst kvs)" "map_of kvs = v"
  shows "without_keys (dead_keys M (block_entries kvs)) v = swept M v"
proof
  fix k
  show "without_keys (dead_keys M (block_entries kvs)) v k = swept M v k"
    using block_entries_keys [OF assms, of k]
    by (auto simp: without_keys_def dead_keys_def swept_def domIff)
qed

lemma swept_hashes: "block_hashes (swept M v) = block_hashes v \<inter> M"
  by (auto simp: block_hashes_def swept_def prefix_key_eq prefixes_differ [symmetric] split: if_splits)

lemma swept_other [simp]:
  "swept M v (SealKey m) = v (SealKey m)" "swept M v (MetaKey k) = v (MetaKey k)"
  "m_Hash m \<in> M \<Longrightarrow> stored (swept M v) m = stored v m"
  by (simp_all add: swept_def stored_def SealKey_def MetaKey_def BlockKey_def DagKey_def prefix_key_eq
      prefixes_differ [symmetric] split: option.split)

lemma gc_sweep_now:
  assumes "temp_ok T vt" "\<not> db_closed t" "store_ok E view s" "reads_ok E" "writes_ok E" "hashlib_ok (se_lib E)"
    "\<And>n. ctx n = None" "gt_activeBuffer (st_tracker s) = {}"
  shows "\<exists>freed s'. gc_sweep E T t ctx n 0 s = (None, freed, s') \<and> same_frame s s' \<and> st_bloom s' = st_bloom s \<and>
    swept_files E (marked vt t) s s' \<and> dbview view s' = swept (marked vt t) (dbview view s)"
proof -
  have P: "pebble_ok (se_pebble E) view" using assms(3) by (simp add: store_ok_def)
  obtain kvs where it: "pb_Iter (se_pebble E) (db_pebble (st_db s)) = Inr kvs"
    using assms(4) unfolding reads_ok_def is_ok_iff by blast
  have kvs: "sorted_wrt (<) (map fst kvs)" "map_of kvs = dbview view s"
    using pebble_Iter [OF P it] by (simp_all add: dbview_def)
  have open_it: "DB_NewIter (se_pebble E) (st_db s) = Inr kvs"
    using it assms(3) by (simp add: DB_NewIter_def store_ok_def)
  from gc_loop_sweeps [where ctx = ctx and cnt = 0 and b = "[]" and kvs = "block_entries kvs" and n = n and freed = 0,
      OF assms(1,2) P assms(5,6,7,8)] obtain b' s1 where
    g: "gc_loop E T t ctx 0 0 (block_entries kvs) n [] 0 0 s =
        (None, freed_bytes (marked vt t) s (block_entries kvs), b', length b', s1)"
      "same_frame s s1" "st_bloom s1 = st_bloom s" "swept_files E (marked vt t) s s1"
      "apply_batch b' (dbview view s1) = swept (marked vt t) (dbview view s)"
    using without_dead_keys [OF kvs] by auto
  obtain e2 s2 where c: "commit E b' s1 = (e2, s2)" by fastforce
  have e2: "e2 = None" using commit_succeeds [OF assms(5), of b' s1] by (simp add: c)
  have s2: "same_frame s s2" "st_bloom s2 = st_bloom s" "st_files s2 = st_files s1"
    using commit_fields [of E b' s1] g(2,3) by (simp_all add: c same_frame_def)
  have "dbview view s2 = swept (marked vt t) (dbview view s)"
    using commit_view [OF P, of b' s1] g(5) by (simp add: c e2)
  moreover have "swept_files E (marked vt t) s s2" using g(4) s2(3) by (simp add: swept_files_def)
  ultimately show ?thesis
    using g s2 c e2 open_it by (cases b') (auto simp: gc_sweep_def Let_def)
qed

text \<open>The write tracker is no part of what reads answer.\<close>

lemma tracker_reads [simp]:
  "MemStore_Get E (s\<lparr>st_tracker := x\<rparr>) = MemStore_Get E s"
  "MemStore_GetSize E (s\<lparr>st_tracker := x\<rparr>) = MemStore_GetSize E s"
  "MemStore_AllSealed E (s\<lparr>st_tracker := x\<rparr>) = MemStore_AllSealed E s"
  "erasureShardMIDs E (s\<lparr>st_tracker := x\<rparr>) = erasureShardMIDs E s"
  "store_look E (s\<lparr>st_tracker := x\<rparr>) = store_look E s"
proof -
  have sel: "st_bloom (s\<lparr>st_tracker := x\<rparr>) = st_bloom s" "st_closed (s\<lparr>st_tracker := x\<rparr>) = st_closed s"
    "st_dropping (s\<lparr>st_tracker := x\<rparr>) = st_dropping s" "st_db (s\<lparr>st_tracker := x\<rparr>) = st_db s"
    "st_blocksPath (s\<lparr>st_tracker := x\<rparr>) = st_blocksPath s" "st_files (s\<lparr>st_tracker := x\<rparr>) = st_files s"
    by simp_all
  have getter: "g_Get (store_getter E) = MemStore_Get E" "g_GetSize (store_getter E) = Some (MemStore_GetSize E)"
    by (simp_all add: store_getter_def)
  show get: "MemStore_Get E (s\<lparr>st_tracker := x\<rparr>) = MemStore_Get E s"
    unfolding fun_eq_iff MemStore_Get_def enter_def find_value_def load_value_def blockPath_def sel by simp
  show size: "MemStore_GetSize E (s\<lparr>st_tracker := x\<rparr>) = MemStore_GetSize E s"
    unfolding fun_eq_iff MemStore_GetSize_def enter_def recorded_size_def sel by simp
  show "store_look E (s\<lparr>st_tracker := x\<rparr>) = store_look E s"
    unfolding fun_eq_iff store_look_def inspect_def getter get option.simps size by simp
qed (simp_all add: MemStore_AllSealed_def MemStore_IterateSealed_def enter_def erasureShardMIDs_def fun_eq_iff)

lemma tracker_marks [simp]:
  "kept_by E (s\<lparr>st_tracker := x\<rparr>) = kept_by E s" "intact E (s\<lparr>st_tracker := x\<rparr>) = intact E s"
  by (simp_all add: kept_by_def intact_def fun_eq_iff)

lemma store_ok_tracker [simp]: "store_ok E view (s\<lparr>st_tracker := x\<rparr>) \<longleftrightarrow> store_ok E view s"
  by (simp add: store_ok_def)

text \<open>A whole run: mark, sweep, and what is left.\<close>

lemma gc_run_exact:
  assumes "store_ok E view s" and "reads_ok E" and "writes_ok E" and "hashlib_ok (se_lib E)"
    and "temp_ok T vt" and "\<not> db_closed t" and "vt (db_pebble t) = Map.empty" and "\<And>n. ctx n = None"
    and "MemStore_AllSealed E s = (None, roots)" and "\<forall>root \<in> set roots. intact E s fuel root"
    and "live = (\<Union>root \<in> set roots. kept_by E s root)"
  shows "\<exists>freed s'. MemStore_GC E T (Inr t) ctx fuel s = Some (None, freed, s') \<and> store_ok E view s' \<and>
    block_hashes (dbview view s') = block_hashes (dbview view s) \<inter> live \<and>
    (\<forall>m. mid_wf (se_lib E) m \<and> m_Hash m \<in> live \<longrightarrow> MemStore_Get E s' m = MemStore_Get E s m) \<and>
    (\<forall>m k. dbview view s' (SealKey m) = dbview view s (SealKey m) \<and>
       dbview view s' (MetaKey k) = dbview view s (MetaKey k))"
proof -
  let ?s = "s\<lparr>st_tracker := StartGC (st_tracker s)\<rparr>"
  from mark_roots_all [where ctx = ctx and roots = roots and s = ?s and fuel = fuel and n = 0,
      OF assms(5,4,8) _ assms(6)] assms(10) obtain n t' where
    m: "mark_roots E T ctx fuel ?s roots 0 t = Some (None, n, t')" "\<not> db_closed t'"
      "marked vt t' = live" using assms(7,11) by (auto simp: marked_def)
  have ok1: "store_ok E view ?s" using assms(1) by simp
  have "gt_activeBuffer (st_tracker ?s) = {}" by (simp add: StartGC_def)
  from gc_sweep_now [where ctx = ctx and n = n, OF assms(5) m(2) ok1 assms(2-4,8) this] obtain freed s1 where
    g: "gc_sweep E T t' ctx n 0 ?s = (None, freed, s1)" "same_frame ?s s1" "st_bloom s1 = st_bloom ?s"
      "swept_files E live ?s s1" "dbview view s1 = swept live (dbview view ?s)" unfolding m(3) by blast
  let ?s' = "s1\<lparr>st_tracker := EndGC (st_tracker s1)\<rparr>"
  have db: "dbview view ?s' = swept live (dbview view s)" using g(5) by simp
  have "block_frame view ?s s1" using g(2,3,5) by (auto simp: block_frame_def swept_hashes)
  then have ok': "store_ok E view ?s'" using block_frame_ok [OF ok1] by simp
  have bp: "st_blocksPath ?s' = st_blocksPath s" using g(2) by (simp add: same_frame_def)
  have "MemStore_Get E ?s' x = MemStore_Get E s x" if x: "mid_wf (se_lib E) x" "m_Hash x \<in> live" for x
  proof -
    have "load_value E ?s' x val = load_value E s x val" for val
    proof (cases "st_blocksPath s = []")
      case False
      then have "st_files ?s' (blockPath E s x) = st_files s (blockPath E s x)"
        using g(4) x by (simp add: swept_files_def blockPath_def)
      with load_value_cong [OF bp] show ?thesis by blast
    qed (use bp in \<open>simp add: load_value_def\<close>)
    moreover have "stored (dbview view ?s') x = stored (dbview view s) x" using db x(2) by simp
    ultimately show ?thesis
      unfolding MemStore_Get_stored [OF ok' assms(2) mid_wf_not_zero [OF x(1)]]
        MemStore_Get_stored [OF assms(1,2) mid_wf_not_zero [OF x(1)]] by (simp split: option.split)
  qed
  moreover have "MemStore_GC E T (Inr t) ctx fuel s = Some (None, freed, ?s')"
    using enter_open [OF assms(1)] assms(9) m(1) g(1) by (simp add: MemStore_GC_def GCWithMinAge_def Let_def)
  ultimately show ?thesis using ok' db by (intro exI [of _ freed] exI [of _ ?s']) (simp add: swept_hashes)
qed

section \<open>Properties\<close>


definition demo_litter :: "(bytes \<times> bytes) list" where
  "demo_litter = [(BlockKey (demo_mid [7]), [7]), (BlockKey (demo_mid [8]), [8]),
     (SealKey (demo_mid [7]), PutUint64 CodecRaw)]"


end
