(* ===== verification/SealLaws.thy ===== *)
theory SealLaws
  imports CollectorLaws
begin

text \<open>
  More of seal.go: seal records and what lists them, and the writes that reach the store while the
  collector is between marking and sweeping.
\<close>

section \<open>Writes during a collection\<close>

lemma apply_batch_other: "k \<notin> fst ` set b \<Longrightarrow> apply_batch b v k = v k"
  by (induction b arbitrary: v) auto

lemma gc_loop_spares:
  assumes "pebble_ok (se_pebble E) view"
    and spare: "\<And>s'. st_tracker s' = tr \<Longrightarrow> gc_keeps E T t minAge ts s' (drop 3 k)"
  shows "gc_loop E T t ctx minAge ts kvs n b cnt freed s = (err, freed', b', cnt', s') \<Longrightarrow>
    st_tracker s = tr \<Longrightarrow> k \<notin> fst ` set b \<Longrightarrow> k \<notin> fst ` set b' \<and> dbview view s' k = dbview view s k"
proof (induction kvs arbitrary: n b cnt freed s)
  case (Cons kv kvs)
  obtain k1 val where kv: "kv = (k1, val)" by fastforce
  let ?s = "gc_remove_file E (drop 3 k1) s" and ?b = "b @ [(k1, None)]"
  show ?case
  proof (cases "ctx n = None \<and> \<not> gc_keeps E T t minAge ts s (drop 3 k1)")
    case False
    with Cons kv show ?thesis by (auto simp: Let_def split: option.splits if_splits)
  next
    case drop: True
    then have "k1 \<noteq> k" using spare [of s] Cons.prems(2) by auto
    then have fresh: "k \<notin> fst ` set ?b" using Cons.prems(3) by auto
    obtain e2 s2 where c: "commit E ?b ?s = (e2, s2)" by fastforce
    have tr2: "st_tracker s2 = tr" using commit_fields(6) [of E ?b ?s] Cons.prems(2) by (simp add: c)
    have v2: "dbview view s2 k = dbview view s k"
      using commit_view [OF assms(1), of ?b ?s] apply_batch_other [OF fresh, of "dbview view s"] by (simp add: c)
    show ?thesis
    proof (cases "1000 \<le> cnt + 1")
      case True
      with Cons.prems(1) drop kv c have
        "e2 \<noteq> None \<and> b' = [] \<and> s' = s2 \<or>
         gc_loop E T t ctx minAge ts kvs (Suc n) [] 0 (freed + (of_nat (length k1) + recorded_size s val)) s2 =
           (err, freed', b', cnt', s')"
        by (auto simp: Let_def split: option.splits)
      then show ?thesis using Cons.IH [of "Suc n" "[]" 0 _ s2] tr2 v2 by auto
    next
      case False
      with Cons.prems(1) drop kv have
        "gc_loop E T t ctx minAge ts kvs (Suc n) ?b (cnt + 1)
           (freed + (of_nat (length k1) + recorded_size s val)) ?s = (err, freed', b', cnt', s')"
        by (auto simp: Let_def)
      from Cons.IH [OF this _ fresh] Cons.prems(2) show ?thesis by simp
    qed
  qed
qed simp

lemma gc_sweep_spares:
  assumes "pebble_ok (se_pebble E) view"
    and "\<And>s' ts. st_tracker s' = st_tracker s \<Longrightarrow> gc_keeps E T t minAge ts s' (drop 3 k)"
    and "gc_sweep E T t ctx n minAge s = (err, freed, s')"
  shows "dbview view s' k = dbview view s k"
proof (cases "DB_NewIter (se_pebble E) (st_db s)")
  case (Inr kvs)
  define ts where "ts = (if minAge > 0 then cutoff_of (se_now E) minAge else 0)"
  obtain e1 f1 b1 c1 s1 where g: "gc_loop E T t ctx minAge ts (block_entries kvs) n [] 0 0 s = (e1, f1, b1, c1, s1)"
    by (metis prod_cases5)
  have s1: "k \<notin> fst ` set b1" "dbview view s1 k = dbview view s k"
    using gc_loop_spares [OF assms(1,2) g] by auto
  have "dbview view (snd (commit E b1 s1)) k = dbview view s k"
    using commit_view [OF assms(1), of b1 s1] apply_batch_other [OF s1(1), of "dbview view s1"] s1(2) by simp
  with assms(3) Inr g s1(2) show ?thesis
    by (auto simp: gc_sweep_def Let_def ts_def [symmetric] split: option.splits if_splits prod.splits)
qed (use assms(3) in \<open>simp add: gc_sweep_def Let_def\<close>)

lemma drop_BlockKey [simp]: "drop 3 (BlockKey m) = m_Hash m"
  by (simp add: BlockKey_def)

lemma FromMultihash_raw:
  assumes "mid_wf L m"
  shows "FromMultihash L (m_codec m) (m_Hash m) = Inr m"
  using assms by (simp add: FromMultihash_def fromCodecAndHashErr_ok_iff mid_wf_def)

text \<open>A raw block that was registered during the run is kept, whatever was marked and however old.\<close>

lemma gc_keeps_registered:
  assumes "mid_wf (se_lib E) m" "m_codec m = CodecRaw" "gt_gcActive (st_tracker s)"
    "MID_String (se_lib E) m \<in> gt_activeBuffer (st_tracker s)"
  shows "gc_keeps E T t minAge ts s (m_Hash m)"
  using assms FromMultihash_raw [OF assms(1)] by (simp add: gc_keeps_def IsProtected_def Let_def)



text \<open>
  The collector rebuilds identifiers from hashes with the raw codec, so the registration of a MemFS
  node does not protect it: a node written during the run, not yet sealed, is swept.
\<close>

theorem gc_forgets_memfs_write:
  assumes "temp_ok T vt" "\<not> db_closed t" "hashlib_ok (se_lib E)" "mid_wf (se_lib E) m" "m_codec m \<noteq> CodecRaw"
    "gt_activeBuffer (st_tracker s) = {MID_String (se_lib E) m}" "m_Hash m \<notin> marked vt t"
  shows "\<not> gc_keeps E T t 0 0 s (m_Hash m)"
proof -
  have "DB_Has T t (m_Hash m) = Inr False"
    using DB_Has_ok [of T vt t "m_Hash m"] assms(1,2,7) by (simp add: temp_ok_def marked_def)
  moreover have "\<not> IsProtected (se_lib E) (se_now E) (st_tracker s) m' ts 0"
    if "FromMultihash (se_lib E) CodecRaw (m_Hash m) = Inr m'" for m' ts
  proof -
    have m': "mid_wf (se_lib E) m'" "m' \<noteq> m" using FromMultihash_wf [OF that] assms(5) by auto
    then have "MID_String (se_lib E) m' \<noteq> MID_String (se_lib E) m"
      using MID_String_inj [OF assms(3) m'(1) assms(4)] by blast
    with assms(6) mid_wf_not_zero [OF m'(1)] show ?thesis by (simp add: IsProtected_def Let_def)
  qed
  ultimately show ?thesis by (simp add: gc_keeps_def Let_def split: sum.split)
qed

section \<open>Seal records\<close>

lemma child_bit_simps:
  "\<not> bit v 63 \<Longrightarrow> and v child_bit = 0 \<and> and v (not child_bit) = v"
  "and (or v child_bit) child_bit \<noteq> 0" "bit (or v child_bit) 63"
  for v :: u64
proof -
  have b: "bit child_bit n \<longleftrightarrow> n = 63" for n
    unfolding child_bit_def bit_push_bit_iff by (auto simp: bit_1_iff)
  show "\<not> bit v 63 \<Longrightarrow> and v child_bit = 0 \<and> and v (not child_bit) = v"
    by (auto simp: bit_eq_iff [where 'a = "64 word"] bit_and_iff bit_not_iff b)
  have "bit (and (or v child_bit) child_bit) 63" by (simp add: bit_and_iff bit_or_iff b)
  then show "and (or v child_bit) child_bit \<noteq> 0" by (metis bit_0_eq bot_apply bot_bool_def)
  show "bit (or v child_bit) 63" by (simp add: bit_or_iff b)
qed

lemma iterate_sealed_append:
  "iterate_sealed L (\<lambda>m out. (None, out @ [m])) kvs out =
     (None, out @ concat (map (\<lambda>(k, val). case seal_codec val of (codec, isChild) \<Rightarrow>
        if isChild then [] else case FromMultihash L codec (drop 3 k) of Inl _ \<Rightarrow> [] | Inr m \<Rightarrow> [m]) kvs))"
proof (induction kvs arbitrary: out)
  case (Cons kv kvs)
  then show ?case by (cases kv) (simp split: prod.splits sum.splits)
qed simp

text \<open>The roots AllSealed lists are the seal records that are no child's, with the recorded codec.\<close>

lemma AllSealed_roots:
  assumes "store_ok E view s" "reads_ok E"
  shows "\<exists>roots. MemStore_AllSealed E s = (None, roots) \<and>
    (\<forall>m. m \<in> set roots \<longleftrightarrow> mid_wf (se_lib E) m \<and>
      (\<exists>val. dbview view s (SealKey m) = Some val \<and> seal_codec val = (m_codec m, False)))"
proof -
  obtain kvs where it: "pb_Iter (se_pebble E) (db_pebble (st_db s)) = Inr kvs"
    using assms(2) unfolding reads_ok_def is_ok_iff by blast
  have P: "pebble_ok (se_pebble E) view" using assms(1) by (simp add: store_ok_def)
  have kvs: "sorted_wrt (<) (map fst kvs)" "map_of kvs = dbview view s"
    using pebble_Iter [OF P it] by (simp_all add: dbview_def)
  have dis: "distinct (map fst kvs)" using kvs(1) by (simp add: strict_sorted_iff)
  let ?roots = "concat (map (\<lambda>(k, val). case seal_codec val of (codec, isChild) \<Rightarrow>
      if isChild then [] else case FromMultihash (se_lib E) codec (drop 3 k) of Inl _ \<Rightarrow> [] | Inr m \<Rightarrow> [m])
      (scan_prefix PrefixSeal kvs))"
  have all: "MemStore_AllSealed E s = (None, ?roots)"
    using enter_open [OF assms(1)] it assms(1)
    by (simp add: MemStore_AllSealed_def MemStore_IterateSealed_def DB_NewIter_def store_ok_def iterate_sealed_append)
  have "m \<in> set ?roots \<longleftrightarrow> mid_wf (se_lib E) m \<and>
      (\<exists>val. dbview view s (SealKey m) = Some val \<and> seal_codec val = (m_codec m, False))" for m
  proof
    assume "m \<in> set ?roots"
    then obtain k val codec where k: "(k, val) \<in> set kvs" "has_prefix PrefixSeal k" "seal_codec val = (codec, False)"
      "FromMultihash (se_lib E) codec (drop 3 k) = Inr m"
      by (auto simp: scan_prefix_filter [OF kvs(1)] split: prod.splits if_splits sum.splits) metis
    from k(2) obtain h where h: "k = PrefixSeal @ h" by (rule has_prefixE)
    have m: "mid_wf (se_lib E) m" "m_codec m = codec" "m_Hash m = h" using FromMultihash_wf [OF k(4)] h by simp_all
    have "dbview view s k = Some val" using map_of_is_SomeI [OF dis k(1)] kvs(2) by simp
    with k(3) m h show "mid_wf (se_lib E) m \<and>
        (\<exists>val. dbview view s (SealKey m) = Some val \<and> seal_codec val = (m_codec m, False))"
      by (simp add: SealKey_def)
  next
    assume "mid_wf (se_lib E) m \<and> (\<exists>val. dbview view s (SealKey m) = Some val \<and> seal_codec val = (m_codec m, False))"
    then obtain val where m: "mid_wf (se_lib E) m" "map_of kvs (SealKey m) = Some val" "seal_codec val = (m_codec m, False)"
      using kvs(2) by auto
    then have "(SealKey m, val) \<in> set (scan_prefix PrefixSeal kvs)"
      by (auto simp: scan_prefix_filter [OF kvs(1)] SealKey_def dest: map_of_SomeD)
    moreover have "FromMultihash (se_lib E) (m_codec m) (drop 3 (SealKey m)) = Inr m"
      using FromMultihash_raw [OF m(1)] by (simp add: SealKey_def)
    ultimately show "m \<in> set ?roots" using m(3) by (auto intro!: bexI [of _ "(SealKey m, val)"])
  qed
  with all show ?thesis by blast
qed

lemma writeSeal_view:
  assumes "store_ok E view s" "writes_ok E"
  shows "\<exists>s'. writeSeal E m child s = (None, s') \<and> store_ok E view s' \<and>
    dbview view s' = (dbview view s)(SealKey m \<mapsto> PutUint64 (if child then or (m_codec m) child_bit else m_codec m))"
proof -
  let ?v = "PutUint64 (if child then or (m_codec m) child_bit else m_codec m)"
  have P: "pebble_ok (se_pebble E) view" and o: "\<not> db_closed (st_db s)" using assms(1) by (simp_all add: store_ok_def)
  have w: "writeSeal E m child s = commit E [(SealKey m, Some ?v)] s"
    using DB_Set_commit(1) [where E = E and s = s and k = "SealKey m" and x = ?v] o by (simp add: writeSeal_def Let_def)
  obtain err s' where c: "commit E [(SealKey m, Some ?v)] s = (err, s')" by fastforce
  have err: "err = None" using commit_succeeds [OF assms(2), of "[(SealKey m, Some ?v)]" s] by (simp only: c fst_conv)
  have "dbview view s' = (dbview view s)(SealKey m \<mapsto> ?v)"
    using commit_view [OF P, of "[(SealKey m, Some ?v)]" s] unfolding c err by simp
  moreover have "store_ok E view s'"
    using block_frame_ok [OF assms(1) writeSeal_frame [OF P, of s m child]] by (simp only: w c snd_conv)
  ultimately show ?thesis using w c err by simp
qed

text \<open>
  Sealing pins: after Seal of a root its record is there, AllSealed lists exactly this
  root besides the roots it listed before (with the codec of the identifier), and a child record is
  never listed as a root. The codec must leave the top bit, the child mark, free.
\<close>

theorem seal_listed:
  assumes "store_ok E view s" and "reads_ok E" and "writes_ok E" and "mid_wf (se_lib E) root"
    and "\<not> bit (m_codec root) 63" and "MemStore_AllSealed E s = (None, before)"
  shows "\<exists>s' after. MemStore_Seal E fuel s root False = Some (None, s') \<and> store_ok E view s' \<and>
    MemStore_IsSealed E s' root = Inr True \<and> MemStore_AllSealed E s' = (None, after) \<and>
    set after = insert root {m \<in> set before. m_Hash m \<noteq> m_Hash root}"
proof -
  note z = mid_wf_not_zero [OF assms(4)]
  from writeSeal_view [OF assms(1,3), of root False] obtain s' where
    w: "writeSeal E root False s = (None, s')" "store_ok E view s'"
      "dbview view s' = (dbview view s)(SealKey root \<mapsto> PutUint64 (m_codec root))" by auto
  have seal: "MemStore_Seal E fuel s root False = Some (None, s')"
    using w(1) z enter_open [OF assms(1)] by (simp add: MemStore_Seal_def)
  have pinned: "MemStore_IsSealed E s' root = Inr True"
    using DB_Has_view [OF w(2) assms(2), of "SealKey root"] w(3) z enter_open [OF w(2)]
    by (simp add: MemStore_IsSealed_def)
  have codec: "seal_codec (PutUint64 (m_codec root)) = (m_codec root, False)"
    using child_bit_simps(1) [OF assms(5)] by (simp add: seal_codec_def)
  from AllSealed_roots [OF w(2) assms(2)] obtain roots where
    a: "MemStore_AllSealed E s' = (None, roots)"
      "\<And>m. m \<in> set roots \<longleftrightarrow> mid_wf (se_lib E) m \<and>
        (\<exists>val. dbview view s' (SealKey m) = Some val \<and> seal_codec val = (m_codec m, False))" by blast
  from AllSealed_roots [OF assms(1,2)] assms(6) have
    b: "\<And>m. m \<in> set before \<longleftrightarrow> mid_wf (se_lib E) m \<and>
        (\<exists>val. dbview view s (SealKey m) = Some val \<and> seal_codec val = (m_codec m, False))" by auto
  have "m \<in> set roots \<longleftrightarrow> m = root \<or> m \<in> set before \<and> m_Hash m \<noteq> m_Hash root" for m
  proof (cases "m_Hash m = m_Hash root")
    case True
    then have "SealKey m = SealKey root" by simp
    then have "m \<in> set roots \<longleftrightarrow> mid_wf (se_lib E) m \<and> m_codec root = m_codec m" using a(2) codec w(3) by auto
    also have "\<dots> \<longleftrightarrow> m = root" using True assms(4) mid_wf_eqI [of "se_lib E" m root]
      by (auto simp: MID_Equal_def mid_wf_def)
    finally show ?thesis using True by simp
  next
    case False
    then show ?thesis using a(2) [of m] b [of m] w(3) by auto
  qed
  then have "set roots = insert root {m \<in> set before. m_Hash m \<noteq> m_Hash root}" by blast
  with seal pinned a(1) w(2) show ?thesis by blast
qed

theorem seal_listed_witness:
  "\<exists>s' roots. MemStore_Seal demo_env 1 (demo_store [] []) (demo_mid [7]) False = Some (None, s') \<and>
     MemStore_AllSealed demo_env s' = (None, roots) \<and> set roots = {demo_mid [7]}"
proof -
  have wf: "mid_wf (se_lib demo_env) (demo_mid [7])" by (simp add: demo_mid_wf)
  have c: "\<not> bit (m_codec (demo_mid [7])) 63" by (simp add: demo_mid_def CodecRaw_def)
  have none: "MemStore_AllSealed demo_env (demo_store [] []) = (None, [])" by code_simp
  from seal_listed [OF demo_store_ok demo_reads demo_writes wf c none, of 1] show ?thesis by auto
qed

end
