(* ===== verification/Memfs.thy ===== *)
theory Memfs
  imports Walk
begin

text \<open>
  src/core/memfs: the file-system nodes (node.go), their lookup by identifier and path (resolver.go) and
  the streaming reader of a file (reader.go). The block getter is an argument. A file position is
  an int64; slices that may be nil are options.
\<close>

section \<open>Nodes\<close>

definition midFromBytesWithCodec :: "hashlib \<Rightarrow> bytes \<Rightarrow> u64 \<Rightarrow> MID" where
  "midFromBytesWithCodec L b defaultCodec =
     (if b = [] then MID_zero
      else
        let s = string_of_bytes b;
            envelope = (case FromMultihash L defaultCodec b of
                          Inl _ \<Rightarrow> MID_zero\<lparr>m_Hash := b\<rparr>
                        | Inr m \<Rightarrow> m)
        in if 3 < length s \<and> take 3 s = ''mem''
           then (case Parse L s of Inr m \<Rightarrow> m | Inl _ \<Rightarrow> envelope)
           else envelope)"

definition midFromBytes :: "hashlib \<Rightarrow> bytes \<Rightarrow> MID" where
  "midFromBytes L b = midFromBytesWithCodec L b CodecMemFS"

text \<open>The value forms of block references and directory entries; a nil element is the zero value.\<close>

definition BlocksValue :: "hashlib \<Rightarrow> MemFSNode \<Rightarrow> (MID \<times> u64) list" where
  "BlocksValue L n =
     map (\<lambda>b. case b of
            None \<Rightarrow> (MID_zero, 0)
          | Some b \<Rightarrow>
              (midFromBytesWithCodec L (fb_Mid b) (if 0 < fb_Size b then CodecRaw else CodecMemFS), fb_Size b))
       (fn_Blocks n)"

record DirEntryValue =
  dv_Name :: string
  dv_Mid :: MID
  dv_Type :: MemFSType
  dv_Size :: u64

definition EntriesValue :: "hashlib \<Rightarrow> MemFSNode \<Rightarrow> DirEntryValue list" where
  "EntriesValue L n =
     map (\<lambda>e. case e of
            None \<Rightarrow> \<lparr>dv_Name = [], dv_Mid = MID_zero, dv_Type = 0, dv_Size = 0\<rparr>
          | Some e \<Rightarrow> \<lparr>dv_Name = de_Name e, dv_Mid = midFromBytes L (de_Mid e),
                       dv_Type = de_Type e, dv_Size = de_Size e\<rparr>)
       (fn_Entries n)"

definition TotalSize :: "hashlib \<Rightarrow> MemFSNode \<Rightarrow> u64" where
  "TotalSize L n =
     (if fn_Type n = MemFSType_FILE then
        (if 0 < fn_FileSize n then fn_FileSize n else (\<Sum>b \<leftarrow> BlocksValue L n. snd b))
      else if fn_Type n = MemFSType_DIR then (\<Sum>e \<leftarrow> EntriesValue L n. dv_Size e)
      else of_nat (length (fn_Data n)))"

definition ParseNode :: "protolib \<Rightarrow> bytes \<Rightarrow> MemFSNode result" where
  "ParseNode P data =
     (if data = [] then Inl (Wrap ''memfs: parse node: %w'' (Msg ''memfs: empty node bytes''))
      else case pb_MemFSNode_Unmarshal P data of
        None \<Rightarrow> Inl (Wrap ''memfs: parse node: %w'' (Msg ''proto''))
      | Some n \<Rightarrow> Inr n)"

section \<open>Lookup\<close>

definition memfs_Resolve :: "hashlib \<Rightarrow> protolib \<Rightarrow> (MID \<Rightarrow> bytes result) option \<Rightarrow> MID \<Rightarrow> MemFSNode result" where
  "memfs_Resolve L P bs m =
     (case bs of
        None \<Rightarrow> Inl (Msg ''memfs: nil blockstore'')
      | Some get \<Rightarrow>
          if IsZero m then Inl (Msg ''memfs: zero MID'')
          else case get m of
            Inl err \<Rightarrow> Inl (Wrap (''memfs: get '' @ MID_String L m) err)
          | Inr raw \<Rightarrow> ParseNode P raw)"

text \<open>splitPath: \<open>seg\<close> is p[start:i].\<close>

fun split_loop :: "string \<Rightarrow> string \<Rightarrow> string list" where
  "split_loop seg [] = (if seg \<noteq> [] then [seg] else [])"
| "split_loop seg (c # p) =
     (if c = CHR ''/'' then (if seg \<noteq> [] then seg # split_loop [] p else split_loop [] p)
      else split_loop (seg @ [c]) p)"

definition splitPath :: "string \<Rightarrow> string list" where
  "splitPath p = split_loop [] p"

fun descend :: "hashlib \<Rightarrow> protolib \<Rightarrow> (MID \<Rightarrow> bytes result) option \<Rightarrow> string list \<Rightarrow> MemFSNode \<Rightarrow> MemFSNode result" where
  "descend L P bs [] current = Inr current"
| "descend L P bs (seg # segs) current =
     (if fn_Type current \<noteq> MemFSType_DIR then Inl (Msg (''memfs: not a directory: '' @ seg))
      else case List.find (\<lambda>e. dv_Name e = seg) (EntriesValue L current) of
        None \<Rightarrow> Inl (Msg (''memfs: no such entry: '' @ seg))
      | Some e \<Rightarrow>
          (case memfs_Resolve L P bs (dv_Mid e) of
             Inl err \<Rightarrow> Inl (Wrap (''memfs: resolve '' @ seg) err)
           | Inr node \<Rightarrow> descend L P bs segs node))"

definition ResolvePath ::
    "hashlib \<Rightarrow> protolib \<Rightarrow> (MID \<Rightarrow> bytes result) option \<Rightarrow> MID \<Rightarrow> string \<Rightarrow> MemFSNode result" where
  "ResolvePath L P bs root path =
     (if path = [] then memfs_Resolve L P bs root
      else case memfs_Resolve L P bs root of
        Inl err \<Rightarrow> Inl err
      | Inr current \<Rightarrow> descend L P bs (splitPath path) current)"

section \<open>The reader\<close>

record freader =
  fr_FileSize :: u64
  fr_blocks :: "MID list"
  fr_pos :: int
  fr_cur :: nat
  fr_buf :: "bytes option"
  fr_bufUsed :: nat

text \<open>flattenFileBlocks; the fuel bounds the depth of the tree of FILE nodes.\<close>

fun flattenFileBlocks ::
    "hashlib \<Rightarrow> protolib \<Rightarrow> (MID \<Rightarrow> bytes result) \<Rightarrow> nat \<Rightarrow> MemFSNode \<Rightarrow> MID list result option"
  and flatten_blocks ::
    "hashlib \<Rightarrow> protolib \<Rightarrow> (MID \<Rightarrow> bytes result) \<Rightarrow> nat \<Rightarrow> (MID \<times> u64) list \<Rightarrow> MID list result option" where
  "flattenFileBlocks L P get 0 n = None"
| "flattenFileBlocks L P get (Suc fuel) n =
     (if fn_Type n \<noteq> MemFSType_FILE then Some (Inl (Msg ''memfs: not a file''))
      else flatten_blocks L P get fuel (BlocksValue L n))"
| "flatten_blocks L P get fuel [] = Some (Inr [])"
| "flatten_blocks L P get fuel ((m, sz) # bs) =
     (let here = (if 0 < sz then Some (Inr [m])
                  else case get m of
                    Inl err \<Rightarrow> Some (Inl (Wrap (''memfs: get child '' @ MID_String L m) err))
                  | Inr raw \<Rightarrow>
                      (case pb_MemFSNode_Unmarshal P raw of
                         None \<Rightarrow> Some (Inr [m])
                       | Some child \<Rightarrow>
                           if fn_Type child = MemFSType_FILE \<and> fn_Blocks child \<noteq> []
                           then flattenFileBlocks L P get fuel child else Some (Inr [m])))
      in case here of
           None \<Rightarrow> None
         | Some (Inl err) \<Rightarrow> Some (Inl err)
         | Some (Inr out) \<Rightarrow>
             (case flatten_blocks L P get fuel bs of
                None \<Rightarrow> None
              | Some (Inl err) \<Rightarrow> Some (Inl err)
              | Some (Inr out') \<Rightarrow> Some (Inr (out @ out'))))"

definition newReader ::
    "hashlib \<Rightarrow> protolib \<Rightarrow> (MID \<Rightarrow> bytes result) \<Rightarrow> nat \<Rightarrow> MemFSNode \<Rightarrow> freader result option" where
  "newReader L P get fuel file =
     (case flattenFileBlocks L P get fuel file of
        None \<Rightarrow> None
      | Some (Inl err) \<Rightarrow> Some (Inl err)
      | Some (Inr flat) \<Rightarrow>
          Some (Inr \<lparr>fr_FileSize = fn_FileSize file, fr_blocks = flat, fr_pos = 0, fr_cur = 0,
                     fr_buf = None, fr_bufUsed = 0\<rparr>))"

definition memfs_Open ::
    "hashlib \<Rightarrow> protolib \<Rightarrow> (MID \<Rightarrow> bytes result) option \<Rightarrow> nat \<Rightarrow> MID \<Rightarrow> freader result option" where
  "memfs_Open L P bs fuel m =
     (case memfs_Resolve L P bs m of
        Inl err \<Rightarrow> Some (Inl err)
      | Inr node \<Rightarrow>
          if fn_Type node \<noteq> MemFSType_FILE then Some (Inl (Msg (''memfs: not a file: '' @ MID_String L m)))
          else newReader L P (the bs) fuel node)"

text \<open>Read into a buffer of \<open>len\<close> bytes: the bytes copied and the error.\<close>

definition freader_Read :: "(MID \<Rightarrow> bytes result) \<Rightarrow> nat \<Rightarrow> freader \<Rightarrow> (bytes \<times> gerror option) \<times> freader" where
  "freader_Read get len r =
     (if fr_pos r \<ge> sint (fr_FileSize r) then (([], Some io_EOF), r)
      else if length (fr_blocks r) \<le> fr_cur r then (([], Some io_EOF), r)
      else case (case fr_buf r of
                   Some b \<Rightarrow> Inr (b, fr_bufUsed r)
                 | None \<Rightarrow> (case get (fr_blocks r ! fr_cur r) of Inl err \<Rightarrow> Inl err | Inr raw \<Rightarrow> Inr (raw, 0))) of
        Inl err \<Rightarrow> (([], Some (Wrap ''memfs: read block'' err)), r)
      | Inr (buf, used) \<Rightarrow>
          let p = take len (drop used buf); used' = used + length p;
              r' = r\<lparr>fr_pos := fr_pos r + int (length p)\<rparr>
          in ((p, None),
              if length buf \<le> used' then r'\<lparr>fr_cur := fr_cur r + 1, fr_buf := None, fr_bufUsed := 0\<rparr>
              else r'\<lparr>fr_buf := Some buf, fr_bufUsed := used'\<rparr>))"

text \<open>The block that contains \<open>target\<close>: its index and the bytes before it.\<close>

fun seek_block :: "(MID \<Rightarrow> bytes result) \<Rightarrow> int \<Rightarrow> MID list \<Rightarrow> nat \<Rightarrow> int \<Rightarrow> (nat \<times> int) option result" where
  "seek_block get target [] i before = Inr None"
| "seek_block get target (bm # bms) i before =
     (case get bm of
        Inl err \<Rightarrow> Inl (Wrap ''memfs: get size for block'' err)
      | Inr raw \<Rightarrow>
          if target < before + int (length raw) then Inr (Some (i, before))
          else seek_block get target bms (i + 1) (before + int (length raw)))"

definition to_int64 :: "int \<Rightarrow> int" where
  "to_int64 x = sint (word_of_int x :: u64)"

definition freader_Seek :: "(MID \<Rightarrow> bytes result) \<Rightarrow> int \<Rightarrow> int \<Rightarrow> freader \<Rightarrow> int result \<times> freader" where
  "freader_Seek get offset whence r =
     (if whence \<noteq> 0 \<and> whence \<noteq> 1 \<and> whence \<noteq> 2 then (Inl (Msg ''memfs: invalid whence''), r)
      else
        let target = (if whence = 0 then offset
                      else if whence = 1 then to_int64 (fr_pos r + offset)
                      else to_int64 (sint (fr_FileSize r) + offset))
        in if target < 0 then (Inl (Msg ''memfs: negative seek''), r)
           else if target = fr_pos r then (Inr (fr_pos r), r)
           else case seek_block get target (fr_blocks r) 0 0 of
             Inl err \<Rightarrow> (Inl err, r)
           | Inr None \<Rightarrow>
               (Inr (sint (fr_FileSize r)),
                r\<lparr>fr_cur := length (fr_blocks r), fr_buf := None, fr_bufUsed := 0, fr_pos := sint (fr_FileSize r)\<rparr>)
           | Inr (Some (newCur, before)) \<Rightarrow>
               (case get (fr_blocks r ! newCur) of
                  Inl err \<Rightarrow> (Inl (Wrap ''memfs: refetch block'' err), r\<lparr>fr_cur := newCur\<rparr>)
                | Inr raw \<Rightarrow>
                    (Inr target,
                     r\<lparr>fr_cur := newCur, fr_buf := Some raw, fr_bufUsed := nat (target - before), fr_pos := target\<rparr>)))"

definition freader_Close :: "freader \<Rightarrow> freader" where
  "freader_Close r = r\<lparr>fr_buf := None, fr_bufUsed := 0\<rparr>"

section \<open>What a reader holds\<close>

text \<open>
  A reader over blocks with the contents \<open>ds\<close>: its position is where its block and offset say, a block
  in the buffer is the current one and is not used up.
\<close>

definition reader_at :: "(MID \<Rightarrow> bytes result) \<Rightarrow> bytes list \<Rightarrow> freader \<Rightarrow> bool" where
  "reader_at get ds r \<longleftrightarrow>
     map get (fr_blocks r) = map Inr ds \<and> sint (fr_FileSize r) = int (length (concat ds)) \<and>
     fr_cur r \<le> length ds \<and> fr_pos r = int (length (concat (take (fr_cur r) ds)) + fr_bufUsed r) \<and>
     (case fr_buf r of
        None \<Rightarrow> fr_bufUsed r = 0
      | Some b \<Rightarrow> fr_cur r < length ds \<and> b = ds ! fr_cur r \<and> fr_bufUsed r < length b)"

lemma concat_take_Suc: "i < length ds \<Longrightarrow> concat (take (Suc i) ds) = concat (take i ds) @ ds ! i"
  by (simp add: take_Suc_conv_app_nth)

lemma drop_concat:
  "i < length ds \<Longrightarrow> j \<le> length (ds ! i) \<Longrightarrow>
   drop (length (concat (take i ds)) + j) (concat ds) = drop j (ds ! i) @ concat (drop (Suc i) ds)"
proof -
  assume i: "i < length ds" and j: "j \<le> length (ds ! i)"
  have "concat ds = concat (take i ds) @ ds ! i @ concat (drop (Suc i) ds)"
    using i by (metis append_assoc append_take_drop_id concat_append concat_take_Suc)
  then show ?thesis using j by simp
qed

text \<open>An upper bound on the reads until the end of the file.\<close>

definition to_read :: "bytes list \<Rightarrow> freader \<Rightarrow> nat" where
  "to_read ds r = (length (concat ds) - nat (fr_pos r)) + (length ds - fr_cur r)"

text \<open>One Read returns the next bytes, up to the end of the block, or EOF at the end of the file.\<close>

lemma Read_step:
  assumes "reader_at get ds r" "0 < len" "freader_Read get len r = ((p, err), r')"
  shows "reader_at get ds r' \<and> fr_pos r' = fr_pos r + int (length p) \<and>
    p = take (length p) (drop (nat (fr_pos r)) (concat ds)) \<and>
    (if fr_pos r < int (length (concat ds)) then err = None \<and> to_read ds r' < to_read ds r else err = Some io_EOF \<and> r' = r \<and> p = [])"
proof (cases "fr_pos r < int (length (concat ds))")
  case False
  then have "fr_pos r \<ge> sint (fr_FileSize r)" using assms(1) by (simp add: reader_at_def)
  then have "p = []" "err = Some io_EOF" "r' = r" using assms(3) by (auto simp: freader_Read_def)
  with assms(1) False show ?thesis by simp
next
  case True
  let ?i = "fr_cur r"
  have len_ds: "length (fr_blocks r) = length ds" and gets: "map get (fr_blocks r) = map Inr ds"
    and pos: "fr_pos r = int (length (concat (take ?i ds)) + fr_bufUsed r)" and ile: "?i \<le> length ds"
    using assms(1) map_eq_imp_length_eq [of get "fr_blocks r" Inr ds] by (simp_all add: reader_at_def)
  have i: "?i < length ds"
  proof (rule ccontr)
    assume "\<not> ?thesis"
    then have "?i = length ds" "fr_buf r = None" using assms(1) by (auto simp: reader_at_def split: option.splits)
    with True pos assms(1) show False by (simp add: reader_at_def)
  qed
  have get_i: "get (fr_blocks r ! ?i) = Inr (ds ! ?i)"
    using gets i len_ds by (metis nth_map)
  define used where "used = fr_bufUsed r"
  have u: "used \<le> length (ds ! ?i)" "fr_buf r = None \<Longrightarrow> used = 0"
    using assms(1) by (auto simp: reader_at_def used_def split: option.splits)
  have src: "(case fr_buf r of Some b \<Rightarrow> Inr (b, fr_bufUsed r)
      | None \<Rightarrow> (case get (fr_blocks r ! ?i) of Inl err \<Rightarrow> Inl err | Inr raw \<Rightarrow> Inr (raw, 0))) = Inr (ds ! ?i, used)"
    using assms(1) get_i u(2) by (auto simp: reader_at_def used_def split: option.splits)
  define q where "q = take len (drop used (ds ! ?i))"
  have more: "\<not> fr_pos r \<ge> sint (fr_FileSize r)" "\<not> length (fr_blocks r) \<le> ?i"
    using True assms(1) i len_ds by (simp_all add: reader_at_def)
  have "freader_Read get len r = ((q, None),
      if length (ds ! ?i) \<le> used + length q
      then r\<lparr>fr_pos := fr_pos r + int (length q), fr_cur := ?i + 1, fr_buf := None, fr_bufUsed := 0\<rparr>
      else r\<lparr>fr_pos := fr_pos r + int (length q), fr_buf := Some (ds ! ?i), fr_bufUsed := used + length q\<rparr>)"
    unfolding freader_Read_def if_not_P [OF more(1)] if_not_P [OF more(2)] src by (simp add: Let_def q_def)
  then have e: "p = q" "err = None" and r': "r' = (if length (ds ! ?i) \<le> used + length q
      then r\<lparr>fr_pos := fr_pos r + int (length q), fr_cur := ?i + 1, fr_buf := None, fr_bufUsed := 0\<rparr>
      else r\<lparr>fr_pos := fr_pos r + int (length q), fr_buf := Some (ds ! ?i), fr_bufUsed := used + length q\<rparr>)"
    using assms(3) by simp_all
  have qlen: "used + length q \<le> length (ds ! ?i)" using u(1) by (simp add: q_def)
  have "reader_at get ds r'"
    using assms(1) i qlen pos unfolding r'
    by (auto simp: reader_at_def concat_take_Suc used_def)
  moreover have "q = take (length q) (drop (nat (fr_pos r)) (concat ds))"
  proof -
    have "drop (nat (fr_pos r)) (concat ds) = drop used (ds ! ?i) @ concat (drop (Suc ?i) ds)"
      using drop_concat [OF i u(1)] pos by (simp add: used_def nat_int_add)
    then show ?thesis by (simp add: q_def min_def)
  qed
  moreover have "to_read ds r' < to_read ds r"
  proof (cases "q = []")
    case empty: True
    then have "length (ds ! ?i) \<le> used + length q" using assms(2) by (simp add: q_def)
    then show ?thesis using i empty unfolding r' by (simp add: to_read_def)
  next
    case False
    then have lq: "0 < length q" by simp
    have n: "nat (fr_pos r + int (length q)) = nat (fr_pos r) + length q" using pos by simp
    have "nat (fr_pos r) < length (concat ds)" using pos True by simp
    then have "length (concat ds) - (nat (fr_pos r) + length q) < length (concat ds) - nat (fr_pos r)"
      using lq by linarith
    moreover have "length ds - (fr_cur r + 1) \<le> length ds - fr_cur r" by simp
    ultimately show ?thesis unfolding r' to_read_def by (simp add: n) linarith
  qed
  ultimately show ?thesis using True e r' by simp
qed

text \<open>Reading to the end, \<open>len\<close> bytes at a time.\<close>

fun read_all :: "(MID \<Rightarrow> bytes result) \<Rightarrow> nat \<Rightarrow> nat \<Rightarrow> freader \<Rightarrow> bytes \<times> gerror option" where
  "read_all get len 0 r = ([], None)"
| "read_all get len (Suc k) r =
     (case freader_Read get len r of
        ((p, Some e), r') \<Rightarrow> (p, Some e)
      | ((p, None), r') \<Rightarrow> (case read_all get len k r' of (ps, e) \<Rightarrow> (p @ ps, e)))"

lemma read_all_rest:
  "reader_at get ds r \<Longrightarrow> 0 < len \<Longrightarrow> to_read ds r < k \<Longrightarrow> 0 \<le> fr_pos r \<Longrightarrow>
   read_all get len k r = (drop (nat (fr_pos r)) (concat ds), Some io_EOF)"
proof (induction k arbitrary: r)
  case (Suc k)
  obtain p err r' where rd: "freader_Read get len r = ((p, err), r')" by (metis prod.exhaust)
  note s = Read_step [OF Suc.prems(1,2) rd]
  show ?case
  proof (cases "fr_pos r < int (length (concat ds))")
    case True
    with s have s': "err = None" "to_read ds r' < k" "reader_at get ds r'" "0 \<le> fr_pos r'" "fr_pos r' = fr_pos r + int (length p)"
      using Suc.prems(3,4) by auto
    from Suc.IH [OF s'(3) Suc.prems(2) s'(2,4)] have
      "read_all get len (Suc k) r = (p @ drop (nat (fr_pos r')) (concat ds), Some io_EOF)"
      using rd s'(1) by simp
    moreover have "p @ drop (nat (fr_pos r')) (concat ds) = drop (nat (fr_pos r)) (concat ds)"
    proof -
      have "drop (nat (fr_pos r')) (concat ds) = drop (length p) (drop (nat (fr_pos r)) (concat ds))"
        using s'(5) Suc.prems(4) by (simp add: nat_add_distrib add.commute)
      with s show ?thesis by (metis append_take_drop_id)
    qed
    ultimately show ?thesis by simp
  next
    case False
    with s rd show ?thesis by (simp add: nat_le_iff)
  qed
qed simp

section \<open>Seeking\<close>

lemma seek_block_finds:
  "map get bms = map Inr ds \<Longrightarrow> before \<le> target \<Longrightarrow>
   (if target < before + int (length (concat ds))
    then \<exists>j. j < length ds \<and> seek_block get target bms i before = Inr (Some (i + j, before + int (length (concat (take j ds))))) \<and>
      before + int (length (concat (take j ds))) \<le> target \<and>
      target < before + int (length (concat (take j ds)) + length (ds ! j))
    else seek_block get target bms i before = Inr None)"
proof (induction bms arbitrary: ds i before)
  case (Cons bm bms)
  then obtain d ds' where ds: "ds = d # ds'" "get bm = Inr d" "map get bms = map Inr ds'" by (cases ds) auto
  show ?case
  proof (cases "target < before + int (length d)")
    case True
    with ds Cons.prems show ?thesis by (auto intro!: exI [of _ 0])
  next
    case False
    then have "before + int (length d) \<le> target" by simp
    note ih = Cons.IH [OF ds(3) this, of "i + 1"]
    show ?thesis
    proof (cases "target < before + int (length (concat ds))")
      case True
      with ih ds obtain j where "j < length ds'"
        "seek_block get target bms (i + 1) (before + int (length d)) =
           Inr (Some (i + 1 + j, before + int (length d) + int (length (concat (take j ds')))))"
        "before + int (length d) + int (length (concat (take j ds'))) \<le> target"
        "target < before + int (length d) + int (length (concat (take j ds')) + length (ds' ! j))" by auto
      with True False ds show ?thesis by (auto intro!: exI [of _ "Suc j"])
    next
      case end_: False
      with ih ds False show ?thesis by simp
    qed
  qed
qed simp

text \<open>Seek lands at the byte asked for, or at the end of the file when it is asked for more.\<close>

lemma Seek_lands:
  assumes "reader_at get ds r" "0 \<le> target" "0 \<le> fr_pos r"
  shows "\<exists>r'. freader_Seek get target 0 r = (Inr (min target (int (length (concat ds)))), r') \<and>
    reader_at get ds r' \<and> fr_pos r' = min target (int (length (concat ds))) \<or>
    target = fr_pos r \<and> freader_Seek get target 0 r = (Inr target, r)"
proof (cases "target = fr_pos r")
  case True
  with assms show ?thesis by (simp add: freader_Seek_def Let_def)
next
  case False
  have gets: "map get (fr_blocks r) = map Inr ds" and fs: "sint (fr_FileSize r) = int (length (concat ds))"
    using assms(1) by (simp_all add: reader_at_def)
  have lens: "length (fr_blocks r) = length ds" using gets map_eq_imp_length_eq by fastforce
  note sb = seek_block_finds [OF gets assms(2), of 0]
  show ?thesis
  proof (cases "target < int (length (concat ds))")
    case True
    with sb obtain j where j: "j < length ds"
      "seek_block get target (fr_blocks r) 0 0 = Inr (Some (j, int (length (concat (take j ds)))))"
      "int (length (concat (take j ds))) \<le> target" "target < int (length (concat (take j ds)) + length (ds ! j))" by auto
    have g: "get (fr_blocks r ! j) = Inr (ds ! j)" using gets j(1) lens by (metis nth_map)
    let ?r = "r\<lparr>fr_cur := j, fr_buf := Some (ds ! j), fr_bufUsed := nat (target - int (length (concat (take j ds)))), fr_pos := target\<rparr>"
    have "freader_Seek get target 0 r = (Inr target, ?r)"
      using False assms(2) j(2) g by (simp add: freader_Seek_def Let_def)
    moreover have "reader_at get ds ?r" using assms(1) j by (auto simp: reader_at_def)
    ultimately show ?thesis using True by auto
  next
    case end_: False
    let ?r = "r\<lparr>fr_cur := length (fr_blocks r), fr_buf := None, fr_bufUsed := 0, fr_pos := sint (fr_FileSize r)\<rparr>"
    have "freader_Seek get target 0 r = (Inr (sint (fr_FileSize r)), ?r)"
      using False assms(2) sb end_ by (simp add: freader_Seek_def Let_def)
    moreover have "reader_at get ds ?r" using assms(1) lens by (simp add: reader_at_def)
    ultimately show ?thesis using end_ fs by auto
  qed
qed

end
