(* ===== verification/MemfsBuilder.thy ===== *)
theory MemfsBuilder
  imports Memfs Dag "HOL-Library.List_Lexorder" "HOL-Library.Char_ord"
begin

text \<open>
  src/core/memfs/builder.go: the level stack that folds the blocks of a file into a tree of FILE nodes, and
  the constructors of directory and symlink nodes. Put and PutMeta of the Blockstore, the protobuf
  marshaller \<open>M\<close> of MemFS nodes and the JSON encoder of object descriptors are arguments.
\<close>

section \<open>The code\<close>

record ObjectInfo =
  oi_Name :: string
  oi_MimeType :: string
  oi_Size :: u64
  oi_IsRoot :: bool

type_synonym marshaller = "MemFSNode \<Rightarrow> bytes option"
type_synonym 's putmeta_op = "'s \<Rightarrow> string \<Rightarrow> bytes \<Rightarrow> gerror option \<times> 's"

text \<open>SetObjectInfo (src/core/store/objectinfo.go) on a store that is not nil.\<close>

definition SetObjectInfo ::
    "hashlib \<Rightarrow> (ObjectInfo \<Rightarrow> bytes result) \<Rightarrow> 's putmeta_op \<Rightarrow> 's \<Rightarrow> MID \<Rightarrow> ObjectInfo \<Rightarrow> gerror option \<times> 's" where
  "SetObjectInfo L json putmeta s m info =
     (if IsZero m then (Some (Msg ''store: zero mid''), s)
      else if oi_Name info = [] \<and> oi_MimeType info = [] then (None, s)
      else case json info of
        Inl err \<Rightarrow> (Some err, s)
      | Inr buf \<Rightarrow> putmeta s (''obj/'' @ MID_String L m) buf)"

type_synonym blockref = "MID \<times> u64"

record fileopts =
  fo_name :: string
  fo_mode :: "32 word"
  fo_mtime :: u64
  fo_mime :: string
  fo_maxBlk :: int

record 's memfsLevelStack =
  fs_bs :: 's
  fs_levels :: "blockref list list"
  fs_totalSize :: u64
  fs_totalLeafs :: u64
  fs_singleData :: bytes

record AddResult =
  ar_MID :: MID
  ar_Size :: u64
  ar_Block :: u64

definition file_node :: "u64 \<Rightarrow> MemFSBlock option list \<Rightarrow> MemFSNode" where
  "file_node fsz blocks =
     \<lparr>fn_Type = MemFSType_FILE, fn_Data = [], fn_FileSize = fsz, fn_Blocks = blocks, fn_Entries = [],
      fn_SymlinkTarget = [], fn_Meta = None, fn_Mode = 0, fn_Mtime = 0\<rparr>"

definition file_block :: "nat \<Rightarrow> blockref \<Rightarrow> MemFSBlock option" where
  "file_block level c = Some \<lparr>fb_Mid = m_Hash (fst c), fb_Size = (if level = 0 then snd c else 0)\<rparr>"

definition memfs_collapse ::
    "hashlib \<Rightarrow> marshaller \<Rightarrow> u64 \<Rightarrow> 's put_op \<Rightarrow> nat \<Rightarrow> blockref list \<Rightarrow> 's \<Rightarrow> blockref result \<times> 's" where
  "memfs_collapse L M alg put level children bs =
     (if length children = 0 then (Inl (Msg ''memfs: collapse called on empty group''), bs)
      else
        let groupSize = (\<Sum>c \<leftarrow> children. snd c);
            node = file_node groupSize (map (file_block level) children)
        in case M node of
             None \<Rightarrow> (Inl (Wrap ''memfs: marshal intermediate: %w'' (Msg ''proto'')), bs)
           | Some raw \<Rightarrow>
               (case FromBytesWithCodec L alg raw CodecMemFS of
                  Inl p \<Rightarrow> (Inl p, bs)
                | Inr nodeMID \<Rightarrow>
                    (case put bs nodeMID raw of
                       (Some e, bs') \<Rightarrow> (Inl (Wrap ''memfs: store intermediate: %w'' e), bs')
                     | (None, bs') \<Rightarrow> (Inr (nodeMID, groupSize), bs'))))"

function memfs_push ::
    "hashlib \<Rightarrow> marshaller \<Rightarrow> u64 \<Rightarrow> 's put_op \<Rightarrow> nat \<Rightarrow> blockref \<Rightarrow> 's memfsLevelStack
     \<Rightarrow> gerror option \<times> 's memfsLevelStack" where
  "memfs_push L M alg put level ref s =
     (let lv = grow_levels level ref (fs_levels s)
      in if length (lv ! level) < Fanout then (None, s\<lparr>fs_levels := lv\<rparr>)
         else case memfs_collapse L M alg put level (lv ! level) (fs_bs s) of
           (Inl e, bs') \<Rightarrow> (Some e, s\<lparr>fs_levels := lv, fs_bs := bs'\<rparr>)
         | (Inr parent, bs') \<Rightarrow>
             memfs_push L M alg put (level + 1) parent (s\<lparr>fs_levels := lv[level := []], fs_bs := bs'\<rparr>))"
  by pat_completeness auto
termination
proof (relation "measure (\<lambda>(L, M, alg, put, level, ref, s). length (fs_levels s) - level)", goal_cases)
  case (2 L M alg put level ref s lv)
  then have "level < length (fs_levels s)"
    using grow_levels_new [of "fs_levels s" level ref] by (force simp: Fanout_def)
  with 2 show ?case by (auto simp: length_grow_levels)
qed simp

declare memfs_push.simps [simp del]

definition pushLeaf ::
    "hashlib \<Rightarrow> marshaller \<Rightarrow> u64 \<Rightarrow> 's put_op \<Rightarrow> MID \<Rightarrow> bytes \<Rightarrow> 's memfsLevelStack
     \<Rightarrow> gerror option \<times> 's memfsLevelStack" where
  "pushLeaf L M alg put m rawData s =
     (let sz = of_nat (length rawData) :: u64;
          s1 = s\<lparr>fs_totalSize := fs_totalSize s + sz, fs_totalLeafs := fs_totalLeafs s + 1\<rparr>;
          s2 = s1\<lparr>fs_singleData := (if fs_totalLeafs s1 = 1 then rawData else [])\<rparr>
      in memfs_push L M alg put 0 (m, sz) s2)"

text \<open>Storing a finished root node and its descriptor; \<open>kind\<close> names the node in the errors.\<close>

definition put_root ::
    "hashlib \<Rightarrow> marshaller \<Rightarrow> u64 \<Rightarrow> 's put_op \<Rightarrow> (ObjectInfo \<Rightarrow> bytes result) \<Rightarrow> 's putmeta_op \<Rightarrow> fileopts
     \<Rightarrow> string \<Rightarrow> MemFSNode \<Rightarrow> u64 \<Rightarrow> u64 \<Rightarrow> 's \<Rightarrow> AddResult result \<times> 's" where
  "put_root L M alg put json putmeta fo kind pb sz blocks bs =
     (case M pb of
        None \<Rightarrow> (Inl (Wrap (''memfs: marshal '' @ kind @ '': %w'') (Msg ''proto'')), bs)
      | Some raw \<Rightarrow>
          (case FromBytesWithCodec L alg raw CodecMemFS of
             Inl p \<Rightarrow> (Inl p, bs)
           | Inr rootMID \<Rightarrow>
               (case put bs rootMID raw of
                  (Some e, bs') \<Rightarrow> (Inl (Wrap (''memfs: store '' @ kind @ '': %w'') e), bs')
                | (None, bs') \<Rightarrow>
                    let ok = Inr \<lparr>ar_MID = rootMID, ar_Size = sz, ar_Block = blocks\<rparr>
                    in if fo_name fo \<noteq> [] then
                         (case SetObjectInfo L json putmeta bs' rootMID
                                 \<lparr>oi_Name = fo_name fo, oi_MimeType = fo_mime fo, oi_Size = sz, oi_IsRoot = False\<rparr> of
                            (Some e, bs2) \<Rightarrow> (Inl (Wrap ''memfs: set objectinfo: %w'' e), bs2)
                          | (None, bs2) \<Rightarrow> (ok, bs2))
                       else (ok, bs'))))"

text \<open>The node of a root: mode, time and MIME type on top of the payload.\<close>

definition root_node :: "fileopts \<Rightarrow> u64 \<Rightarrow> bytes \<Rightarrow> MemFSBlock option list \<Rightarrow> MemFSNode" where
  "root_node fo fsz data blocks =
     (file_node fsz blocks)\<lparr>fn_Data := data, fn_Mode := fo_mode fo,
       fn_Mtime := (if 0 < sint (fo_mtime fo) then fo_mtime fo else 0),
       fn_Meta := (if fo_mime fo \<noteq> [] then Some \<lparr>mm_MimeType = fo_mime fo, mm_Attrs = Map.empty\<rparr> else None)\<rparr>"

definition buildRoot ::
    "hashlib \<Rightarrow> marshaller \<Rightarrow> u64 \<Rightarrow> 's put_op \<Rightarrow> (ObjectInfo \<Rightarrow> bytes result) \<Rightarrow> 's putmeta_op \<Rightarrow> fileopts
     \<Rightarrow> nat \<Rightarrow> blockref list \<Rightarrow> 's memfsLevelStack \<Rightarrow> AddResult result \<times> 's" where
  "buildRoot L M alg put json putmeta fo level children s =
     (let pb = (if fs_totalLeafs s = 1 \<and> 0 < length (fs_singleData s) \<and> int (length (fs_singleData s)) \<le> fo_maxBlk fo
                then root_node fo (fs_totalSize s) (fs_singleData s) [file_block 0 (children ! 0)]
                else root_node fo (fs_totalSize s) [] (map (file_block level) children))
      in put_root L M alg put json putmeta fo ''root file node'' pb (fs_totalSize s) (fs_totalLeafs s) (fs_bs s))"

text \<open>The loop of finalize; \<open>None\<close> means the fuel did not suffice.\<close>

fun memfs_finalize_loop ::
    "hashlib \<Rightarrow> marshaller \<Rightarrow> u64 \<Rightarrow> 's put_op \<Rightarrow> (ObjectInfo \<Rightarrow> bytes result) \<Rightarrow> 's putmeta_op \<Rightarrow> fileopts
     \<Rightarrow> nat \<Rightarrow> nat \<Rightarrow> 's memfsLevelStack \<Rightarrow> (AddResult result \<times> 's) option" where
  "memfs_finalize_loop L M alg put json putmeta fo 0 i s = None"
| "memfs_finalize_loop L M alg put json putmeta fo (Suc n) i s =
     (if \<not> i < length (fs_levels s) then Some (Inl (Msg ''memfs: empty file''), fs_bs s)
      else let l = fs_levels s ! i in
        if length l = 0 then memfs_finalize_loop L M alg put json putmeta fo n (i + 1) s
        else if topmost i (fs_levels s) then Some (buildRoot L M alg put json putmeta fo i l s)
        else case memfs_collapse L M alg put i l (fs_bs s) of
          (Inl e, bs') \<Rightarrow> Some (Inl e, bs')
        | (Inr parent, bs') \<Rightarrow>
            (case memfs_push L M alg put (i + 1) parent (s\<lparr>fs_levels := (fs_levels s)[i := []], fs_bs := bs'\<rparr>) of
               (Some e, s') \<Rightarrow> Some (Inl e, fs_bs s')
             | (None, s') \<Rightarrow> memfs_finalize_loop L M alg put json putmeta fo n (i + 1) s'))"

definition memfs_finalize ::
    "hashlib \<Rightarrow> marshaller \<Rightarrow> u64 \<Rightarrow> 's put_op \<Rightarrow> (ObjectInfo \<Rightarrow> bytes result) \<Rightarrow> 's putmeta_op \<Rightarrow> fileopts
     \<Rightarrow> nat \<Rightarrow> 's memfsLevelStack \<Rightarrow> (AddResult result \<times> 's) option" where
  "memfs_finalize L M alg put json putmeta fo fuel s =
     (if fs_totalLeafs s = 0
      then Some (put_root L M alg put json putmeta fo ''empty file node'' (root_node fo 0 [] []) 0 0 (fs_bs s))
      else memfs_finalize_loop L M alg put json putmeta fo fuel 0 s)"

definition new_stack :: "'s \<Rightarrow> 's memfsLevelStack" where
  "new_stack bs = \<lparr>fs_bs = bs, fs_levels = [], fs_totalSize = 0, fs_totalLeafs = 0, fs_singleData = []\<rparr>"

section \<open>The pipeline of AddFile\<close>

text \<open>
  AddFile without erasure coding. A producer reads the chunks, workers hash them and store them in
  batches, the consumer puts the results back into order and pushes them onto the level stack. All of
  them share the store, so the order of their effects is an argument: a list of actions, each a
  worker's flush of some of the waiting chunks or the consumer's receipt of one of the results sent.
\<close>

record chunkResult =
  cr_idx :: nat
  cr_mid :: MID
  cr_data :: bytes
  cr_err :: "gerror option"

definition failed_chunk :: "nat \<Rightarrow> gerror \<Rightarrow> chunkResult" where
  "failed_chunk i e = \<lparr>cr_idx = i, cr_mid = MID_zero, cr_data = [], cr_err = Some e\<rparr>"

type_synonym 's putbatch_op = "'s \<Rightarrow> (MID \<times> bytes) list \<Rightarrow> gerror option \<times> 's"

text \<open>The producer: the chunks read and the error that ended the stream, unless it was io.EOF.\<close>

fun read_chunks :: "('c \<Rightarrow> Block result \<times> 'c) \<Rightarrow> nat \<Rightarrow> 'c \<Rightarrow> (bytes list \<times> gerror option) option" where
  "read_chunks next 0 c = None"
| "read_chunks next (Suc n) c =
     (case next c of
        (Inl err, c') \<Rightarrow>
          if errors_Is err io_EOF then Some ([], None)
          else Some ([], Some (Wrap ''memfs: read chunk: %w'' err))
      | (Inr blk, c') \<Rightarrow> map_option (\<lambda>(ds, e). (Block_Data blk # ds, e)) (read_chunks next n c'))"

text \<open>A worker's loop body for each chunk of a batch; a panic of FromBytes ends the process.\<close>

fun hash_chunks :: "hashlib \<Rightarrow> u64 \<Rightarrow> (nat \<times> bytes) list \<Rightarrow> chunkResult list result" where
  "hash_chunks L alg [] = Inr []"
| "hash_chunks L alg ((i, d) # work) =
     (case FromBytes L alg d of
        Inl p \<Rightarrow> Inl p
      | Inr lm \<Rightarrow>
          (case hash_chunks L alg work of
             Inl p \<Rightarrow> Inl p
           | Inr rs \<Rightarrow> Inr (\<lparr>cr_idx = i, cr_mid = lm, cr_data = d, cr_err = None\<rparr> # rs)))"

definition flushRaw ::
    "hashlib \<Rightarrow> u64 \<Rightarrow> 's putbatch_op \<Rightarrow> (nat \<times> bytes) list \<Rightarrow> 's \<Rightarrow> chunkResult list result \<times> 's" where
  "flushRaw L alg putbatch work bs =
     (case hash_chunks L alg work of
        Inl p \<Rightarrow> (Inl p, bs)
      | Inr rs \<Rightarrow>
          (case putbatch bs (map (\<lambda>r. (cr_mid r, cr_data r)) rs) of
             (Some e, bs') \<Rightarrow> (Inr (map (\<lambda>r. failed_chunk (cr_idx r) (Wrap ''memfs: store raw block: %w'' e)) rs), bs')
           | (None, bs') \<Rightarrow> (Inr rs, bs')))"

record 's pipeline =
  pl_work :: "(nat \<times> bytes) list"
  pl_sent :: "chunkResult list"
  pl_pending :: "(nat \<times> chunkResult) list"
  pl_next :: nat
  pl_stack :: "'s memfsLevelStack"

text \<open>The consumer's inner loop over the map pending.\<close>

function push_pending ::
    "hashlib \<Rightarrow> marshaller \<Rightarrow> u64 \<Rightarrow> 's put_op \<Rightarrow> (nat \<times> chunkResult) list \<Rightarrow> nat \<Rightarrow> 's memfsLevelStack
     \<Rightarrow> gerror option \<times> (nat \<times> chunkResult) list \<times> nat \<times> 's memfsLevelStack" where
  "push_pending L M alg put pending nextIdx s =
     (case map_of pending nextIdx of
        None \<Rightarrow> (None, pending, nextIdx, s)
      | Some it \<Rightarrow>
          let pending' = filter (\<lambda>e. fst e \<noteq> nextIdx) pending in
          (case pushLeaf L M alg put (cr_mid it) (cr_data it) s of
             (Some e, s') \<Rightarrow> (Some e, pending', nextIdx, s')
           | (None, s') \<Rightarrow> push_pending L M alg put pending' (nextIdx + 1) s'))"
  by pat_completeness auto
termination
  by (relation "measure (\<lambda>(L, M, alg, put, pending, nextIdx, s). length pending)")
    (auto dest: map_of_SomeD intro!: length_filter_less)

declare push_pending.simps [simp del]

datatype file_action = Flush "nat list" | Recv nat

text \<open>One action: \<open>None\<close> where it is not possible, \<open>Inl\<close> where AddFile returns an error.\<close>

fun file_step ::
    "hashlib \<Rightarrow> marshaller \<Rightarrow> u64 \<Rightarrow> 's put_op \<Rightarrow> 's putbatch_op \<Rightarrow> file_action \<Rightarrow> 's pipeline
     \<Rightarrow> (gerror \<times> 's + 's pipeline) option" where
  "file_step L M alg put putbatch (Flush idxs) p =
     (if idxs = [] \<or> 32 < length idxs \<or> \<not> distinct idxs \<or> \<not> set idxs \<subseteq> fst ` set (pl_work p) then None
      else case flushRaw L alg putbatch (map (\<lambda>i. (i, the (map_of (pl_work p) i))) idxs) (fs_bs (pl_stack p)) of
        (Inl e, bs') \<Rightarrow> Some (Inl (e, bs'))
      | (Inr rs, bs') \<Rightarrow>
          Some (Inr (p\<lparr>pl_work := filter (\<lambda>e. fst e \<notin> set idxs) (pl_work p), pl_sent := pl_sent p @ rs,
                       pl_stack := (pl_stack p)\<lparr>fs_bs := bs'\<rparr>\<rparr>)))"
| "file_step L M alg put putbatch (Recv k) p =
     (if \<not> k < length (pl_sent p) then None
      else let res = pl_sent p ! k; sent' = take k (pl_sent p) @ drop (Suc k) (pl_sent p) in
        case cr_err res of
          Some e \<Rightarrow> Some (Inl (e, fs_bs (pl_stack p)))
        | None \<Rightarrow>
            (case push_pending L M alg put ((cr_idx res, res) # filter (\<lambda>e. fst e \<noteq> cr_idx res) (pl_pending p))
                    (pl_next p) (pl_stack p) of
               (Some e, pending', next', s') \<Rightarrow> Some (Inl (e, fs_bs s'))
             | (None, pending', next', s') \<Rightarrow>
                 Some (Inr (p\<lparr>pl_sent := sent', pl_pending := pending', pl_next := next', pl_stack := s'\<rparr>))))"

fun file_run ::
    "hashlib \<Rightarrow> marshaller \<Rightarrow> u64 \<Rightarrow> 's put_op \<Rightarrow> 's putbatch_op \<Rightarrow> file_action list \<Rightarrow> 's pipeline
     \<Rightarrow> (gerror \<times> 's + 's pipeline) option" where
  "file_run L M alg put putbatch [] p = Some (Inr p)"
| "file_run L M alg put putbatch (a # acts) p =
     (case file_step L M alg put putbatch a p of
        None \<Rightarrow> None
      | Some (Inl e) \<Rightarrow> Some (Inl e)
      | Some (Inr p') \<Rightarrow> file_run L M alg put putbatch acts p')"

definition start_pipeline :: "bytes list \<Rightarrow> gerror option \<Rightarrow> 's \<Rightarrow> 's pipeline" where
  "start_pipeline ds err bs =
     \<lparr>pl_work = zip [0..<length ds] ds,
      pl_sent = (case err of None \<Rightarrow> [] | Some e \<Rightarrow> [failed_chunk 0 e]),
      pl_pending = [], pl_next = 0, pl_stack = new_stack bs\<rparr>"

text \<open>
  AddFile over an opened chunker; a nil blockstore or reader is \<open>None\<close>. The result is \<open>None\<close> where the actions
  do not form a complete run or the fuel does not suffice.
\<close>

definition AddFile ::
    "hashlib \<Rightarrow> marshaller \<Rightarrow> u64 \<Rightarrow> 's put_op \<Rightarrow> 's putbatch_op \<Rightarrow> (ObjectInfo \<Rightarrow> bytes result) \<Rightarrow> 's putmeta_op
     \<Rightarrow> ('c \<Rightarrow> Block result \<times> 'c) \<Rightarrow> fileopts \<Rightarrow> nat \<Rightarrow> file_action list \<Rightarrow> 's option \<Rightarrow> 'c option
     \<Rightarrow> (AddResult result \<times> 's option) option" where
  "AddFile L M alg put putbatch json putmeta next fo fuel acts bso co =
     (case bso of
        None \<Rightarrow> Some (Inl (Msg ''memfs: nil blockstore''), None)
      | Some bs \<Rightarrow>
          (case co of
             None \<Rightarrow> Some (Inl (Msg ''memfs: nil reader''), Some bs)
           | Some c \<Rightarrow>
               (case read_chunks next fuel c of
                  None \<Rightarrow> None
                | Some (ds, err) \<Rightarrow>
                    (case file_run L M alg put putbatch acts (start_pipeline ds err bs) of
                       None \<Rightarrow> None
                     | Some (Inl (e, bs')) \<Rightarrow> Some (Inl e, Some bs')
                     | Some (Inr p) \<Rightarrow>
                         if pl_work p \<noteq> [] \<or> pl_sent p \<noteq> [] then None
                         else map_option (\<lambda>(r, bs'). (r, Some bs'))
                                (memfs_finalize L M alg put json putmeta fo fuel (pl_stack p))))))"

text \<open>WithBlockSize: the chunk size is clamped to what the chunker accepts.\<close>

definition WithBlockSize :: "int \<Rightarrow> int" where
  "WithBlockSize n =
     (let n1 = (if n < int MinBlockSize then int MinBlockSize else n)
      in if n1 > int MaxBlockSize then int MaxBlockSize else n1)"

section \<open>Directories and symlinks\<close>

text \<open>
  Entries are sorted by name, byte-wise. sort.Slice may order entries of the same name either way;
  with distinct names the result is unique.
\<close>

definition sortDirEntries :: "DirEntryValue list \<Rightarrow> DirEntryValue list" where
  "sortDirEntries es = sort_key dv_Name es"

definition dir_node :: "DirEntryValue list \<Rightarrow> 32 word \<Rightarrow> u64 \<Rightarrow> MemFSNode" where
  "dir_node es mode mtime =
     (file_node 0 [])\<lparr>fn_Type := MemFSType_DIR, fn_Mode := mode,
       fn_Mtime := (if 0 < sint mtime then mtime else 0),
       fn_Entries := map (\<lambda>e. Some \<lparr>de_Name = dv_Name e, de_Mid = m_Hash (dv_Mid e), de_Type = dv_Type e, de_Size = dv_Size e\<rparr>) es\<rparr>"

definition AddDir ::
    "hashlib \<Rightarrow> marshaller \<Rightarrow> u64 \<Rightarrow> 's put_op \<Rightarrow> (ObjectInfo \<Rightarrow> bytes result) \<Rightarrow> 's putmeta_op \<Rightarrow> 's option
     \<Rightarrow> string \<Rightarrow> DirEntryValue list \<Rightarrow> 32 word \<Rightarrow> u64 \<Rightarrow> AddResult result \<times> 's option" where
  "AddDir L M alg put json putmeta bso name entries mode mtime =
     (case bso of
        None \<Rightarrow> (Inl (Msg ''memfs: nil blockstore''), None)
      | Some bs \<Rightarrow>
          let sorted' = sortDirEntries entries; pb = dir_node sorted' mode mtime;
              tot = (\<Sum>e \<leftarrow> sorted'. dv_Size e)
          in case M pb of
               None \<Rightarrow> (Inl (Wrap ''memfs: marshal dir: %w'' (Msg ''proto'')), Some bs)
             | Some raw \<Rightarrow>
                 (case FromBytesWithCodec L alg raw CodecMemFS of
                    Inl p \<Rightarrow> (Inl p, Some bs)
                  | Inr rootMID \<Rightarrow>
                      (case put bs rootMID raw of
                         (Some e, bs') \<Rightarrow> (Inl (Wrap ''memfs: store dir: %w'' e), Some bs')
                       | (None, bs') \<Rightarrow>
                           let ok = Inr \<lparr>ar_MID = rootMID, ar_Size = tot, ar_Block = 1\<rparr>
                           in if name \<noteq> [] then
                                (case SetObjectInfo L json putmeta bs' rootMID
                                        \<lparr>oi_Name = name, oi_MimeType = ''inode/directory'', oi_Size = tot, oi_IsRoot = False\<rparr> of
                                   (Some e, bs2) \<Rightarrow> (Inl (Wrap ''memfs: set objectinfo: %w'' e), Some bs2)
                                 | (None, bs2) \<Rightarrow> (ok, Some bs2))
                              else (ok, Some bs'))))"

definition AddSymlink ::
    "hashlib \<Rightarrow> marshaller \<Rightarrow> u64 \<Rightarrow> 's put_op \<Rightarrow> 's option \<Rightarrow> string \<Rightarrow> 32 word \<Rightarrow> u64
     \<Rightarrow> AddResult result \<times> 's option" where
  "AddSymlink L M alg put bso target mode mtime =
     (case bso of
        None \<Rightarrow> (Inl (Msg ''memfs: nil blockstore''), None)
      | Some bs \<Rightarrow>
          let pb = (file_node 0 [])\<lparr>fn_Type := MemFSType_SYMLINK, fn_SymlinkTarget := target, fn_Mode := mode,
                      fn_Mtime := (if 0 < sint mtime then mtime else 0)\<rparr>
          in case M pb of
               None \<Rightarrow> (Inl (Wrap ''memfs: marshal symlink: %w'' (Msg ''proto'')), Some bs)
             | Some raw \<Rightarrow>
                 (case FromBytesWithCodec L alg raw CodecMemFS of
                    Inl p \<Rightarrow> (Inl p, Some bs)
                  | Inr rootMID \<Rightarrow>
                      (case put bs rootMID raw of
                         (Some e, bs') \<Rightarrow> (Inl (Wrap ''memfs: store symlink: %w'' e), Some bs')
                       | (None, bs') \<Rightarrow>
                           (Inr \<lparr>ar_MID = rootMID, ar_Size = of_nat (length target), ar_Block = 1\<rparr>, Some bs'))))"

end
