(* ===== verification/MemfsTree.thy ===== *)
theory MemfsTree
  imports MemfsBuilder
begin

text \<open>
  The tree of nodes that the level stack of src/core/memfs/builder.go builds, as a function of the chunks: \<open>mbatch\<close> groups
  whole levels until fewer than Fanout trees are left, which become the children of the root.
\<close>

section \<open>The batch reduction of a file\<close>

function mbatch :: "dtree list \<Rightarrow> dtree list" where
  "mbatch xs = (if length xs < Fanout then xs else mbatch (map Node (groups_of Fanout xs)))"
  by pat_completeness auto
termination
proof (relation "measure length", goal_cases)
  case (2 xs)
  then have "Suc 0 < length xs" using Fanout_gt(2) by linarith
  then show ?case by (simp add: groups_shrink)
qed simp

declare mbatch.simps [simp del]

lemma mbatch_small: "length xs < Fanout \<Longrightarrow> mbatch xs = xs"
  by (simp add: mbatch.simps)

lemma mbatch_large: "\<not> length xs < Fanout \<Longrightarrow> mbatch xs = mbatch (map Node (groups_of Fanout xs))"
  by (simp add: mbatch.simps)

lemma content_mbatch: "concat (map content (mbatch xs)) = concat (map content xs)"
proof (induction xs rule: mbatch.induct)
  case (1 xs)
  show ?case
  proof (cases "length xs < Fanout")
    case False
    have "concat (map content (mbatch xs)) = concat (map content (map Node (groups_of Fanout xs)))"
      unfolding mbatch_large [OF False] using False by (rule "1.IH")
    also have "\<dots> = concat (map content xs)" by (rule content_groups) simp
    finally show ?thesis .
  qed (simp add: mbatch_small)
qed

text \<open>The loop of finalize on trees: flush level by level until the rest above is empty.\<close>

fun mfin :: "nat \<Rightarrow> dtree list list \<Rightarrow> dtree list option" where
  "mfin 0 ls = None"
| "mfin (Suc n) [] = None"
| "mfin (Suc n) (l # ls) =
     (if l = [] then mfin n ls
      else if list_all (\<lambda>l. l = []) ls then Some l
      else mfin n (tpush ls (Node l)))"

lemma tstack_cases:
  assumes "xs \<noteq> []"
  shows "tstack xs = drop (complete xs) xs # tstack (map Node (groups_of Fanout (take (complete xs) xs)))"
  using assms by (simp add: tstack.simps [of xs])

text \<open>What is above an open group is the stack of all groups, once the open one is pushed.\<close>

lemma tstack_above:
  assumes "xs \<noteq> []"
  shows "tstack (map Node (groups_of Fanout xs)) =
    (let r = drop (complete xs) xs; above = tstack (map Node (groups_of Fanout (take (complete xs) xs)))
     in if r = [] then above else tpush above (Node r))"
proof (cases "drop (complete xs) xs = []")
  case True
  then have "take (complete xs) xs = xs" by (metis append_Nil2 append_take_drop_id)
  with True show ?thesis by (simp add: Let_def)
next
  case False
  then show ?thesis by (simp add: Let_def tpush_tstack groups_split [OF False])
qed

lemma mfin_tstack: "xs \<noteq> [] \<Longrightarrow> length xs \<le> n \<Longrightarrow> mfin n (tstack xs) = Some (mbatch xs)"
proof (induction n arbitrary: xs)
  case (Suc n)
  let ?r = "drop (complete xs) xs" and ?above = "tstack (map Node (groups_of Fanout (take (complete xs) xs)))"
  note st = tstack_cases [OF Suc.prems(1)]
  show ?case
  proof (cases "length xs < Fanout")
    case True
    then have "complete xs = 0" by (simp add: complete_def)
    with st True Suc.prems(1) show ?thesis by (simp add: mbatch_small)
  next
    case False
    then have two: "Suc 0 < length xs" using Fanout_gt(2) by linarith
    have shrink: "length (groups_of Fanout xs) < length xs" using two by (rule groups_shrink)
    have ne: "groups_of Fanout xs \<noteq> []" using Suc.prems(1) by (simp add: groups_of.simps [of Fanout xs])
    have rec: "mfin n (tstack (map Node (groups_of Fanout xs))) = Some (mbatch xs)"
      using Suc.IH [of "map Node (groups_of Fanout xs)"] Suc.prems shrink ne mbatch_large [OF False] by simp
    have "0 < length xs div Fanout" using False by (simp add: div_greater_zero_iff)
    then have "groups_of Fanout (take (complete xs) xs) \<noteq> []" using length_complete_groups [of xs] by auto
    then have "\<not> list_all (\<lambda>l. l = []) ?above" using tstack_all_empty by simp
    then have "mfin (Suc n) (tstack xs) = mfin n (if ?r = [] then ?above else tpush ?above (Node ?r))"
      unfolding st mfin.simps by (simp only: if_False split: if_split) blast
    also have "\<dots> = mfin n (tstack (map Node (groups_of Fanout xs)))"
      unfolding tstack_above [OF Suc.prems(1)] Let_def ..
    finally show ?thesis using rec by simp
  qed
qed simp

section \<open>Levels\<close>

fun is_leaf :: "dtree \<Rightarrow> bool" where
  "is_leaf (Leaf d) = True"
| "is_leaf (Node ts) = False"

text \<open>From level \<open>k\<close> on: chunks at level 0, nodes above.\<close>

fun tidy :: "nat \<Rightarrow> dtree list list \<Rightarrow> bool" where
  "tidy k [] = True"
| "tidy k (l # ls) = ((\<forall>t \<in> set l. is_leaf t \<longleftrightarrow> k = 0) \<and> tidy (Suc k) ls)"

lemma tidy_tpush: "tidy k ls \<Longrightarrow> is_leaf t \<longleftrightarrow> k = 0 \<Longrightarrow> tidy k (tpush ls t)"
  by (induction ls arbitrary: k t) auto

lemma tidy_tstack: "(\<And>t. t \<in> set xs \<Longrightarrow> is_leaf t \<longleftrightarrow> k = 0) \<Longrightarrow> tidy k (tstack xs)"
proof (induction xs arbitrary: k rule: tstack.induct)
  case (1 xs)
  show ?case
  proof (cases "xs = []")
    case False
    moreover have "tidy (Suc k) (tstack (map Node (groups_of Fanout (take (complete xs) xs))))"
      using False by (rule "1.IH") auto
    ultimately show ?thesis using "1.prems" by (auto simp: tstack_cases dest: in_set_dropD)
  qed simp
qed

lemma forest_tpush: "forest ls \<union> subtrees t \<subseteq> forest (tpush ls t)"
proof (induction ls arbitrary: t)
  case (Cons l ls)
  show ?case
  proof (cases "Suc (length l) < Fanout")
    case False
    with Cons.IH [of "Node (l @ [t])"] show ?thesis by auto
  qed auto
qed simp

lemma forest_mfin: "mfin n ls = Some tp \<Longrightarrow> forest ls \<subseteq> forest [tp]"
proof (induction n ls rule: mfin.induct)
  case (3 n l ls)
  show ?case
  proof (cases "l = [] \<or> list_all (\<lambda>l. l = []) ls")
    case True
    moreover have "forest ls = {}" if "list_all (\<lambda>l. l = []) ls" using that by (auto simp: forest_def list_all_iff)
    ultimately show ?thesis using 3 by (auto split: if_splits)
  next
    case False
    then have "forest (tpush ls (Node l)) \<subseteq> forest [tp]" using 3 by simp
    with forest_tpush [of ls "Node l"] show ?thesis by auto
  qed
qed simp_all

text \<open>The trees of the stack of a prefix of the chunks are trees of the whole file.\<close>

lemma forest_tstack_mono: "forest (tstack xs) \<subseteq> forest (tstack (xs @ ys))"
proof (induction ys rule: rev_induct)
  case (snoc y ys)
  have "forest (tstack (xs @ ys)) \<subseteq> forest (tpush (tstack (xs @ ys)) y)" using forest_tpush by blast
  with snoc show ?case by (simp add: tpush_tstack)
qed simp

lemma forest_mbatch: "forest (tstack xs) \<subseteq> forest [mbatch xs]"
  using forest_mfin [OF mfin_tstack [of xs "length xs"]] by (cases "xs = []") auto

section \<open>Blocks\<close>

text \<open>The identifier of content under a codec; the codec does not change the hash.\<close>

definition codec_mid :: "hashlib \<Rightarrow> u64 \<Rightarrow> u64 \<Rightarrow> bytes \<Rightarrow> MID" where
  "codec_mid L alg c d = (case FromBytesWithCodec L alg d c of Inl _ \<Rightarrow> MID_zero | Inr m \<Rightarrow> m)"

lemma codec_mid_ok:
  assumes "hashlib_ok L"
  shows "FromBytesWithCodec L alg d c = Inr (codec_mid L alg c d)" "mid_wf L (codec_mid L alg c d)"
    "m_codec (codec_mid L alg c d) = c"
  using FromBytesWithCodec_ok [OF assms, of alg d c] by (auto simp: codec_mid_def)

lemma codec_mid_raw: "codec_mid L alg CodecRaw d = mid_of L alg d"
  by (simp add: codec_mid_def mid_of_def FromBytes_WithCodec)

lemma fromCodecAndHashErr_fails: "fromCodecAndHashErr L cidVersion1 c mh = Inl e \<Longrightarrow> validateEnvelope L mh \<noteq> Inr ()"
  using fromCodecAndHashErr_ok_iff [of L cidVersion1 c mh] by auto

lemma codec_mid_hash:
  assumes "hashlib_ok L"
  shows "m_Hash (codec_mid L alg c d) = m_Hash (mid_of L alg d)"
proof -
  have hash: "m_Hash m = m_Hash m'" if "FromBytesWithCodec L alg d c = Inr m" "FromBytesWithCodec L alg d c' = Inr m'" for m m' c c'
    using that by (auto simp: FromBytesWithCodec_def FromBytesWithCodecAndHash_def sha_fallback_def
        FromCodecAndHash_def fromCodecAndHashErr_ok_iff Let_def
        dest: fromCodecAndHashErr_fails split: option.splits sum.splits)
  show ?thesis using hash [OF codec_mid_ok(1) codec_mid_ok(1), OF assms assms] by (metis codec_mid_raw)
qed

lemma verify_codec_mid:
  assumes "hashlib_ok L"
  shows "verifyContent L alg (codec_mid L alg c d) d = None"
proof -
  have "DigestBytes L (codec_mid L alg c d) = DigestBytes L (mid_of L alg d)"
    using codec_mid_hash [OF assms, of alg c d] by (simp add: DigestBytes_def)
  then show ?thesis
    using verifyContent_FromBytes [OF mid_of_ok(1) [OF assms], of alg d] by (simp add: verifyContent_def)
qed

fun fdata :: "hashlib \<Rightarrow> marshaller \<Rightarrow> u64 \<Rightarrow> dtree \<Rightarrow> bytes" where
  "fdata L M alg (Leaf d) = d"
| "fdata L M alg (Node ts) =
     (case M (file_node (of_nat (length (concat (map content ts))))
         (map (\<lambda>t. Some \<lparr>fb_Mid = m_Hash (mid_of L alg (fdata L M alg t)),
                        fb_Size = (if is_leaf t then of_nat (length (content t)) else 0)\<rparr>) ts)) of
        None \<Rightarrow> [] | Some raw \<Rightarrow> raw)"

definition fblock :: "hashlib \<Rightarrow> marshaller \<Rightarrow> u64 \<Rightarrow> dtree \<Rightarrow> MemFSBlock option" where
  "fblock L M alg t = Some \<lparr>fb_Mid = m_Hash (mid_of L alg (fdata L M alg t)),
     fb_Size = (if is_leaf t then of_nat (length (content t)) else 0)\<rparr>"

definition fmid :: "hashlib \<Rightarrow> marshaller \<Rightarrow> u64 \<Rightarrow> dtree \<Rightarrow> MID" where
  "fmid L M alg t = codec_mid L alg (if is_leaf t then CodecRaw else CodecMemFS) (fdata L M alg t)"

definition fref :: "hashlib \<Rightarrow> marshaller \<Rightarrow> u64 \<Rightarrow> dtree \<Rightarrow> blockref" where
  "fref L M alg t = (fmid L M alg t, of_nat (length (content t)))"

definition tree_node :: "hashlib \<Rightarrow> marshaller \<Rightarrow> u64 \<Rightarrow> dtree list \<Rightarrow> MemFSNode" where
  "tree_node L M alg ts = file_node (of_nat (length (concat (map content ts)))) (map (fblock L M alg) ts)"

lemma fmid_wf: "hashlib_ok L \<Longrightarrow> mid_wf L (fmid L M alg t)"
  by (simp add: fmid_def codec_mid_ok)

lemma file_block_fref:
  "hashlib_ok L \<Longrightarrow> is_leaf t \<longleftrightarrow> level = 0 \<Longrightarrow> file_block level (fref L M alg t) = fblock L M alg t"
  by (simp add: file_block_def fref_def fblock_def fmid_def codec_mid_hash)

lemma sum_fref: "(\<Sum>c \<leftarrow> map (fref L M alg) ts. snd c) = of_nat (length (concat (map content ts)))"
  by (induction ts) (simp_all add: fref_def)

text \<open>
  What is required of the protobuf runtime: a FILE node without entries, attributes and link target, all of
  whose block references are there and whose MIME type is ASCII, is marshalled to bytes that
  unmarshal to it again. The bytes are not empty since the type is not the default.
\<close>

definition plain_file :: "MemFSNode \<Rightarrow> bool" where
  "plain_file n \<longleftrightarrow> fn_Type n = MemFSType_FILE \<and> fn_Entries n = [] \<and> fn_SymlinkTarget n = [] \<and>
     None \<notin> set (fn_Blocks n) \<and>
     (\<forall>m. fn_Meta n = Some m \<longrightarrow>
        mm_MimeType m \<noteq> [] \<and> (\<forall>c \<in> set (mm_MimeType m). (of_char c :: nat) < 128) \<and> mm_Attrs m = Map.empty)"

definition memfs_proto_ok :: "protolib \<Rightarrow> marshaller \<Rightarrow> bool" where
  "memfs_proto_ok P M \<longleftrightarrow>
     (\<forall>n. plain_file n \<longrightarrow> (\<exists>raw. M n = Some raw \<and> raw \<noteq> [] \<and> pb_MemFSNode_Unmarshal P raw = Some n))"

lemma plain_tree_node: "plain_file (tree_node L M alg ts)"
  by (auto simp: plain_file_def tree_node_def file_node_def fblock_def)

lemma fdata_Node:
  assumes "memfs_proto_ok P M"
  shows "M (tree_node L M alg ts) = Some (fdata L M alg (Node ts))"
    "pb_MemFSNode_Unmarshal P (fdata L M alg (Node ts)) = Some (tree_node L M alg ts)"
proof -
  obtain raw where raw: "M (tree_node L M alg ts) = Some raw" "pb_MemFSNode_Unmarshal P raw = Some (tree_node L M alg ts)"
    using assms plain_tree_node unfolding memfs_proto_ok_def by blast
  have "fdata L M alg (Node ts) = raw"
    using raw(1) unfolding tree_node_def fblock_def [abs_def] by simp
  with raw show "M (tree_node L M alg ts) = Some (fdata L M alg (Node ts))"
    "pb_MemFSNode_Unmarshal P (fdata L M alg (Node ts)) = Some (tree_node L M alg ts)" by simp_all
qed

declare fdata.simps(2) [simp del]

end
