(* ===== verification/MemfsLaws.thy ===== *)
theory MemfsLaws
  imports MemfsTree
begin

text \<open>
  What src/core/memfs/builder.go promises over any store that keeps its contract: the level stack stores exactly the tree
  of MemfsTree, for every interleaving of the workers' batches with the consumer, and the reader of
  reader.go gets the file's bytes back from it.
\<close>

section \<open>The contract\<close>

text \<open>No two of the contents in \<open>D\<close> have the same hash.\<close>

definition no_clash :: "hashlib \<Rightarrow> u64 \<Rightarrow> bytes set \<Rightarrow> bool" where
  "no_clash L alg D \<longleftrightarrow> inj_on (\<lambda>d. m_Hash (mid_of L alg d)) D"

text \<open>What AddFile needs of a store beyond Put and Get.\<close>

locale file_store = blockstore L alg put get blocks key invar
  for L :: hashlib and alg :: u64 and put :: "'s \<Rightarrow> MID \<Rightarrow> bytes \<Rightarrow> gerror option \<times> 's"
    and get :: "'s \<Rightarrow> MID \<Rightarrow> bytes result" and blocks :: "'s \<Rightarrow> 'k \<Rightarrow> bytes option"
    and key :: "MID \<Rightarrow> 'k" and invar :: "'s \<Rightarrow> bool" +
  fixes putbatch :: "'s \<Rightarrow> (MID \<times> bytes) list \<Rightarrow> gerror option \<times> 's"
    and putmeta :: "'s \<Rightarrow> string \<Rightarrow> bytes \<Rightarrow> gerror option \<times> 's"
  assumes key_hash: "invar s \<Longrightarrow> mid_wf L m \<Longrightarrow> mid_wf L m' \<Longrightarrow> key m = key m' \<Longrightarrow> m_Hash m = m_Hash m'"
    and putbatch_stores: "invar s \<Longrightarrow> (\<And>m d. (m, d) \<in> set bl \<Longrightarrow> mid_wf L m \<and> verifyContent L alg m d = None) \<Longrightarrow>
      \<exists>s'. putbatch s bl = (None, s') \<and> invar s' \<and> blocks s' = fold (\<lambda>(m, d) b. b(key m \<mapsto> d)) bl (blocks s)"
    and putmeta_keeps: "invar s \<Longrightarrow> k \<noteq> [] \<Longrightarrow> \<exists>s'. putmeta s k v = (None, s') \<and> invar s' \<and> blocks s' = blocks s"
begin

text \<open>The contents in \<open>X\<close> are stored, each under its identifier with the codec it is paired with.\<close>

definition kept :: "(u64 \<times> bytes) set \<Rightarrow> 's \<Rightarrow> bool" where
  "kept X s \<longleftrightarrow> invar s \<and> (\<forall>(c, d) \<in> X. blocks s (key (codec_mid L alg c d)) = Some d)"

text \<open>So are the trees in \<open>W\<close>, each under its own identifier.\<close>

definition holds :: "marshaller \<Rightarrow> (u64 \<times> bytes) set \<Rightarrow> dtree set \<Rightarrow> 's \<Rightarrow> bool" where
  "holds M X W s \<longleftrightarrow> kept X s \<and> (\<forall>u \<in> W. blocks s (key (fmid L M alg u)) = Some (fdata L M alg u))"

lemma kept_invar [dest]: "kept X s \<Longrightarrow> invar s"
  by (simp add: kept_def)

lemma holds_invar [dest]: "holds M X W s \<Longrightarrow> invar s"
  by (simp add: holds_def kept_def)

lemma same_key:
  assumes "hashlib_ok L" "invar s" "no_clash L alg D" "d \<in> D" "d' \<in> D"
    "key (codec_mid L alg c d) = key (codec_mid L alg c' d')"
  shows "d = d'"
proof -
  have "m_Hash (codec_mid L alg c d) = m_Hash (codec_mid L alg c' d')"
    using key_hash [OF assms(2) codec_mid_ok(2) codec_mid_ok(2)] assms(1,6) by blast
  then show ?thesis
    using assms(3-5) unfolding codec_mid_hash [OF assms(1)] no_clash_def by (metis inj_onD)
qed

lemma put_holds:
  assumes "hashlib_ok L" "no_clash L alg (snd ` X \<union> D)" "holds M X W s" "fdata L M alg ` W \<subseteq> D" "d \<in> D"
  shows "\<exists>s'. put s (codec_mid L alg c d) d = (None, s') \<and> holds M X W s' \<and>
    blocks s' = (blocks s)(key (codec_mid L alg c d) \<mapsto> d)"
proof -
  have inv: "invar s" using assms(3) by blast
  obtain s' where s': "put s (codec_mid L alg c d) d = (None, s')" "invar s'"
      "blocks s' = (blocks s)(key (codec_mid L alg c d) \<mapsto> d)"
    using put_stores [OF inv codec_mid_ok(2) [OF assms(1)] verify_codec_mid [OF assms(1)]] by blast
  have stays: "blocks s' (key (codec_mid L alg c' x)) = Some x"
    if "x \<in> snd ` X \<union> D" "blocks s (key (codec_mid L alg c' x)) = Some x" for c' x
    using that same_key [OF assms(1) inv assms(2) that(1), of d c' c] assms(5) by (auto simp: s'(3))
  have "kept X s'" using s'(2) assms(3) stays by (force simp: kept_def holds_def)
  moreover have "blocks s' (key (fmid L M alg u)) = Some (fdata L M alg u)" if "u \<in> W" for u
    unfolding fmid_def by (rule stays) (use that assms(3,4) in \<open>auto simp: holds_def fmid_def\<close>)
  ultimately show ?thesis using s' by (auto simp: holds_def)
qed

lemma put_tree_holds:
  assumes "hashlib_ok L" "no_clash L alg (snd ` X \<union> D)" "holds M X W s" "fdata L M alg ` W \<subseteq> D" "fdata L M alg u \<in> D"
  shows "\<exists>s'. put s (fmid L M alg u) (fdata L M alg u) = (None, s') \<and> holds M X (insert u W) s'"
proof -
  obtain s' where s': "put s (fmid L M alg u) (fdata L M alg u) = (None, s')" "holds M X W s'"
      "blocks s' = (blocks s)(key (fmid L M alg u) \<mapsto> fdata L M alg u)"
    using put_holds [OF assms, of "if is_leaf u then CodecRaw else CodecMemFS"] unfolding fmid_def by blast
  then have "blocks s' (key (fmid L M alg u)) = Some (fdata L M alg u)" by simp
  with s'(1,2) show ?thesis unfolding holds_def by blast
qed

section \<open>The level stack\<close>

lemma collapse_file:
  assumes "hashlib_ok L" "memfs_proto_ok P M" "no_clash L alg (snd ` X \<union> D)" "holds M X W s" "fdata L M alg ` insert (Node ts) W \<subseteq> D"
    "ts \<noteq> []" "\<forall>t \<in> set ts. is_leaf t \<longleftrightarrow> level = 0"
  shows "\<exists>s'. memfs_collapse L M alg put level (map (fref L M alg) ts) s = (Inr (fref L M alg (Node ts)), s') \<and>
    holds M X (insert (Node ts) W) s'"
proof -
  obtain s' where s': "put s (fmid L M alg (Node ts)) (fdata L M alg (Node ts)) = (None, s')" "holds M X (insert (Node ts) W) s'"
    using put_tree_holds [OF assms(1,3,4), of "Node ts"] assms(5) by auto
  have b: "map (file_block level) (map (fref L M alg) ts) = map (fblock L M alg) ts"
    using file_block_fref [OF assms(1), of _ level M alg] assms(7) by simp
  have "FromBytesWithCodec L alg (fdata L M alg (Node ts)) CodecMemFS = Inr (fmid L M alg (Node ts))"
    using codec_mid_ok(1) [OF assms(1)] by (simp add: fmid_def)
  moreover have "memfs_collapse L M alg put level (map (fref L M alg) ts) s =
      (case M (tree_node L M alg ts) of
         None \<Rightarrow> (Inl (Wrap ''memfs: marshal intermediate: %w'' (Msg ''proto'')), s)
       | Some raw \<Rightarrow>
           (case FromBytesWithCodec L alg raw CodecMemFS of
              Inl p \<Rightarrow> (Inl p, s)
            | Inr nodeMID \<Rightarrow>
                (case put s nodeMID raw of
                   (Some e, bs') \<Rightarrow> (Inl (Wrap ''memfs: store intermediate: %w'' e), bs')
                 | (None, bs') \<Rightarrow> (Inr (nodeMID, of_nat (length (concat (map content ts)))), bs'))))"
    using assms(6) unfolding memfs_collapse_def b sum_fref tree_node_def Let_def by simp
  ultimately show ?thesis
    using s' fdata_Node(1) [OF assms(2), of L alg ts] by (simp add: fref_def)
qed

text \<open>A push refines the push on trees; everything below the new nodes was stored before.\<close>

lemma push_file:
  assumes "hashlib_ok L" "memfs_proto_ok P M" "no_clash L alg (snd ` X \<union> D)"
  shows "holds M X W (fs_bs s) \<Longrightarrow> fs_levels s = low @ map (map (fref L M alg)) ls \<Longrightarrow> length low = level \<Longrightarrow>
    tidy level ls \<Longrightarrow> (is_leaf t \<longleftrightarrow> level = 0) \<Longrightarrow> forest ls \<union> subtrees t \<subseteq> W \<Longrightarrow>
    fdata L M alg ` (W \<union> forest (tpush ls t)) \<subseteq> D \<Longrightarrow>
    \<exists>bs'. memfs_push L M alg put level (fref L M alg t) s =
        (None, s\<lparr>fs_levels := low @ map (map (fref L M alg)) (tpush ls t), fs_bs := bs'\<rparr>) \<and>
      holds M X (W \<union> forest (tpush ls t)) bs'"
proof (induction ls arbitrary: s low level t W)
  case Nil
  then have "grow_levels level (fref L M alg t) (fs_levels s) = low @ [[fref L M alg t]]"
    by (simp add: grow_levels_def nth_append list_update_append)
  moreover have "W \<union> forest (tpush [] t) = W" using Nil.prems(6) by auto
  ultimately show ?case using Nil.prems(1-3)
    by (subst memfs_push.simps) (auto simp: nth_append Let_def intro!: exI [of _ "fs_bs s"])
next
  case (Cons l ls)
  let ?r = "fref L M alg"
  have grow: "grow_levels level (?r t) (fs_levels s) = low @ map ?r (l @ [t]) # map (map ?r) ls"
    using Cons.prems(2,3) by (simp add: grow_levels_def nth_append list_update_append)
  show ?case
  proof (cases "Suc (length l) < Fanout")
    case True
    moreover have "W \<union> forest (tpush (l # ls) t) = W" using True Cons.prems(6) by auto
    ultimately show ?thesis using Cons.prems(1-3) grow
      by (subst memfs_push.simps) (auto simp: nth_append Let_def intro!: exI [of _ "fs_bs s"])
  next
    case False
    let ?n = "Node (l @ [t])"
    have new: "subtrees ?n \<subseteq> forest (tpush (l # ls) t)" using False forest_tpush [of ls ?n] by simp
    have below: "forest ls \<subseteq> insert ?n W" "subtrees ?n \<subseteq> insert ?n W" using Cons.prems(6) by auto
    have "fdata L M alg ` insert ?n W \<subseteq> D" using Cons.prems(7) new by (auto simp: image_subset_iff simp del: tpush.simps)
    from collapse_file [OF assms Cons.prems(1) this] Cons.prems(4,5) obtain bs' where
      bs': "memfs_collapse L M alg put level (map ?r (l @ [t])) (fs_bs s) = (Inr (?r ?n), bs')" "holds M X (insert ?n W) bs'"
      by auto
    let ?s1 = "s\<lparr>fs_levels := low @ [] # map (map ?r) ls, fs_bs := bs'\<rparr>"
    have "W \<union> forest (tpush (l # ls) t) = insert ?n W \<union> forest (tpush ls ?n)" using new False by auto
    with Cons.IH [of "insert ?n W" ?s1 "low @ [[]]" "Suc level" ?n] bs'(2) Cons.prems(3,4,6,7) below obtain bs2 where
      p2: "memfs_push L M alg put (Suc level) (?r ?n) ?s1 =
        (None, ?s1\<lparr>fs_levels := (low @ [[]]) @ map (map ?r) (tpush ls ?n), fs_bs := bs2\<rparr>)"
      "holds M X (W \<union> forest (tpush (l # ls) t)) bs2" by auto
    have "memfs_push L M alg put level (?r t) s =
        (None, s\<lparr>fs_levels := low @ map (map ?r) (tpush (l # ls) t), fs_bs := bs2\<rparr>)"
      using bs'(1) p2(1) grow False Cons.prems(3)
      by (subst memfs_push.simps) (simp add: nth_append list_update_append)
    with p2(2) show ?thesis by blast
  qed
qed

text \<open>The loop of finalize reaches the root group, with everything below it stored.\<close>

lemma finalize_file:
  assumes "hashlib_ok L" "memfs_proto_ok P M" "no_clash L alg (snd ` X \<union> D)"
  shows "holds M X W (fs_bs s) \<Longrightarrow> fs_levels s = low @ map (map (fref L M alg)) ls \<Longrightarrow> length low = i \<Longrightarrow>
    tidy i ls \<Longrightarrow> forest ls \<subseteq> W \<Longrightarrow> mfin n ls = Some tp \<Longrightarrow> fdata L M alg ` (W \<union> forest [tp]) \<subseteq> D \<Longrightarrow>
    \<exists>lvl lv bs'. memfs_finalize_loop L M alg put json putmeta fo n i s =
        Some (buildRoot L M alg put json putmeta fo lvl (map (fref L M alg) tp) (s\<lparr>fs_levels := lv, fs_bs := bs'\<rparr>)) \<and>
      holds M X (W \<union> forest [tp]) bs' \<and> tp \<noteq> [] \<and> (\<forall>t \<in> set tp. is_leaf t \<longleftrightarrow> lvl = 0)"
proof (induction n ls arbitrary: i s low W rule: mfin.induct)
  case (3 n l ls)
  let ?r = "fref L M alg"
  have nth: "fs_levels s ! i = map ?r l" "i < length (fs_levels s)"
    "topmost i (fs_levels s) = list_all (\<lambda>l. l = []) ls"
    using "3.prems"(2,3) by (simp_all add: topmost_def nth_append list_all_iff)
  show ?case
  proof (cases "l = []")
    case True
    with "3.IH"(1) [OF True, of W s "low @ [[]]" "Suc i"] "3.prems" nth show ?thesis by simp
  next
    case ne: False
    show ?thesis
    proof (cases "list_all (\<lambda>l. l = []) ls")
      case True
      with ne "3.prems"(6) have tp: "tp = l" by simp
      have "memfs_finalize_loop L M alg put json putmeta fo (Suc n) i s =
          Some (buildRoot L M alg put json putmeta fo i (map ?r l) (s\<lparr>fs_levels := fs_levels s, fs_bs := fs_bs s\<rparr>))"
        using True ne nth by simp
      moreover have "W \<union> forest [tp] = W" using "3.prems"(5) tp by auto
      moreover have "\<forall>t \<in> set tp. is_leaf t \<longleftrightarrow> i = 0" using "3.prems"(4) tp by simp
      ultimately show ?thesis unfolding tp using ne "3.prems"(1)
        by (intro exI [of _ i] exI [of _ "fs_levels s"] exI [of _ "fs_bs s"]) simp
    next
      case False
      let ?n = "Node l"
      have fin: "mfin n (tpush ls ?n) = Some tp" using "3.prems"(6) ne False by simp
      have sub: "forest ls \<union> subtrees ?n \<subseteq> forest [tp]" using forest_tpush [of ls ?n] forest_mfin [OF fin] by blast
      have up: "forest (tpush ls ?n) \<subseteq> forest [tp]" using forest_mfin [OF fin] .
      have "fdata L M alg ` insert ?n W \<subseteq> D" using "3.prems"(7) sub by (auto simp: image_subset_iff)
      from collapse_file [OF assms "3.prems"(1) this ne] "3.prems"(4) obtain bs' where
        bs': "memfs_collapse L M alg put i (map ?r l) (fs_bs s) = (Inr (?r ?n), bs')" "holds M X (insert ?n W) bs'" by auto
      let ?s1 = "s\<lparr>fs_levels := (low @ [[]]) @ map (map ?r) ls, fs_bs := bs'\<rparr>"
      have D1: "fdata L M alg ` (insert ?n W \<union> forest (tpush ls ?n)) \<subseteq> D"
        using "3.prems"(7) sub up by (auto simp: image_subset_iff)
      have below: "forest ls \<union> subtrees ?n \<subseteq> insert ?n W" using "3.prems"(5) by auto
      from push_file [OF assms _ _ _ _ _ below D1, of ?s1 "low @ [[]]" "Suc i"] bs'(2) "3.prems"(3,4)
      obtain bs2 where p2: "memfs_push L M alg put (Suc i) (?r ?n) ?s1 =
          (None, ?s1\<lparr>fs_levels := (low @ [[]]) @ map (map ?r) (tpush ls ?n), fs_bs := bs2\<rparr>)"
        "holds M X (insert ?n W \<union> forest (tpush ls ?n)) bs2" by auto
      define s2 where "s2 = s\<lparr>fs_levels := (low @ [[]]) @ map (map ?r) (tpush ls ?n), fs_bs := bs2\<rparr>"
      have p2': "memfs_push L M alg put (Suc i) (?r ?n) ?s1 = (None, s2)" using p2(1) by (simp add: s2_def)
      have W: "(insert ?n W \<union> forest (tpush ls ?n)) \<union> forest [tp] = W \<union> forest [tp]" using sub up by auto
      have h2: "holds M X (insert ?n W \<union> forest (tpush ls ?n)) (fs_bs s2)" using p2(2) by (simp add: s2_def)
      have t2: "tidy (Suc i) (tpush ls ?n)" using "3.prems"(4) by (intro tidy_tpush) simp_all
      have lv2: "fs_levels s2 = (low @ [[]]) @ map (map ?r) (tpush ls ?n)" by (simp add: s2_def)
      have "length (low @ [[]]) = Suc i" using "3.prems"(3) by simp
      from "3.IH"(2) [OF ne False h2 lv2 this t2 _ fin, unfolded W, OF _ "3.prems"(7)]
      obtain lvl lv bs3 where r: "memfs_finalize_loop L M alg put json putmeta fo n (Suc i) s2 =
          Some (buildRoot L M alg put json putmeta fo lvl (map ?r tp) (s2\<lparr>fs_levels := lv, fs_bs := bs3\<rparr>))"
        "holds M X (W \<union> forest [tp]) bs3" "tp \<noteq> []" "\<forall>t \<in> set tp. is_leaf t \<longleftrightarrow> lvl = 0"
        by blast
      have upd: "(fs_levels s)[i := []] = (low @ [[]]) @ map (map ?r) ls"
        using "3.prems"(2,3) by (simp add: list_update_append)
      have "memfs_finalize_loop L M alg put json putmeta fo (Suc n) i s = memfs_finalize_loop L M alg put json putmeta fo n (Suc i) s2"
        using bs'(1) p2' nth ne False by (simp add: upd)
      moreover have "s2\<lparr>fs_levels := lv, fs_bs := bs3\<rparr> = s\<lparr>fs_levels := lv, fs_bs := bs3\<rparr>" by (simp add: s2_def)
      ultimately show ?thesis using r by (intro exI [of _ lvl] exI [of _ lv] exI [of _ bs3]) simp
    qed
  qed
qed simp_all

end

section \<open>The blocks of a file\<close>

text \<open>The root node of a file with the chunks \<open>cs\<close>, and the contents of all blocks that make up the file.\<close>

definition file_root :: "hashlib \<Rightarrow> marshaller \<Rightarrow> u64 \<Rightarrow> fileopts \<Rightarrow> bytes list \<Rightarrow> MemFSNode" where
  "file_root L M alg fo cs =
     root_node fo (of_nat (length (concat cs)))
       (if length cs = 1 \<and> hd cs \<noteq> [] \<and> int (length (hd cs)) \<le> fo_maxBlk fo then hd cs else [])
       (map (fblock L M alg) (mbatch (map Leaf cs)))"

definition root_data :: "hashlib \<Rightarrow> marshaller \<Rightarrow> u64 \<Rightarrow> fileopts \<Rightarrow> bytes list \<Rightarrow> bytes" where
  "root_data L M alg fo cs = (case M (file_root L M alg fo cs) of None \<Rightarrow> [] | Some raw \<Rightarrow> raw)"

definition file_trees :: "bytes list \<Rightarrow> dtree set" where
  "file_trees cs = forest [mbatch (map Leaf cs)]"

definition file_blocks :: "hashlib \<Rightarrow> marshaller \<Rightarrow> u64 \<Rightarrow> fileopts \<Rightarrow> bytes list \<Rightarrow> bytes set" where
  "file_blocks L M alg fo cs = insert (root_data L M alg fo cs) (fdata L M alg ` file_trees cs)"

definition ascii_mime :: "string \<Rightarrow> bool" where
  "ascii_mime s \<longleftrightarrow> (\<forall>c \<in> set s. (of_char c :: nat) < 128)"

lemma root_data:
  assumes "memfs_proto_ok P M" "ascii_mime (fo_mime fo)"
  shows "M (file_root L M alg fo cs) = Some (root_data L M alg fo cs)" "root_data L M alg fo cs \<noteq> []"
    "pb_MemFSNode_Unmarshal P (root_data L M alg fo cs) = Some (file_root L M alg fo cs)"
proof -
  have "plain_file (file_root L M alg fo cs)"
    using assms(2) by (auto simp: plain_file_def file_root_def root_node_def file_node_def fblock_def ascii_mime_def split: if_splits)
  then obtain raw where "M (file_root L M alg fo cs) = Some raw" "raw \<noteq> []"
      "pb_MemFSNode_Unmarshal P raw = Some (file_root L M alg fo cs)"
    using assms(1) unfolding memfs_proto_ok_def by blast
  then show "M (file_root L M alg fo cs) = Some (root_data L M alg fo cs)" "root_data L M alg fo cs \<noteq> []"
    "pb_MemFSNode_Unmarshal P (root_data L M alg fo cs) = Some (file_root L M alg fo cs)"
    by (simp_all add: root_data_def)
qed

lemma prefix_trees: "forest (tstack (map Leaf (take k ds))) \<subseteq> file_trees ds"
  using forest_tstack_mono [of "map Leaf (take k ds)" "map Leaf (drop k ds)"] forest_mbatch [of "map Leaf ds"]
  unfolding file_trees_def map_append [symmetric] append_take_drop_id by blast

lemma in_forest_tstack: "t \<in> set xs \<Longrightarrow> t \<in> forest (tstack xs)"
proof (induction xs rule: rev_induct)
  case (snoc x xs)
  have "forest (tstack xs) \<union> subtrees x \<subseteq> forest (tstack (xs @ [x]))" using forest_tpush [of "tstack xs" x] by (simp add: tpush_tstack)
  with snoc subtrees_self [of x] show ?case by auto
qed simp

lemma leaf_trees: "d \<in> set ds \<Longrightarrow> Leaf d \<in> file_trees ds"
  using in_forest_tstack [of "Leaf d" "map Leaf ds"] forest_mbatch [of "map Leaf ds"] unfolding file_trees_def by auto

text \<open>The level stack after the chunks \<open>cs\<close>.\<close>

definition stack_at :: "hashlib \<Rightarrow> marshaller \<Rightarrow> u64 \<Rightarrow> bytes list \<Rightarrow> 's memfsLevelStack \<Rightarrow> bool" where
  "stack_at L M alg cs s \<longleftrightarrow>
     fs_levels s = map (map (fref L M alg)) (tstack (map Leaf cs)) \<and> fs_totalSize s = of_nat (length (concat cs)) \<and>
     fs_totalLeafs s = of_nat (length cs) \<and> fs_singleData s = (if length cs = 1 then hd cs else [])"

lemma one_leaf: "n < 2 ^ 64 \<Longrightarrow> (of_nat n = (1 :: u64)) \<longleftrightarrow> n = 1"
  by (auto simp: word_unat_eq_iff unat_of_nat)

context file_store begin

lemma pushLeaf_file:
  assumes "hashlib_ok L" "memfs_proto_ok P M" "no_clash L alg (snd ` X \<union> fdata L M alg ` file_trees ds)"
    "stack_at L M alg (take k ds) s" "k < length ds" "length ds < 2 ^ 64"
    "holds M X W (fs_bs s)" "forest (tstack (map Leaf (take k ds))) \<subseteq> W" "Leaf (ds ! k) \<in> W" "W \<subseteq> file_trees ds"
  shows "\<exists>s'. pushLeaf L M alg put (mid_of L alg (ds ! k)) (ds ! k) s = (None, s') \<and>
    stack_at L M alg (take (Suc k) ds) s' \<and> holds M X (W \<union> forest (tstack (map Leaf (take (Suc k) ds)))) (fs_bs s')"
proof -
  let ?ls = "tstack (map Leaf (take k ds))" and ?d = "ds ! k"
  have cs: "take (Suc k) ds = take k ds @ [?d]" using assms(5) by (rule take_Suc_conv_app_nth)
  have push: "tpush ?ls (Leaf ?d) = tstack (map Leaf (take (Suc k) ds))" by (simp add: cs tpush_tstack)
  have ref: "fref L M alg (Leaf ?d) = (mid_of L alg ?d, of_nat (length ?d))" by (simp add: fref_def fmid_def codec_mid_raw)
  define s2 where "s2 = s\<lparr>fs_totalSize := fs_totalSize s + of_nat (length ?d), fs_totalLeafs := fs_totalLeafs s + 1,
    fs_singleData := (if fs_totalLeafs s + 1 = 1 then ?d else [])\<rparr>"
  have D: "fdata L M alg ` (W \<union> forest (tpush ?ls (Leaf ?d))) \<subseteq> fdata L M alg ` file_trees ds"
    unfolding push by (intro image_mono Un_least assms(10) prefix_trees)
  have "holds M X W (fs_bs s2)" "fs_levels s2 = [] @ map (map (fref L M alg)) ?ls" "length ([] :: blockref list list) = 0"
      "tidy 0 ?ls" "is_leaf (Leaf ?d) \<longleftrightarrow> (0 :: nat) = 0" "forest ?ls \<union> subtrees (Leaf ?d) \<subseteq> W"
    using assms(4,7,8,9) by (auto simp: s2_def stack_at_def intro!: tidy_tstack)
  from push_file [OF assms(1-3) this D] obtain bs' where
    p: "memfs_push L M alg put 0 (fref L M alg (Leaf ?d)) s2 =
      (None, s2\<lparr>fs_levels := map (map (fref L M alg)) (tstack (map Leaf (take (Suc k) ds))), fs_bs := bs'\<rparr>)"
    "holds M X (W \<union> forest (tstack (map Leaf (take (Suc k) ds)))) bs'" unfolding push by auto
  let ?s' = "s2\<lparr>fs_levels := map (map (fref L M alg)) (tstack (map Leaf (take (Suc k) ds))), fs_bs := bs'\<rparr>"
  have "pushLeaf L M alg put (mid_of L alg ?d) ?d s = (None, ?s')"
    using p(1) by (simp add: pushLeaf_def Let_def ref s2_def)
  moreover have "stack_at L M alg (take (Suc k) ds) ?s'"
  proof -
    have leaves: "fs_totalLeafs s + 1 = of_nat (Suc k)" "length (take (Suc k) ds) = Suc k"
      using assms(4,5) by (simp_all add: stack_at_def min_def)
    have "(fs_totalLeafs s + 1 = 1) \<longleftrightarrow> k = 0" unfolding leaves using one_leaf [of "Suc k"] assms(5,6) by simp
    moreover have "hd (take (Suc k) ds) = ?d" if "k = 0" using that assms(5) by (cases ds) simp_all
    ultimately show ?thesis using assms(4) leaves by (simp add: stack_at_def s2_def cs min_def)
  qed
  ultimately show ?thesis using p(2) by auto
qed

end

section \<open>The pipeline\<close>

definition chunk_item :: "hashlib \<Rightarrow> u64 \<Rightarrow> bytes list \<Rightarrow> nat \<Rightarrow> chunkResult" where
  "chunk_item L alg ds i = \<lparr>cr_idx = i, cr_mid = mid_of L alg (ds ! i), cr_data = ds ! i, cr_err = None\<rparr>"

text \<open>The map pending after the results in \<open>A\<close> have been received and those below \<open>k\<close> pushed.\<close>

definition pend_at :: "hashlib \<Rightarrow> u64 \<Rightarrow> bytes list \<Rightarrow> nat set \<Rightarrow> nat \<Rightarrow> (nat \<times> chunkResult) list \<Rightarrow> bool" where
  "pend_at L alg ds A k pending \<longleftrightarrow> A \<subseteq> {..<length ds} \<and> {..<k} \<subseteq> A \<and>
     (\<forall>i. map_of pending i = (if i \<in> A \<and> k \<le> i then Some (chunk_item L alg ds i) else None))"

lemma map_of_without: "map_of (filter (\<lambda>e. fst e \<noteq> k) ps) = (map_of ps)(k := None)"
  by (induction ps) (auto simp: fun_eq_iff)

lemma pend_at_push: "pend_at L alg ds A k pending \<Longrightarrow> k \<in> A \<Longrightarrow> pend_at L alg ds A (Suc k) (filter (\<lambda>e. fst e \<noteq> k) pending)"
  by (auto simp: pend_at_def map_of_without less_Suc_eq)

lemma pend_at_recv:
  assumes "pend_at L alg ds A k pending" "i \<notin> A" "i < length ds" "k \<le> i"
  shows "pend_at L alg ds (insert i A) k ((i, chunk_item L alg ds i) # filter (\<lambda>e. fst e \<noteq> i) pending)"
  using assms by (auto simp: pend_at_def map_of_without)

lemma delete_nth:
  assumes "distinct ys" "k < length ys"
  shows "distinct (take k ys @ drop (Suc k) ys)" "set (take k ys @ drop (Suc k) ys) = set ys - {ys ! k}"
proof -
  have ys: "ys = take k ys @ ys ! k # drop (Suc k) ys" using assms(2) by (rule id_take_nth_drop)
  then have "distinct (take k ys @ ys ! k # drop (Suc k) ys)" using assms(1) by simp
  then show "distinct (take k ys @ drop (Suc k) ys)" by auto
  have "set ys = insert (ys ! k) (set (take k ys @ drop (Suc k) ys))" by (subst ys) simp
  moreover have "ys ! k \<notin> set (take k ys @ drop (Suc k) ys)"
    using \<open>distinct (take k ys @ ys ! k # drop (Suc k) ys)\<close> by auto
  ultimately show "set (take k ys @ drop (Suc k) ys) = set ys - {ys ! k}" by blast
qed

text \<open>The chunks that no worker has flushed or whose results are under way.\<close>

definition outstanding :: "'s pipeline \<Rightarrow> nat list" where
  "outstanding p = map fst (pl_work p) @ map cr_idx (pl_sent p)"

definition received :: "bytes list \<Rightarrow> 's pipeline \<Rightarrow> nat set" where
  "received ds p = {..<length ds} - set (outstanding p)"

definition pipe_ok :: "hashlib \<Rightarrow> marshaller \<Rightarrow> u64 \<Rightarrow> bytes list \<Rightarrow> 's pipeline \<Rightarrow> bool" where
  "pipe_ok L M alg ds p \<longleftrightarrow> distinct (outstanding p) \<and> set (outstanding p) \<subseteq> {..<length ds} \<and>
     (\<forall>(i, d) \<in> set (pl_work p). d = ds ! i) \<and> (\<forall>r \<in> set (pl_sent p). r = chunk_item L alg ds (cr_idx r)) \<and>
     pend_at L alg ds (received ds p) (pl_next p) (pl_pending p) \<and>
     pl_next p \<notin> received ds p \<and> pl_next p \<le> length ds \<and> stack_at L M alg (take (pl_next p) ds) (pl_stack p)"

text \<open>The trees that a run has stored so far: the chunks that were flushed and the tree over those pushed.\<close>

definition stored_trees :: "bytes list \<Rightarrow> 's pipeline \<Rightarrow> dtree set" where
  "stored_trees ds p = Leaf ` (\<lambda>i. ds ! i) ` ({..<length ds} - fst ` set (pl_work p)) \<union>
     forest (tstack (map Leaf (take (pl_next p) ds)))"

lemma stored_trees_file: "stored_trees ds p \<subseteq> file_trees ds"
  using prefix_trees [of "pl_next p" ds] leaf_trees [of _ ds] by (auto simp: stored_trees_def)

context file_store begin

lemma push_pending_file:
  assumes "hashlib_ok L" "memfs_proto_ok P M" "no_clash L alg (snd ` X \<union> fdata L M alg ` file_trees ds)" "length ds < 2 ^ 64"
  shows "pend_at L alg ds A k pending \<Longrightarrow> k \<le> length ds \<Longrightarrow> stack_at L M alg (take k ds) s \<Longrightarrow> holds M X (W \<union> forest (tstack (map Leaf (take k ds)))) (fs_bs s) \<Longrightarrow>
     Leaf ` (\<lambda>i. ds ! i) ` A \<subseteq> W \<Longrightarrow> W \<subseteq> file_trees ds \<Longrightarrow>
    \<exists>pending' k' s'. push_pending L M alg put pending k s = (None, pending', k', s') \<and> pend_at L alg ds A k' pending' \<and>
      k' \<notin> A \<and> k' \<le> length ds \<and> stack_at L M alg (take k' ds) s' \<and> holds M X (W \<union> forest (tstack (map Leaf (take k' ds)))) (fs_bs s')"
proof (induction "length ds - k" arbitrary: k pending s rule: less_induct)
  case less
  show ?case
  proof (cases "k \<in> A")
    case False
    then have "map_of pending k = None" using less.prems(1) by (simp add: pend_at_def)
    with False less.prems show ?thesis by (subst push_pending.simps) auto
  next
    case True
    have k: "k < length ds" and it: "map_of pending k = Some (chunk_item L alg ds k)"
      using less.prems(1) True by (auto simp: pend_at_def)
    let ?W = "W \<union> forest (tstack (map Leaf (take k ds)))"
    have "Leaf (ds ! k) \<in> ?W" "?W \<subseteq> file_trees ds" using True less.prems(5,6) prefix_trees by blast+
    from pushLeaf_file [OF assms(1-3) less.prems(3) k assms(4) less.prems(4) _ this] obtain s' where
      s': "pushLeaf L M alg put (mid_of L alg (ds ! k)) (ds ! k) s = (None, s')" "stack_at L M alg (take (Suc k) ds) s'"
      "holds M X (?W \<union> forest (tstack (map Leaf (take (Suc k) ds)))) (fs_bs s')" by blast
    have h: "holds M X (W \<union> forest (tstack (map Leaf (take (Suc k) ds)))) (fs_bs s')"
      using s'(3) by (auto simp: holds_def)
    have sm: "length ds - Suc k < length ds - k" "Suc k \<le> length ds" using k by simp_all
    from less.hyps [OF sm(1) pend_at_push [OF less.prems(1) True] sm(2) s'(2) h less.prems(5,6)] show ?thesis
      using it s'(1) by (subst push_pending.simps) (simp add: chunk_item_def)
  qed
qed

lemma putbatch_keys:
  assumes "hashlib_ok L" "invar s" "no_clash L alg D" "d \<in> D"
  shows "set xs \<subseteq> D \<Longrightarrow> fold (\<lambda>(m, d) b. b(key m \<mapsto> d)) (map (\<lambda>x. (mid_of L alg x, x)) xs) b (key (codec_mid L alg c d)) =
    (if \<exists>x \<in> set xs. key (mid_of L alg x) = key (codec_mid L alg c d) then Some d else b (key (codec_mid L alg c d)))"
proof (induction xs rule: rev_induct)
  case (snoc x xs)
  have "x = d" if "key (mid_of L alg x) = key (codec_mid L alg c d)"
    using same_key [OF assms(1-3), of x d CodecRaw c] snoc.prems assms(4) that by (simp add: codec_mid_raw)
  with snoc show ?case by auto
qed simp

lemma putbatch_holds:
  assumes "hashlib_ok L" "no_clash L alg (snd ` X \<union> D)" "holds M X W s" "fdata L M alg ` W \<subseteq> D" "set xs \<subseteq> D"
  shows "\<exists>s'. putbatch s (map (\<lambda>x. (mid_of L alg x, x)) xs) = (None, s') \<and> holds M X (Leaf ` set xs \<union> W) s'"
proof -
  have inv: "invar s" using assms(3) by blast
  have ok: "mid_wf L (mid_of L alg x) \<and> verifyContent L alg (mid_of L alg x) x = None" for x
    using mid_of_ok [OF assms(1)] verifyContent_FromBytes by blast
  have "mid_wf L m \<and> verifyContent L alg m d = None" if "(m, d) \<in> set (map (\<lambda>x. (mid_of L alg x, x)) xs)" for m d
    using that ok by auto
  from putbatch_stores [OF inv this] obtain s' where s': "putbatch s (map (\<lambda>x. (mid_of L alg x, x)) xs) = (None, s')" "invar s'"
    "blocks s' = fold (\<lambda>(m, d) b. b(key m \<mapsto> d)) (map (\<lambda>x. (mid_of L alg x, x)) xs) (blocks s)" by blast
  note k = putbatch_keys [OF assms(1) inv assms(2) _ le_supI2 [OF assms(5)], of _ "blocks s"]
  have stays: "blocks s' (key (codec_mid L alg c x)) = Some x"
    if "x \<in> snd ` X \<union> D" "blocks s (key (codec_mid L alg c x)) = Some x \<or> x \<in> set xs \<and> c = CodecRaw" for c x
    using k [OF that(1), of c] that(2) by (auto simp: s'(3) codec_mid_raw)
  have "kept X s'" using s'(2) assms(3) stays by (force simp: kept_def holds_def)
  moreover have "blocks s' (key (fmid L M alg u)) = Some (fdata L M alg u)" if u: "u \<in> Leaf ` set xs \<union> W" for u
    unfolding fmid_def by (rule stays) (use u assms(3,4,5) in \<open>auto simp: holds_def fmid_def\<close>)
  ultimately show ?thesis using s' by (auto simp: holds_def)
qed

text \<open>An invariant of every run: the bookkeeping is right and what it stands for is stored.\<close>

definition pipe_inv :: "marshaller \<Rightarrow> (u64 \<times> bytes) set \<Rightarrow> bytes list \<Rightarrow> 's pipeline \<Rightarrow> bool" where
  "pipe_inv M X ds p \<longleftrightarrow> pipe_ok L M alg ds p \<and> holds M X (stored_trees ds p) (fs_bs (pl_stack p))"

lemma hash_chunk_items:
  "hashlib_ok L \<Longrightarrow> hash_chunks L alg (map (\<lambda>i. (i, ds ! i)) idxs) = Inr (map (chunk_item L alg ds) idxs)"
  by (induction idxs) (simp_all add: mid_of_ok(1) chunk_item_def)

lemma flush_step:
  assumes "hashlib_ok L" "memfs_proto_ok P M" "no_clash L alg (snd ` X \<union> fdata L M alg ` file_trees ds)" "pipe_inv M X ds p"
    "file_step L M alg put putbatch (Flush idxs) p = Some r"
  shows "\<exists>p'. r = Inr p' \<and> pipe_inv M X ds p'"
proof -
  have ok: "idxs \<noteq> []" "distinct idxs" "set idxs \<subseteq> fst ` set (pl_work p)" using assms(5) by (auto split: if_splits)
  note pk = assms(4) [unfolded pipe_inv_def pipe_ok_def]
  have dw: "distinct (map fst (pl_work p))" and io: "set idxs \<subseteq> set (outstanding p)"
    using pk ok(3) by (auto simp: outstanding_def)
  have val: "the (map_of (pl_work p) i) = ds ! i" if i: "i \<in> set idxs" for i
  proof -
    obtain d where "(i, d) \<in> set (pl_work p)" using i ok(3) by force
    then show ?thesis using pk map_of_is_SomeI [OF dw] by fastforce
  qed
  then have jobs: "map (\<lambda>i. (i, the (map_of (pl_work p) i))) idxs = map (\<lambda>i. (i, ds ! i)) idxs" by simp
  let ?xs = "map (\<lambda>i. ds ! i) idxs" and ?W = "stored_trees ds p"
  have lt: "i < length ds" if "i \<in> set idxs" for i using that io pk by auto
  then have D: "set ?xs \<subseteq> fdata L M alg ` file_trees ds" using leaf_trees [of _ ds] by (force simp: image_iff)
  from putbatch_holds [OF assms(1,3) _ image_mono [OF stored_trees_file] D, of p] assms(4) obtain s' where
    s': "putbatch (fs_bs (pl_stack p)) (map (\<lambda>x. (mid_of L alg x, x)) ?xs) = (None, s')" "holds M X (Leaf ` set ?xs \<union> ?W) s'"
    by (auto simp: pipe_inv_def)
  have "map (\<lambda>r. (cr_mid r, cr_data r)) (map (chunk_item L alg ds) idxs) = map (\<lambda>x. (mid_of L alg x, x)) ?xs"
    by (simp add: chunk_item_def)
  then have "flushRaw L alg putbatch (map (\<lambda>i. (i, the (map_of (pl_work p) i))) idxs) (fs_bs (pl_stack p)) =
      (Inr (map (chunk_item L alg ds) idxs), s')"
    using s'(1) hash_chunk_items [OF assms(1), of ds idxs] by (simp only: flushRaw_def jobs sum.case) simp
  then have r: "r = Inr (p\<lparr>pl_work := filter (\<lambda>e. fst e \<notin> set idxs) (pl_work p),
      pl_sent := pl_sent p @ map (chunk_item L alg ds) idxs, pl_stack := (pl_stack p)\<lparr>fs_bs := s'\<rparr>\<rparr>)" (is "r = Inr ?p")
    using assms(5) by (auto split: if_splits)
  have items: "map cr_idx (map (chunk_item L alg ds) idxs) = idxs" by (simp add: chunk_item_def comp_def)
  have work: "map fst (pl_work ?p) = filter (\<lambda>i. i \<notin> set idxs) (map fst (pl_work p))"
    by (simp add: filter_map comp_def)
  have out: "set (outstanding ?p) = set (outstanding p)" "distinct (outstanding ?p)"
    using pk ok(2,3) unfolding outstanding_def work by (auto simp: items simp del: map_map)
  then have rc: "received ds ?p = received ds p" by (simp add: received_def)
  have "pipe_ok L M alg ds ?p"
    using pk out rc lt unfolding pipe_ok_def by (auto simp: chunk_item_def stack_at_def)
  moreover have "{..<length ds} - fst ` set (pl_work ?p) \<subseteq> set idxs \<union> ({..<length ds} - fst ` set (pl_work p))" by auto
  then have "stored_trees ds ?p \<subseteq> Leaf ` set ?xs \<union> ?W" unfolding stored_trees_def by auto
  then have "holds M X (stored_trees ds ?p) s'" using s'(2) by (auto simp: holds_def)
  ultimately show ?thesis using r by (simp add: pipe_inv_def)
qed

lemma recv_step:
  assumes "hashlib_ok L" "memfs_proto_ok P M" "no_clash L alg (snd ` X \<union> fdata L M alg ` file_trees ds)" "length ds < 2 ^ 64"
    "pipe_inv M X ds p" "file_step L M alg put putbatch (Recv j) p = Some r"
  shows "\<exists>p'. r = Inr p' \<and> pipe_inv M X ds p'"
proof -
  have j: "j < length (pl_sent p)" using assms(6) by (auto split: if_splits)
  note pk = assms(5) [unfolded pipe_inv_def pipe_ok_def]
  define i where "i = cr_idx (pl_sent p ! j)"
  define sent' where "sent' = take j (pl_sent p) @ drop (Suc j) (pl_sent p)"
  let ?A = "received ds p"
  have item: "pl_sent p ! j = chunk_item L alg ds i" using pk j unfolding i_def by auto
  have del: "distinct (map cr_idx sent')" "set (map cr_idx sent') = set (map cr_idx (pl_sent p)) - {i}"
    using delete_nth [of "map cr_idx (pl_sent p)" j] pk j
    by (simp_all add: sent'_def i_def outstanding_def take_map drop_map)
  have i: "i \<in> set (map cr_idx (pl_sent p))" using j by (simp add: i_def)
  then have out: "i \<in> set (outstanding p)" "i < length ds" "i \<notin> ?A" "i \<notin> fst ` set (pl_work p)"
    using pk by (auto simp: outstanding_def received_def)
  have ki: "pl_next p \<le> i" using pk out(3) by (auto simp: pend_at_def intro!: leI)
  define pend where "pend = (i, pl_sent p ! j) # filter (\<lambda>e. fst e \<noteq> i) (pl_pending p)"
  have pe: "pend_at L alg ds (insert i ?A) (pl_next p) pend"
    unfolding pend_def item using pk out(2,3) ki by (intro pend_at_recv) auto
  let ?F = "Leaf ` (\<lambda>i. ds ! i) ` ({..<length ds} - fst ` set (pl_work p))"
  have "?F \<subseteq> file_trees ds" using leaf_trees [of _ ds] by auto
  moreover have "Leaf ` (\<lambda>i. ds ! i) ` insert i ?A \<subseteq> ?F"
    using out by (auto simp: received_def outstanding_def)
  ultimately obtain pending' k' s' where
    st: "push_pending L M alg put pend (pl_next p) (pl_stack p) = (None, pending', k', s')"
      "pend_at L alg ds (insert i ?A) k' pending'" "k' \<notin> insert i ?A" "k' \<le> length ds"
      "stack_at L M alg (take k' ds) s'" "holds M X (?F \<union> forest (tstack (map Leaf (take k' ds)))) (fs_bs s')"
    using push_pending_file [OF assms(1-4) pe, of "pl_stack p" ?F] pk by (auto simp: stored_trees_def)
  define p' where "p' = p\<lparr>pl_sent := sent', pl_pending := pending', pl_next := k', pl_stack := s'\<rparr>"
  have no_err: "cr_err (pl_sent p ! j) = None" by (simp add: item chunk_item_def)
  have "r = Inr p'"
    using assms(6) j st(1) no_err by (simp add: pend_def i_def sent'_def p'_def Let_def)
  moreover have rc: "received ds p' = insert i ?A" "set (outstanding p') = set (outstanding p) - {i}" "distinct (outstanding p')"
    using out pk del unfolding received_def outstanding_def p'_def by auto
  have "set sent' \<subseteq> set (pl_sent p)" by (auto simp: sent'_def dest: in_set_takeD in_set_dropD)
  then have "pipe_ok L M alg ds p'"
    using pk st rc unfolding pipe_ok_def by (auto simp: p'_def)
  moreover have "holds M X (stored_trees ds p') (fs_bs (pl_stack p'))"
    using st(6) by (simp add: p'_def stored_trees_def)
  ultimately show ?thesis by (simp add: pipe_inv_def)
qed

lemma run_inv:
  assumes "hashlib_ok L" "memfs_proto_ok P M" "no_clash L alg (snd ` X \<union> fdata L M alg ` file_trees ds)" "length ds < 2 ^ 64"
  shows "pipe_inv M X ds p \<Longrightarrow> file_run L M alg put putbatch acts p = Some r \<Longrightarrow> \<exists>p'. r = Inr p' \<and> pipe_inv M X ds p'"
proof (induction acts arbitrary: p)
  case (Cons a acts)
  then obtain r1 where r1: "file_step L M alg put putbatch a p = Some r1" by (auto split: option.splits)
  then obtain p' where p': "r1 = Inr p'" "pipe_inv M X ds p'"
    using flush_step [OF assms(1-3) Cons.prems(1)] recv_step [OF assms Cons.prems(1)] by (cases a) blast+
  with Cons r1 show ?case by simp
qed auto

lemma start_inv:
  assumes "kept X s"
  shows "pipe_inv M X ds (start_pipeline ds None s)"
proof -
  have w: "map fst (zip [0..<length ds] ds) = [0..<length ds]" by simp
  then have "fst ` set (zip [0..<length ds] ds) = {..<length ds}"
    by (metis atLeast_upt list.set_map)
  then have "stored_trees ds (start_pipeline ds None s) = {}" "received ds (start_pipeline ds None s) = {}"
    by (auto simp: stored_trees_def received_def outstanding_def start_pipeline_def)
  moreover have "\<forall>(i, d) \<in> set (zip [0..<length ds] ds). d = ds ! i" by (auto simp: set_zip)
  ultimately show ?thesis using assms w
    by (auto simp: pipe_inv_def pipe_ok_def start_pipeline_def outstanding_def pend_at_def stack_at_def new_stack_def holds_def)
qed

end

end
