(* ===== verification/MemfsFile.thy ===== *)
theory MemfsFile
  imports MemfsLaws Content
begin

text \<open>
  Writing a file with AddFile and reading it with Open and Read. The in-memory store interprets the
  contract of MemfsLaws, and each chunker runs over it.
\<close>

section \<open>The root\<close>

text \<open>The blocks of a file with the codecs of their identifiers.\<close>

definition file_items :: "hashlib \<Rightarrow> marshaller \<Rightarrow> u64 \<Rightarrow> fileopts \<Rightarrow> bytes list \<Rightarrow> (u64 \<times> bytes) set" where
  "file_items L M alg fo cs = insert (CodecMemFS, root_data L M alg fo cs)
     ((\<lambda>u. (if is_leaf u then CodecRaw else CodecMemFS, fdata L M alg u)) ` file_trees cs)"

lemma snd_file_items: "snd ` file_items L M alg fo cs = file_blocks L M alg fo cs"
  by (simp add: file_items_def file_blocks_def image_image)

context file_store begin

lemma kept_file_items:
  "kept (X \<union> file_items L M alg fo cs) s \<longleftrightarrow> holds M X (file_trees cs) s \<and>
     blocks s (key (codec_mid L alg CodecMemFS (root_data L M alg fo cs))) = Some (root_data L M alg fo cs)"
  unfolding kept_def holds_def file_items_def fmid_def ball_Un ball_simps(7) image_iff by auto

lemma kept_mono: "kept Y s \<Longrightarrow> X \<subseteq> Y \<Longrightarrow> kept X s"
  by (auto simp: kept_def)

lemma kept_get: "hashlib_ok L \<Longrightarrow> kept X s \<Longrightarrow> (c, d) \<in> X \<Longrightarrow> get s (codec_mid L alg c d) = Inr d"
  using get_reads [of s "codec_mid L alg c d"] codec_mid_ok(2) [of L alg c d] by (fastforce simp: kept_def)

lemma put_root_file:
  assumes "hashlib_ok L" "memfs_proto_ok P M" "ascii_mime (fo_mime fo)" "\<And>info. is_ok (json info)"
    "no_clash L alg (snd ` X \<union> file_blocks L M alg fo cs)" "holds M X (file_trees cs) bs"
  shows "\<exists>bs'. put_root L M alg put json putmeta fo kind (file_root L M alg fo cs) sz n bs =
      (Inr \<lparr>ar_MID = codec_mid L alg CodecMemFS (root_data L M alg fo cs), ar_Size = sz, ar_Block = n\<rparr>, bs') \<and>
    holds M X (file_trees cs) bs' \<and>
    blocks bs' (key (codec_mid L alg CodecMemFS (root_data L M alg fo cs))) = Some (root_data L M alg fo cs)"
proof -
  let ?d = "root_data L M alg fo cs"
  let ?m = "codec_mid L alg CodecMemFS ?d"
  obtain b1 where b1: "put bs ?m ?d = (None, b1)" "holds M X (file_trees cs) b1" "blocks b1 (key ?m) = Some ?d"
    using put_holds [OF assms(1,5,6), of ?d CodecMemFS] subset_insertI by (fastforce simp: file_blocks_def)
  have nz: "\<not> IsZero ?m" using codec_mid_ok(2) [OF assms(1)] by (rule mid_wf_not_zero)
  have "\<exists>b2. SetObjectInfo L json putmeta b1 ?m info = (None, b2) \<and> invar b2 \<and> blocks b2 = blocks b1" for info
  proof (cases "oi_Name info = [] \<and> oi_MimeType info = []")
    case True
    with nz b1(2) show ?thesis by (auto simp: SetObjectInfo_def)
  next
    case False
    obtain buf where "json info = Inr buf" using assms(4) [of info] by (auto simp: is_ok_iff)
    with False nz putmeta_keeps [of b1 "''obj/'' @ MID_String L ?m" buf] b1(2) show ?thesis
      by (auto simp: SetObjectInfo_def)
  qed
  then obtain b2 where "SetObjectInfo L json putmeta b1 ?m
      \<lparr>oi_Name = fo_name fo, oi_MimeType = fo_mime fo, oi_Size = sz, oi_IsRoot = False\<rparr> = (None, b2)"
      "invar b2" "blocks b2 = blocks b1" by blast
  with b1 root_data(1) [OF assms(2,3), of L alg cs] codec_mid_ok(1) [OF assms(1), of alg ?d CodecMemFS] show ?thesis
    by (cases "fo_name fo = []") (simp_all add: put_root_def holds_def kept_def Let_def)
qed

lemma finalize_root:
  assumes "hashlib_ok L" "memfs_proto_ok P M" "ascii_mime (fo_mime fo)" "\<And>info. is_ok (json info)"
    "no_clash L alg (snd ` X \<union> file_blocks L M alg fo cs)" "length cs < 2 ^ 64" "length cs \<le> fuel"
    "stack_at L M alg cs s" "holds M X W (fs_bs s)" "forest (tstack (map Leaf cs)) \<subseteq> W" "W \<subseteq> file_trees cs"
  shows "\<exists>bs'. memfs_finalize L M alg put json putmeta fo fuel s =
      Some (Inr \<lparr>ar_MID = codec_mid L alg CodecMemFS (root_data L M alg fo cs), ar_Size = of_nat (length (concat cs)),
        ar_Block = of_nat (length cs)\<rparr>, bs') \<and> holds M X (file_trees cs) bs' \<and>
    blocks bs' (key (codec_mid L alg CodecMemFS (root_data L M alg fo cs))) = Some (root_data L M alg fo cs)"
proof (cases "cs = []")
  case True
  have leafs: "fs_totalLeafs s = 0" using True assms(8) by (simp add: stack_at_def)
  have rn: "root_node fo 0 [] [] = file_root L M alg fo cs" by (simp add: True file_root_def mbatch_small)
  have "holds M X (file_trees cs) (fs_bs s)" using True assms(9) by (simp add: holds_def file_trees_def mbatch_small)
  from put_root_file [OF assms(1-5) this, of _ _ 0 0] leafs True show ?thesis
    unfolding memfs_finalize_def rn by auto
next
  case False
  have nz: "fs_totalLeafs s \<noteq> 0"
    using False assms(6,8) by (simp add: stack_at_def word_of_nat_eq_0_iff nat_dvd_not_less)
  let ?tp = "mbatch (map Leaf cs)"
  have D: "no_clash L alg (snd ` X \<union> fdata L M alg ` file_trees cs)"
    using assms(5) unfolding no_clash_def file_blocks_def by (rule inj_on_subset) auto
  have W: "W \<union> forest [?tp] = file_trees cs" using assms(11) by (auto simp: file_trees_def)
  have lv: "fs_levels s = [] @ map (map (fref L M alg)) (tstack (map Leaf cs))" using assms(8) by (simp add: stack_at_def)
  have mf: "mfin fuel (tstack (map Leaf cs)) = Some ?tp" using False assms(7) by (intro mfin_tstack) simp_all
  have td: "tidy 0 (tstack (map Leaf cs))" by (rule tidy_tstack) auto
  obtain lvl lv bs1 where
    fin: "memfs_finalize_loop L M alg put json putmeta fo fuel 0 s =
        Some (buildRoot L M alg put json putmeta fo lvl (map (fref L M alg) ?tp) (s\<lparr>fs_levels := lv, fs_bs := bs1\<rparr>))"
      "holds M X (file_trees cs) bs1" "\<forall>t \<in> set ?tp. is_leaf t \<longleftrightarrow> lvl = 0"
    using finalize_file [OF assms(1,2) D assms(9) lv _ td assms(10) mf, unfolded W, of json fo] by (simp, blast)
  have one: "fs_totalLeafs s = 1 \<longleftrightarrow> length cs = 1" using assms(6,8) one_leaf by (simp add: stack_at_def)
  have blks: "map (file_block lvl) (map (fref L M alg) ?tp) = map (fblock L M alg) ?tp"
    using file_block_fref [OF assms(1), of _ lvl M alg] fin(3) by simp
  have single: "[file_block 0 (map (fref L M alg) ?tp ! 0)] = map (fblock L M alg) ?tp" if "length cs = 1"
    using that file_block_fref [OF assms(1), of "Leaf (hd cs)" 0 M alg]
    by (cases cs) (simp_all add: mbatch_small)
  have "buildRoot L M alg put json putmeta fo lvl (map (fref L M alg) ?tp) (s\<lparr>fs_levels := lv, fs_bs := bs1\<rparr>) =
      put_root L M alg put json putmeta fo ''root file node'' (file_root L M alg fo cs) (of_nat (length (concat cs))) (of_nat (length cs)) bs1"
  proof -
    have f: "fs_singleData s = (if length cs = 1 then hd cs else [])" "fs_totalSize s = of_nat (length (concat cs))"
        "fs_totalLeafs s = of_nat (length cs)" using assms(8) by (simp_all add: stack_at_def)
    show ?thesis
    proof (cases "length cs = 1")
      case True
      then show ?thesis using f one single blks
        unfolding buildRoot_def file_root_def Let_def by auto
    next
      case no: False
      then show ?thesis using f one unfolding buildRoot_def file_root_def Let_def blks by simp
    qed
  qed
  with put_root_file [OF assms(1-5) fin(2)] fin(1) nz show ?thesis by (auto simp: memfs_finalize_def)
qed

end

section \<open>Reading\<close>

text \<open>A multihash starts with the code of its algorithm, which is one byte for those that are supported.\<close>

definition mh_code_first :: "hashlib \<Rightarrow> bool" where
  "mh_code_first L \<longleftrightarrow>
     (\<forall>b d. mh_Decode L b = Some d \<longrightarrow> isSupportedHash (dm_Code d) \<longrightarrow> take 1 b = [ucast (dm_Code d)])"

lemma supported_not_m: "isSupportedHash code \<Longrightarrow> char_of_byte (ucast code) \<noteq> CHR ''m''"
  by (auto simp: isSupportedHash_def mh_BLAKE3_def mh_SHA2_256_def mh_SHA2_512_def mh_KECCAK_256_def mh_SHAKE_256_def char_of_byte_def
      dest!: arg_cong [where f = "of_char :: char \<Rightarrow> nat"])

lemma midFromBytes_hash:
  assumes "hashlib_ok L" "mh_code_first L"
  shows "midFromBytesWithCodec L (m_Hash (mid_of L alg d)) c = codec_mid L alg c d"
proof -
  let ?h = "m_Hash (mid_of L alg d)"
  have v: "validateEnvelope L ?h = Inr ()" using mid_of_ok(2) [OF assms(1)] by (simp add: mid_wf_def)
  then obtain dm where dm: "mh_Decode L ?h = Some dm" "isSupportedHash (dm_Code dm)" "?h \<noteq> []"
    by (auto simp: validateEnvelope_ok_iff)
  then have "take 1 ?h = [ucast (dm_Code dm)]" using assms(2) unfolding mh_code_first_def by blast
  then have "\<not> take 3 (string_of_bytes ?h) = ''mem''"
    using supported_not_m [OF dm(2)] dm(3) by (cases ?h) (auto simp: string_of_bytes_def numeral_3_eq_3)
  then have "midFromBytesWithCodec L ?h c = (case FromMultihash L c ?h of Inl _ \<Rightarrow> MID_zero\<lparr>m_Hash := ?h\<rparr> | Inr m \<Rightarrow> m)"
    using dm(3) by (simp add: midFromBytesWithCodec_def Let_def)
  also have "FromMultihash L c ?h = Inr \<lparr>m_Version = cidVersion1, m_codec = c, m_Hash = ?h, m_cid = NewCidV1 c ?h,
      m_str = Prefix @ cid_String L (NewCidV1 c ?h)\<rparr>"
    unfolding FromMultihash_def fromCodecAndHashErr_ok_iff using v by simp
  also have "\<dots> = Inr (codec_mid L alg c d)"
    using codec_mid_ok(2,3) [OF assms(1), of alg c d] codec_mid_hash [OF assms(1), of alg c d]
    by (auto simp: mid_wf_def intro!: MID.equality)
  finally show ?thesis by simp
qed

text \<open>The chunks below a tree, and the condition that they are not empty.\<close>

fun tleaves :: "dtree \<Rightarrow> bytes list" where
  "tleaves (Leaf d) = [d]"
| "tleaves (Node ts) = concat (map tleaves ts)"

definition block_value :: "hashlib \<Rightarrow> marshaller \<Rightarrow> u64 \<Rightarrow> dtree \<Rightarrow> MID \<times> u64" where
  "block_value L M alg t = (fmid L M alg t, if is_leaf t then of_nat (length (content t)) else 0)"

definition sized :: "dtree \<Rightarrow> bool" where
  "sized t \<longleftrightarrow> (\<forall>d. Leaf d \<in> subtrees t \<longrightarrow> d \<noteq> [] \<and> length d < 2 ^ 64)"

lemma sized_leaf: "sized t \<Longrightarrow> is_leaf t \<Longrightarrow> (0 :: u64) < of_nat (length (content t))"
  by (cases t) (auto simp: sized_def word_less_nat_alt unat_of_nat)

lemma BlocksValue_trees:
  assumes "hashlib_ok L" "mh_code_first L" "\<forall>t \<in> set ts. sized t" "fn_Blocks n = map (fblock L M alg) ts"
  shows "BlocksValue L n = map (block_value L M alg) ts"
proof -
  have "midFromBytesWithCodec L (m_Hash (mid_of L alg (fdata L M alg t)))
      (if 0 < (if is_leaf t then of_nat (length (content t)) else 0 :: u64) then CodecRaw else CodecMemFS) = fmid L M alg t"
    if "t \<in> set ts" for t
    using that assms(3) sized_leaf [of t] by (simp add: midFromBytes_hash [OF assms(1,2)] fmid_def)
  then show ?thesis by (simp add: BlocksValue_def assms(4) fblock_def block_value_def comp_def)
qed

lemma flatten_append:
  "flatten_blocks L P get f xs = Some (Inr out) \<Longrightarrow> flatten_blocks L P get f ys = Some (Inr out') \<Longrightarrow>
   flatten_blocks L P get f (xs @ ys) = Some (Inr (out @ out'))"
proof (induction xs arbitrary: out)
  case (Cons x xs)
  obtain m sz where x: "x = (m, sz)" by force
  from Cons show ?case by (auto simp: x Let_def split: option.splits sum.splits if_splits)
qed simp

text \<open>The reader's view of a stored tree: with fuel \<open>f\<close> or more it flattens to the identifiers of its chunks.\<close>

definition flattens :: "hashlib \<Rightarrow> protolib \<Rightarrow> marshaller \<Rightarrow> u64 \<Rightarrow> (MID \<Rightarrow> bytes result) \<Rightarrow> nat \<Rightarrow> dtree \<Rightarrow> bool" where
  "flattens L P M alg get f t \<longleftrightarrow>
     (\<forall>f' \<ge> f. flatten_blocks L P get f' [block_value L M alg t] = Some (Inr (map (mid_of L alg) (tleaves t))))"

lemma flattens_list:
  "\<forall>t \<in> set ts. flattens L P M alg get f t \<Longrightarrow> f \<le> f' \<Longrightarrow>
   flatten_blocks L P get f' (map (block_value L M alg) ts) = Some (Inr (map (mid_of L alg) (concat (map tleaves ts))))"
proof (induction ts)
  case (Cons t ts)
  then show ?case
    using flatten_append [of L P get f' "[block_value L M alg t]" _ "map (block_value L M alg) ts"]
    by (auto simp: flattens_def)
qed simp

lemma flattens_Leaf: "sized (Leaf d) \<Longrightarrow> flattens L P M alg get f (Leaf d)"
  using sized_leaf [of "Leaf d"] by (simp add: flattens_def block_value_def fmid_def codec_mid_raw)

lemma flattens_Node:
  assumes "hashlib_ok L" "mh_code_first L" "memfs_proto_ok P M"
    "get (fmid L M alg (Node ts)) = Inr (fdata L M alg (Node ts))"
    "ts \<noteq> []" "sized (Node ts)" "\<forall>t \<in> set ts. flattens L P M alg get f t"
  shows "flattens L P M alg get (Suc f) (Node ts)"
proof -
  let ?n = "tree_node L M alg ts"
  have sz: "\<forall>t \<in> set ts. sized t" using assms(6) by (auto simp: sized_def)
  have bv: "BlocksValue L ?n = map (block_value L M alg) ts"
    by (rule BlocksValue_trees [OF assms(1,2) sz]) (simp add: tree_node_def file_node_def)
  have "flatten_blocks L P get (Suc g) [block_value L M alg (Node ts)] = Some (Inr (map (mid_of L alg) (tleaves (Node ts))))"
    if "f \<le> g" for g
  proof -
    have "fn_Type ?n = MemFSType_FILE" "fn_Blocks ?n \<noteq> []" using assms(5) by (simp_all add: tree_node_def file_node_def)
    then show ?thesis
      using assms(4) fdata_Node(2) [OF assms(3), of L alg ts] flattens_list [OF assms(7) that]
      by (simp add: block_value_def bv)
  qed
  then show ?thesis unfolding flattens_def by (metis Suc_le_D Suc_le_mono)
qed

lemma sized_groups: "\<forall>x \<in> set xs. sized x \<Longrightarrow> t \<in> set (map Node (groups_of n xs)) \<Longrightarrow> 0 < n \<Longrightarrow> sized t"
proof -
  assume a: "\<forall>x \<in> set xs. sized x" "t \<in> set (map Node (groups_of n xs))" "0 < n"
  then obtain g where g: "t = Node g" "g \<in> set (groups_of n xs)" by auto
  have "set g \<subseteq> set (concat (groups_of n xs))" using g(2) by auto
  then have "set g \<subseteq> set xs" using groups_of_concat [OF a(3)] by metis
  with a(1) g(1) show ?thesis by (auto simp: sized_def)
qed

text \<open>Every tree of a file that is stored flattens, with fuel for each of its chunks.\<close>

lemma flattens_mbatch:
  assumes "hashlib_ok L" "mh_code_first L" "memfs_proto_ok P M"
    "\<And>u. u \<in> T \<Longrightarrow> get (fmid L M alg u) = Inr (fdata L M alg u)"
  shows "forest [mbatch xs] \<subseteq> T \<Longrightarrow> \<forall>t \<in> set xs. sized t \<and> flattens L P M alg get f t \<Longrightarrow>
    t \<in> set (mbatch xs) \<Longrightarrow> sized t \<and> flattens L P M alg get (f + length xs) t"
proof (induction xs arbitrary: f rule: mbatch.induct)
  case (1 xs)
  show ?case
  proof (cases "length xs < Fanout")
    case True
    with "1.prems" show ?thesis by (auto simp: mbatch_small flattens_def)
  next
    case False
    let ?gs = "groups_of Fanout xs"
    have mb: "mbatch xs = mbatch (map Node ?gs)" using False by (rule mbatch_large)
    have "Suc 0 < length xs" using False Fanout_gt(2) by linarith
    then have shrink: "length ?gs < length xs" by (rule groups_shrink)
    have node: "sized u \<and> flattens L P M alg get (Suc f) u" if "u \<in> set (map Node ?gs)" for u
    proof -
      obtain g where g: "u = Node g" "g \<in> set ?gs" using \<open>u \<in> set (map Node ?gs)\<close> by auto
      have "g \<noteq> []" using groups_of_lengths [OF g(2)] by simp
      have "set g \<subseteq> set xs" using g(2) groups_of_concat [of Fanout xs] by (metis Fanout_gt(1) UN_upper set_concat)
      then have fg: "\<forall>t \<in> set g. flattens L P M alg get f t" using "1.prems"(2) by auto
      have su: "sized u" using sized_groups [OF _ \<open>u \<in> set (map Node ?gs)\<close>] "1.prems"(2) by simp
      have "u \<in> T"
        using in_forest_tstack [OF \<open>u \<in> set (map Node ?gs)\<close>] forest_mbatch [of "map Node ?gs"] "1.prems"(1) unfolding mb by blast
      from flattens_Node [OF assms(1-3) _ \<open>g \<noteq> []\<close> _ fg] assms(4) [OF this] su g(1) show ?thesis by simp
    qed
    have "sized t \<and> flattens L P M alg get (Suc f + length (map Node ?gs)) t"
      using "1.IH" [OF False, of "Suc f"] "1.prems"(1,3) node unfolding mb by blast
    moreover have "Suc f + length (map Node ?gs) \<le> f + length xs" using shrink by simp
    ultimately show ?thesis unfolding flattens_def using order_trans by blast
  qed
qed

lemma tleaves_mbatch: "concat (map tleaves (mbatch xs)) = concat (map tleaves xs)"
proof (induction xs rule: mbatch.induct)
  case (1 xs)
  show ?case
  proof (cases "length xs < Fanout")
    case False
    have "concat (map tleaves (map Node gs)) = concat (map tleaves (concat gs))" for gs by (induction gs) simp_all
    with "1.IH" [OF False] show ?thesis by (simp add: mbatch_large [OF False] groups_of_concat)
  qed (simp add: mbatch_small)
qed

text \<open>Opening a stored file gives a reader at its start.\<close>

lemma open_file:
  assumes "hashlib_ok L" "mh_code_first L" "memfs_proto_ok P M" "ascii_mime (fo_mime fo)"
    "\<And>u. u \<in> file_trees cs \<Longrightarrow> get (fmid L M alg u) = Inr (fdata L M alg u)"
    "get (codec_mid L alg CodecMemFS (root_data L M alg fo cs)) = Inr (root_data L M alg fo cs)"
    "[] \<notin> set cs" "length (concat cs) < 2 ^ 63" "length cs < fuel"
  shows "\<exists>r. memfs_Open L P (Some get) fuel (codec_mid L alg CodecMemFS (root_data L M alg fo cs)) = Some (Inr r) \<and>
    reader_at get cs r \<and> fr_pos r = 0 \<and> fr_cur r = 0"
proof -
  let ?n = "file_root L M alg fo cs" and ?ts = "mbatch (map Leaf cs)"
  have small: "length d < 2 ^ 64" if "d \<in> set cs" for d
  proof -
    have "length d \<le> length (concat cs)" using that by (induction cs) auto
    then show ?thesis using assms(8) by simp
  qed
  have "\<forall>t \<in> set (map Leaf cs). sized t \<and> flattens L P M alg get 0 t"
  proof
    fix t assume "t \<in> set (map Leaf cs)"
    then have "sized t" "is_leaf t" using assms(7) small by (auto simp: sized_def)
    then show "sized t \<and> flattens L P M alg get 0 t" using flattens_Leaf by (cases t) auto
  qed
  then have all: "sized t \<and> flattens L P M alg get (length cs) t" if "t \<in> set ?ts" for t
    using flattens_mbatch [OF assms(1-3), of "file_trees cs" get alg "map Leaf cs" 0 t] assms(5) that
    by (simp add: file_trees_def)
  have bv: "BlocksValue L ?n = map (block_value L M alg) ?ts"
    by (rule BlocksValue_trees [OF assms(1,2)]) (use all in \<open>simp_all add: file_root_def root_node_def file_node_def\<close>)
  obtain f where f: "fuel = Suc f" "length cs \<le> f" using assms(9) by (cases fuel) auto
  have "concat (map tleaves ?ts) = cs" using tleaves_mbatch [of "map Leaf cs"] by (simp add: comp_def)
  then have "flatten_blocks L P get f (BlocksValue L ?n) = Some (Inr (map (mid_of L alg) cs))"
    using flattens_list [of ?ts L P M alg get "length cs" f] all f(2) unfolding bv by simp
  moreover have ty: "fn_Type ?n = MemFSType_FILE" "fn_FileSize ?n = of_nat (length (concat cs))"
    by (simp_all add: file_root_def root_node_def file_node_def)
  ultimately have new: "newReader L P get fuel ?n = Some (Inr \<lparr>fr_FileSize = of_nat (length (concat cs)),
      fr_blocks = map (mid_of L alg) cs, fr_pos = 0, fr_cur = 0, fr_buf = None, fr_bufUsed = 0\<rparr>)" (is "_ = Some (Inr ?r)")
    by (simp add: newReader_def f(1))
  have "\<not> IsZero (codec_mid L alg CodecMemFS (root_data L M alg fo cs))"
    using codec_mid_ok(2) [OF assms(1)] by (rule mid_wf_not_zero)
  then have "memfs_Open L P (Some get) fuel (codec_mid L alg CodecMemFS (root_data L M alg fo cs)) = Some (Inr ?r)"
    using assms(6) root_data(2,3) [OF assms(3,4), of L alg cs] new ty(1)
    by (simp add: memfs_Open_def memfs_Resolve_def ParseNode_def)
  moreover have "get (mid_of L alg d) = Inr d" if "d \<in> set cs" for d
    using assms(5) [OF leaf_trees [OF that]] by (simp add: fmid_def codec_mid_raw)
  then have "reader_at get cs ?r"
    using sint_of_nat_small [OF assms(8)] by (simp add: reader_at_def)
  ultimately show ?thesis by auto
qed

context file_store begin

lemma kept_opens:
  assumes "hashlib_ok L" "mh_code_first L" "memfs_proto_ok P M" "ascii_mime (fo_mime fo)"
    "kept X s" "file_items L M alg fo cs \<subseteq> X" "[] \<notin> set cs" "length (concat cs) < 2 ^ 63" "length cs < fuel"
  shows "\<exists>r. memfs_Open L P (Some (get s)) fuel (codec_mid L alg CodecMemFS (root_data L M alg fo cs)) = Some (Inr r) \<and>
    reader_at (get s) cs r \<and> fr_pos r = 0 \<and> fr_cur r = 0"
proof -
  have item: "get s (codec_mid L alg c d) = Inr d" if "(c, d) \<in> file_items L M alg fo cs" for c d
    using kept_get [OF assms(1,5)] assms(6) that by blast
  have "get s (fmid L M alg u) = Inr (fdata L M alg u)" if "u \<in> file_trees cs" for u
    unfolding fmid_def by (rule item) (use that in \<open>auto simp: file_items_def\<close>)
  moreover have "get s (codec_mid L alg CodecMemFS (root_data L M alg fo cs)) = Inr (root_data L M alg fo cs)"
    by (rule item) (simp add: file_items_def)
  ultimately show ?thesis using open_file [OF assms(1-4) _ _ assms(7-9)] by blast
qed

end

section \<open>AddFile over a chunker\<close>

locale file_builder =
  st: file_store L alg put get blocks key sinv putbatch putmeta + ch: chunker L alg Next chunks cinv
  for L :: hashlib and alg :: u64 and put :: "'s \<Rightarrow> MID \<Rightarrow> bytes \<Rightarrow> gerror option \<times> 's"
    and get :: "'s \<Rightarrow> MID \<Rightarrow> bytes result" and blocks :: "'s \<Rightarrow> 'k \<Rightarrow> bytes option"
    and key :: "MID \<Rightarrow> 'k" and sinv :: "'s \<Rightarrow> bool"
    and putbatch :: "'s \<Rightarrow> (MID \<times> bytes) list \<Rightarrow> gerror option \<times> 's"
    and putmeta :: "'s \<Rightarrow> string \<Rightarrow> bytes \<Rightarrow> gerror option \<times> 's"
    and Next :: "'c \<Rightarrow> Block result \<times> 'c" and chunks :: "'c \<Rightarrow> bytes list"
    and cinv :: "'c \<Rightarrow> bool"
begin

lemma read_chunks_all:
  assumes "hashlib_ok L"
  shows "cinv c \<Longrightarrow> length (chunks c) < n \<Longrightarrow> read_chunks Next n c = Some (chunks c, None)"
proof (induction n arbitrary: c)
  case (Suc n)
  show ?case
  proof (cases "chunks c")
    case Nil
    from ch.Next_end [OF Suc.prems(1) Nil] Nil show ?thesis by auto
  next
    case (Cons d ds)
    from ch.Next_more [OF Suc.prems(1) Cons] obtain c' b where
      nx: "Next c = (Inr b, c')" "makeBlock L alg d = Inr b" "cinv c'" "chunks c' = ds" by blast
    with Suc.IH [OF nx(3)] Suc.prems(2) Cons makeBlock_data [OF nx(2)] show ?thesis by simp
  qed
qed simp

definition file_mid :: "marshaller \<Rightarrow> fileopts \<Rightarrow> bytes list \<Rightarrow> MID" where
  "file_mid M fo cs = codec_mid L alg CodecMemFS (root_data L M alg fo cs)"

lemma AddFile_stores:
  assumes "hashlib_ok L" "memfs_proto_ok P M" "ascii_mime (fo_mime fo)" "\<And>info. is_ok (json info)"
    "st.kept X s" "cinv c" "no_clash L alg (snd ` X \<union> file_blocks L M alg fo (chunks c))" "length (concat (chunks c)) < 2 ^ 63"
    "length (chunks c) < fuel"
    "AddFile L M alg put putbatch json putmeta Next fo fuel acts (Some s) (Some c) = Some res"
  shows "\<exists>s'. res = (Inr \<lparr>ar_MID = file_mid M fo (chunks c), ar_Size = of_nat (length (concat (chunks c))),
      ar_Block = of_nat (length (chunks c))\<rparr>, Some s') \<and> st.kept (X \<union> file_items L M alg fo (chunks c)) s'"
proof -
  let ?ds = "chunks c"
  have "length ?ds \<le> length (concat ?ds)" using ch.chunk_bounds [OF assms(6)] by (intro length_concat_ge) simp
  then have n: "length ?ds < 2 ^ 64" using assms(8) by simp
  have D: "no_clash L alg (snd ` X \<union> fdata L M alg ` file_trees ?ds)"
    using assms(7) unfolding no_clash_def file_blocks_def by (rule inj_on_subset) auto
  have rc: "read_chunks Next fuel c = Some (?ds, None)" by (rule read_chunks_all [OF assms(1,6,9)])
  obtain r where r: "file_run L M alg put putbatch acts (start_pipeline ?ds None s) = Some r"
    using assms(10) rc by (auto simp: AddFile_def split: option.splits)
  obtain p where p: "r = Inr p" "st.pipe_inv M X ?ds p"
    using st.run_inv [OF assms(1,2) D n st.start_inv [OF assms(5)] r] by blast
  have fin: "pl_work p = []" "pl_sent p = []"
    and res: "map_option (\<lambda>(r, bs'). (r, Some bs')) (memfs_finalize L M alg put json putmeta fo fuel (pl_stack p)) = Some res"
    using assms(10) rc r p(1) by (auto simp: AddFile_def split: if_splits)
  note pk = p(2) [unfolded st.pipe_inv_def pipe_ok_def]
  have "pl_next p = length ?ds" using pk fin by (auto simp: received_def outstanding_def)
  then have st: "stack_at L M alg ?ds (pl_stack p)" "forest (tstack (map Leaf ?ds)) \<subseteq> stored_trees ?ds p"
    using pk by (auto simp: stored_trees_def)
  have "length ?ds \<le> fuel" using assms(9) by simp
  from st.finalize_root [where json = json, OF assms(1-4,7) n this st(1) _ st(2) stored_trees_file] pk res show ?thesis
    by (auto simp: file_mid_def st.kept_file_items)
qed

text \<open>Writing and then reading, from the start or from any position.\<close>

lemma AddFile_reads:
  assumes "hashlib_ok L" "mh_code_first L" "memfs_proto_ok P M" "ascii_mime (fo_mime fo)" "\<And>info. is_ok (json info)"
    "sinv s" "cinv c" "no_clash L alg (file_blocks L M alg fo (chunks c))" "length (concat (chunks c)) < 2 ^ 63"
    "length (chunks c) < fuel"
    "AddFile L M alg put putbatch json putmeta Next fo fuel acts (Some s) (Some c) = Some res"
    "2 * length (concat (chunks c)) < k" "0 < len" "0 \<le> off"
  shows "\<exists>root s' r r'. res = (Inr root, Some s') \<and> sinv s' \<and> ar_Size root = of_nat (length (concat (chunks c))) \<and>
    memfs_Open L P (Some (get s')) fuel (ar_MID root) = Some (Inr r) \<and>
    read_all (get s') len k r = (concat (chunks c), Some io_EOF) \<and>
    freader_Seek (get s') off 0 r = (Inr (min off (int (length (concat (chunks c))))), r') \<and>
    read_all (get s') len k r' = (drop (nat off) (concat (chunks c)), Some io_EOF)"
proof -
  let ?ds = "chunks c"
  have X: "st.kept {} s" "no_clash L alg (snd ` {} \<union> file_blocks L M alg fo ?ds)" using assms(6,8) by (simp_all add: st.kept_def)
  from AddFile_stores [where json = json, OF assms(1,3-5) X(1) assms(7) X(2) assms(9-11)] obtain s' where
    s': "res = (Inr \<lparr>ar_MID = file_mid M fo ?ds, ar_Size = of_nat (length (concat ?ds)), ar_Block = of_nat (length ?ds)\<rparr>, Some s')"
    "st.kept (file_items L M alg fo ?ds) s'" by auto
  have inv: "sinv s'" using s'(2) by (rule st.kept_invar)
  have ne: "[] \<notin> set ?ds" using ch.chunk_bounds [OF assms(7)] by blast
  obtain r where
    r: "memfs_Open L P (Some (get s')) fuel (file_mid M fo ?ds) = Some (Inr r)" "reader_at (get s') ?ds r" "fr_pos r = 0" "fr_cur r = 0"
    using st.kept_opens [OF assms(1-4) s'(2) subset_refl ne assms(9,10)] unfolding file_mid_def by blast
  have "length ?ds \<le> length (concat ?ds)" using ne by (intro length_concat_ge) auto
  then have bound: "to_read ?ds q < k" for q using assms(12) by (simp add: to_read_def)
  have all: "read_all (get s') len k r = (concat ?ds, Some io_EOF)"
    using read_all_rest [OF r(2) assms(13) bound] r(3) by simp
  have "\<exists>r'. freader_Seek (get s') off 0 r = (Inr (min off (int (length (concat ?ds)))), r') \<and>
      reader_at (get s') ?ds r' \<and> fr_pos r' = min off (int (length (concat ?ds)))"
    using Seek_lands [OF r(2) assms(14)] r(2,3) by auto
  then obtain r' where r': "freader_Seek (get s') off 0 r = (Inr (min off (int (length (concat ?ds)))), r')"
      "reader_at (get s') ?ds r'" "fr_pos r' = min off (int (length (concat ?ds)))" by blast
  have "nat (min off (int (length (concat ?ds)))) = min (nat off) (length (concat ?ds))" by (simp add: min_def nat_le_iff)
  then have "read_all (get s') len k r' = (drop (nat off) (concat ?ds), Some io_EOF)"
    using read_all_rest [OF r'(2) assms(13) bound] r'(3) assms(14) by (simp add: min_def split: if_splits)
  with s'(1) inv r(1) all r'(1) show ?thesis by auto
qed

end

end
