(* ===== verification/MemfsStores.thy ===== *)
theory MemfsStores
  imports MemfsFile PersistContent StoreRun
begin

text \<open>
  The contract of src/core/memfs/builder.go's store, interpreted on the in-memory store and on the persistent store without a
  blocks directory, and the round trip of a file over each.
\<close>

lemma Memstore_PutBatch_stores:
  "memstore_inv L alg s \<Longrightarrow> (\<And>m d. (m, d) \<in> set bl \<Longrightarrow> mid_wf L m \<and> verifyContent L alg m d = None) \<Longrightarrow>
   \<exists>s'. Memstore_PutBatch L alg s bl = (None, s') \<and> memstore_inv L alg s' \<and>
     ms_blocks s' = fold (\<lambda>(m, d) b. b(MID_String L m \<mapsto> d)) bl (ms_blocks s)"
proof (induction bl arbitrary: s)
  case (Cons x bl)
  obtain m d where x: "x = (m, d)" by force
  from memstore.put_stores [OF Cons.prems(1), of m d] Cons.prems(2) [of m d] x obtain s1 where
    s1: "Memstore_Put L alg s m d = (None, s1)" "memstore_inv L alg s1" "ms_blocks s1 = (ms_blocks s)(MID_String L m \<mapsto> d)" by auto
  from Cons.IH [OF s1(2)] Cons.prems(2) s1 x show ?case by auto
qed simp

interpretation mem_files: file_store L alg "Memstore_Put L alg" "Memstore_Get L" ms_blocks "MID_String L"
    "memstore_inv L alg" "Memstore_PutBatch L alg" Memstore_PutMeta for L alg
proof
  fix s m m'
  assume "memstore_inv L alg s" "mid_wf L m" "mid_wf L m'" "MID_String L m = MID_String L m'"
  then show "m_Hash m = m_Hash m'" using MID_String_inj [of L m m'] by (auto simp: memstore_inv_def)
next
  fix s k v
  assume "memstore_inv L alg s"
  then show "\<exists>s'. Memstore_PutMeta s k v = (None, s') \<and> memstore_inv L alg s' \<and> ms_blocks s' = ms_blocks s"
    by (simp add: Memstore_PutMeta_def memstore_inv_def)
qed (rule Memstore_PutBatch_stores)

section \<open>The persistent store\<close>

definition by_hash :: "(bytes \<rightharpoonup> bytes) \<Rightarrow> bytes \<rightharpoonup> bytes" where
  "by_hash v h = (case v (PrefixBlock @ h) of Some x \<Rightarrow> Some x | None \<Rightarrow> v (PrefixDAG @ h))"

definition stage_ops :: "'d store_env \<Rightarrow> MID \<times> bytes \<Rightarrow> batch" where
  "stage_ops E md = [(BlockKey (fst md), Some (snd md)), PutTimestamp (se_lib E) (se_now E div second) (fst md)]"

lemma by_hash_op: "by_hash (apply_batch (stage_ops E (m, d)) v) = (by_hash v)(m_Hash m \<mapsto> d)"
  by (rule ext) (auto simp: by_hash_def stage_ops_def apply_batch_def apply_op_def PutTimestamp_def BlockKey_def TimestampKey_def
      MetaKey_def prefix_key_eq prefixes_differ [symmetric] split: option.splits)

lemma by_hash_ops: "by_hash (apply_batch (concat (map (stage_ops E) bl)) v) = fold (\<lambda>(m, d) b. b(m_Hash m \<mapsto> d)) bl (by_hash v)"
proof (induction bl arbitrary: v)
  case (Cons x bl)
  obtain m d where x: "x = (m, d)" by force
  have "apply_batch (concat (map (stage_ops E) (x # bl))) v = apply_batch (concat (map (stage_ops E) bl)) (apply_batch (stage_ops E x) v)"
    by (simp add: apply_batch_def)
  with Cons [of "apply_batch (stage_ops E x) v"] show ?case by (simp add: x by_hash_op)
qed (simp add: apply_batch_def)

text \<open>Without hooks and block files a batch of verified blocks is staged as it stands.\<close>

lemma stage_all_direct:
  assumes "se_hooks E = None" "st_blocksPath s = []"
  shows "(\<And>m d. (m, d) \<in> set bl \<Longrightarrow> mid_wf (se_lib E) m \<and> verifyContent (se_lib E) (se_alg E) m d = None) \<Longrightarrow>
    stage_all E bl b s = (None, b @ concat (map (stage_ops E) bl), s)"
proof (induction bl arbitrary: b)
  case (Cons x bl)
  obtain m d where x: "x = (m, d)" by force
  have "mid_wf (se_lib E) m" "verifyContent (se_lib E) (se_alg E) m d = None" using Cons.prems [of m d] x by simp_all
  moreover have "stage_block E (BlockKey m) m d s = (None, stage_ops E x, s)"
    using assms(2) by (simp add: stage_block_def stage_ops_def x Let_def)
  moreover have "before_put E m d = Inr (m, d)" using assms(1) by (simp add: before_put_def)
  moreover have "stage_all E bl (b @ stage_ops E x) s = (None, (b @ stage_ops E x) @ concat (map (stage_ops E) bl), s)"
    by (rule Cons.IH) (use Cons.prems in auto)
  ultimately show ?case using x by simp
qed simp

lemma persist_PutBatch:
  assumes "persist_inv E view s"
    "\<And>m d. (m, d) \<in> set bl \<Longrightarrow> mid_wf (se_lib E) m \<and> verifyContent (se_lib E) (se_alg E) m d = None"
  shows "\<exists>s'. MemStore_PutBatch E s bl = (None, s') \<and> persist_inv E view s' \<and>
    hash_blocks view s' = fold (\<lambda>(m, d) b. b(m_Hash m \<mapsto> d)) bl (hash_blocks view s)"
proof (cases "bl = []")
  case False
  have ok: "store_ok E view s" and w: "writes_ok E" and hk: "se_hooks E = None" and nb: "st_blocksPath s = []"
    and P: "pebble_ok (se_pebble E) view"
    using assms(1) by (simp_all add: persist_inv_def reads_ok_def store_ok_def)
  let ?b = "concat (map (stage_ops E) bl)"
  define s2 where "s2 = snd (commit E ?b s)"
  have c: "commit E ?b s = (None, s2)" using commit_succeeds [OF w, of ?b s] by (simp add: s2_def prod_eq_iff)
  have v2: "dbview view s2 = apply_batch ?b (dbview view s)" using commit_view [OF P, of ?b s] c by simp
  let ?s = "fold (after_put E) (map fst bl) s2"
  have "stage_all E bl [] s = (None, [] @ ?b, s)" by (rule stage_all_direct [OF hk nb assms(2)])
  then have put: "MemStore_PutBatch E s bl = (None, ?s)"
    using False c enter_open [OF ok] by (simp add: MemStore_PutBatch_def)
  have f: "st_db ?s = st_db s2" "st_blocksPath ?s = st_blocksPath s"
    using fold_after_put_fields [of E "map fst bl" s2] commit_fields(2) [of E ?b s] by (simp_all add: same_frame_def s2_def)
  have "hash_blocks view x = by_hash (dbview view x)" for x by (rule ext) (simp add: hash_blocks_def by_hash_def)
  then have "hash_blocks view ?s = fold (\<lambda>(m, d) b. b(m_Hash m \<mapsto> d)) bl (hash_blocks view s)"
    using v2 f(1) by (simp add: by_hash_ops dbview_def)
  moreover have "persist_inv E view ?s"
    using PutBatch_ok [OF ok hk put] assms(1) f(2) by (simp add: persist_inv_def)
  ultimately show ?thesis using put by blast
qed (use assms in \<open>simp add: MemStore_PutBatch_def\<close>)

lemma persist_PutMeta:
  assumes "persist_inv E view s" "k \<noteq> []"
  shows "\<exists>s'. MemStore_PutMeta E s k v = (None, s') \<and> persist_inv E view s' \<and> hash_blocks view s' = hash_blocks view s"
proof -
  have ok: "store_ok E view s" and w: "writes_ok E" and P: "pebble_ok (se_pebble E) view" and open': "\<not> db_closed (st_db s)"
    using assms(1) by (simp_all add: persist_inv_def store_ok_def)
  define s' where "s' = snd (commit E [(MetaKey k, Some v)] s)"
  have c: "commit E [(MetaKey k, Some v)] s = (None, s')"
    using commit_succeeds [OF w, of "[(MetaKey k, Some v)]" s] by (simp add: s'_def prod_eq_iff)
  have put: "MemStore_PutMeta E s k v = (None, s')"
    using DB_Set_commit(1) [where E = E and s = s and k = "MetaKey k" and x = v] c open' assms(2) enter_open [OF ok]
    by (simp add: MemStore_PutMeta_def)
  have "dbview view s' = (dbview view s)(MetaKey k \<mapsto> v)"
    using commit_view [OF P, of "[(MetaKey k, Some v)]" s] c by (simp add: apply_batch_def apply_op_def)
  then have "hash_blocks view s' = hash_blocks view s"
    by (intro ext) (simp add: hash_blocks_def MetaKey_def prefix_key_eq prefixes_differ [symmetric] split: option.split)
  moreover have "persist_inv E view s'"
    using PutMeta_ok [OF ok put] assms(1) commit_fields(2) [of E _ s] by (simp add: persist_inv_def s'_def)
  ultimately show ?thesis using put by blast
qed

interpretation db_files: file_store "se_lib E" "se_alg E" "MemStore_Put E" "MemStore_Get E" "hash_blocks view" m_Hash
    "persist_inv E view" "MemStore_PutBatch E" "MemStore_PutMeta E" for E view
  by unfold_locales (use persist_PutBatch persist_PutMeta in blast)+

interpretation mem_file_fixed: file_builder L alg "Memstore_Put L alg" "Memstore_Get L" ms_blocks "MID_String L"
    "memstore_inv L alg" "Memstore_PutBatch L alg" Memstore_PutMeta "fixed_Next L alg" fixed_chunks "fixed_inv L" for L alg
  by unfold_locales

interpretation db_file_fixed: file_builder "se_lib E" "se_alg E" "MemStore_Put E" "MemStore_Get E" "hash_blocks view" m_Hash
    "persist_inv E view" "MemStore_PutBatch E" "MemStore_PutMeta E" "fixed_Next (se_lib E) (se_alg E)" fixed_chunks
    "fixed_inv (se_lib E)" for E view
  by unfold_locales

interpretation db_file_fastcdc: file_builder "se_lib E" "se_alg E" "MemStore_Put E" "MemStore_Get E" "hash_blocks view" m_Hash
    "persist_inv E view" "MemStore_PutBatch E" "MemStore_PutMeta E" "cdc_Next (se_lib E) (se_alg E)"
    "\<lambda>c. cdc_split (cdc_rest c)" "cdc_inv (se_lib E)" for E view
  by unfold_locales

end
