(* ===== verification/MemfsProps.thy ===== *)
theory MemfsProps
  imports MemfsStores
begin

text \<open>
  The guarantees of MemFS files over the stores: a run of AddFile always ends, and what it wrote is read
  back. A concrete marshaller shows that the requirement on the protobuf runtime can hold.
\<close>

section \<open>Runs of the pipeline end\<close>

definition left_over :: "'s pipeline \<Rightarrow> nat" where
  "left_over p = 2 * length (pl_work p) + length (pl_sent p)"

lemma hash_chunks_length: "hash_chunks L alg work = Inr rs \<Longrightarrow> length rs = length work"
  by (induction work arbitrary: rs) (auto split: sum.splits)

lemma flushRaw_length: "flushRaw L alg putbatch work bs = (Inr rs, bs') \<Longrightarrow> length rs = length work"
  by (auto simp: flushRaw_def dest: hash_chunks_length split: sum.splits prod.splits option.splits)

lemma step_less: "file_step L M alg put putbatch a p = Some (Inr p') \<Longrightarrow> left_over p' < left_over p"
proof (cases a)
  case (Flush idxs)
  assume st: "file_step L M alg put putbatch a p = Some (Inr p')"
  then have ok: "idxs \<noteq> []" "distinct idxs" "set idxs \<subseteq> fst ` set (pl_work p)" using Flush by (auto split: if_splits)
  obtain rs bs' where f: "flushRaw L alg putbatch (map (\<lambda>i. (i, the (map_of (pl_work p) i))) idxs) (fs_bs (pl_stack p)) = (Inr rs, bs')"
    and p': "pl_work p' = filter (\<lambda>e. fst e \<notin> set idxs) (pl_work p)" "pl_sent p' = pl_sent p @ rs"
    using st Flush by (auto split: if_splits sum.splits prod.splits)
  let ?in = "filter (\<lambda>e. fst e \<in> set idxs) (pl_work p)"
  have "length idxs = card (set idxs)" using ok(2) by (simp add: distinct_card)
  also have "\<dots> \<le> card (fst ` set ?in)" using ok(3) by (intro card_mono) force+
  also have "\<dots> \<le> length ?in" by (metis card_length list.set_map length_map)
  finally have "length idxs + length (pl_work p') \<le> length (pl_work p)"
    using sum_length_filter_compl [of "\<lambda>e. fst e \<in> set idxs" "pl_work p"] p'(1) by simp
  moreover have "length rs = length idxs" using flushRaw_length [OF f] by simp
  moreover have "0 < length idxs" using ok(1) by simp
  ultimately show ?thesis unfolding left_over_def p'(2) length_append by linarith
next
  case (Recv k)
  assume "file_step L M alg put putbatch a p = Some (Inr p')"
  then show ?thesis using Recv
    by (auto simp: left_over_def Let_def split: if_splits option.splits prod.splits)
qed

lemma run_bounded: "file_run L M alg put putbatch acts p = Some (Inr p') \<Longrightarrow> length acts + left_over p' \<le> left_over p"
proof (induction acts arbitrary: p)
  case (Cons a acts)
  then obtain p1 where "file_step L M alg put putbatch a p = Some (Inr p1)" "file_run L M alg put putbatch acts p1 = Some (Inr p')"
    by (auto split: option.splits sum.splits)
  with Cons.IH step_less show ?case by fastforce
qed simp

lemma file_run_append:
  "file_run L M alg put putbatch acts p = Some (Inr p') \<Longrightarrow>
   file_run L M alg put putbatch (acts @ acts') p = file_run L M alg put putbatch acts' p'"
  by (induction acts arbitrary: p) (auto split: option.splits sum.splits)

text \<open>While chunks or results are left, some action is possible.\<close>

lemma step_enabled:
  assumes "pl_work p \<noteq> [] \<or> pl_sent p \<noteq> []"
  shows "\<exists>a. file_step L M alg put putbatch a p \<noteq> None"
proof (cases "pl_sent p = []")
  case True
  with assms have "set [fst (hd (pl_work p))] \<subseteq> fst ` set (pl_work p)" by simp
  then show ?thesis
    by (intro exI [of _ "Flush [fst (hd (pl_work p))]"]) (auto split: prod.split sum.split)
next
  case False
  then show ?thesis
    by (intro exI [of _ "Recv 0"]) (auto simp: Let_def split: option.split prod.split)
qed

context file_store begin

lemma run_completes:
  assumes "hashlib_ok L" "memfs_proto_ok P M" "no_clash L alg (snd ` X \<union> fdata L M alg ` file_trees ds)" "length ds < 2 ^ 64"
  shows "pipe_inv M X ds p \<Longrightarrow>
    \<exists>acts p'. file_run L M alg put putbatch acts p = Some (Inr p') \<and> pl_work p' = [] \<and> pl_sent p' = []"
proof (induction "left_over p" arbitrary: p rule: less_induct)
  case less
  show ?case
  proof (cases "pl_work p = [] \<and> pl_sent p = []")
    case True
    then show ?thesis by (intro exI [of _ "[]"]) simp
  next
    case False
    then obtain a r where a: "file_step L M alg put putbatch a p = Some r" using step_enabled [of p L M alg put putbatch] by blast
    then obtain p1 where p1: "r = Inr p1" "pipe_inv M X ds p1"
      using run_inv [OF assms less.prems, of "[a]" r] by (cases r) auto
    from less.hyps [OF step_less p1(2)] a p1(1) obtain acts p' where
      "file_run L M alg put putbatch acts p1 = Some (Inr p')" "pl_work p' = []" "pl_sent p' = []" by blast
    with a p1(1) show ?thesis by (intro exI [of _ "a # acts"]) simp
  qed
qed

end

context file_builder begin

lemma AddFile_completes:
  assumes "hashlib_ok L" "memfs_proto_ok P M" "ascii_mime (fo_mime fo)" "\<And>info. is_ok (json info)"
    "sinv s" "cinv c" "no_clash L alg (file_blocks L M alg fo (chunks c))" "length (concat (chunks c)) < 2 ^ 63"
    "length (chunks c) < fuel" "file_run L M alg put putbatch acts (start_pipeline (chunks c) None s) = Some r"
  shows "\<exists>p acts' root s'. r = Inr p \<and> length acts \<le> 2 * length (chunks c) \<and>
    AddFile L M alg put putbatch json putmeta Next fo fuel (acts @ acts') (Some s) (Some c) = Some (Inr root, Some s')"
proof -
  let ?ds = "chunks c"
  have "length ?ds \<le> length (concat ?ds)" using ch.chunk_bounds [OF assms(6)] by (intro length_concat_ge) simp
  then have n: "length ?ds < 2 ^ 64" using assms(8) by simp
  have D: "no_clash L alg (snd ` {} \<union> fdata L M alg ` file_trees ?ds)"
    using assms(7) unfolding no_clash_def file_blocks_def by (rule inj_on_subset) auto
  have K: "no_clash L alg (snd ` {} \<union> file_blocks L M alg fo ?ds)" "st.kept {} s" using assms(5,7) by (simp_all add: st.kept_def)
  note inv0 = st.start_inv [OF K(2), of M ?ds]
  obtain p where p: "r = Inr p" "st.pipe_inv M {} ?ds p" using st.run_inv [OF assms(1,2) D n inv0 assms(10)] by blast
  have "left_over (start_pipeline ?ds None s) = 2 * length ?ds" by (simp add: left_over_def start_pipeline_def)
  then have len: "length acts \<le> 2 * length ?ds" using run_bounded [of L M alg put putbatch acts _ p] assms(10) p(1) by fastforce
  from st.run_completes [OF assms(1,2) D n p(2)] obtain acts' p' where
    p': "file_run L M alg put putbatch acts' p = Some (Inr p')" "pl_work p' = []" "pl_sent p' = []" by blast
  have run: "file_run L M alg put putbatch (acts @ acts') (start_pipeline ?ds None s) = Some (Inr p')"
    using file_run_append [of L M alg put putbatch acts _ p acts'] assms(10) p(1) p'(1) by simp
  then have "st.pipe_inv M {} ?ds p'" using st.run_inv [OF assms(1,2) D n inv0 run] by blast
  note pk = this [unfolded st.pipe_inv_def pipe_ok_def]
  have "pl_next p' = length ?ds" using pk p'(2,3) by (auto simp: received_def outstanding_def)
  then have at: "stack_at L M alg ?ds (pl_stack p')" "forest (tstack (map Leaf ?ds)) \<subseteq> stored_trees ?ds p'"
    using pk by (auto simp: stored_trees_def)
  have "length ?ds \<le> fuel" using assms(9) by simp
  from st.finalize_root [where json = json, OF assms(1-4) K(1) n this at(1) _ at(2) stored_trees_file] pk obtain root s' where
    "memfs_finalize L M alg put json putmeta fo fuel (pl_stack p') = Some (Inr root, s')" by blast
  then have "AddFile L M alg put putbatch json putmeta Next fo fuel (acts @ acts') (Some s) (Some c) = Some (Inr root, Some s')"
    using read_chunks_all [OF assms(1,6,9)] run p'(2,3) by (simp add: AddFile_def)
  with p(1) len show ?thesis by blast
qed

end

section \<open>A marshaller that keeps the promise\<close>

text \<open>
  A concrete instance, used only to show that the hypotheses can hold: byte strings are written with a 1 in
  front of every byte and a 0 behind the last.
\<close>

definition demo_bytes :: "bytes \<Rightarrow> bytes" where
  "demo_bytes xs = concat (map (\<lambda>x. [1, x]) xs) @ [0]"

fun take_bytes :: "bytes \<Rightarrow> (bytes \<times> bytes) option" where
  "take_bytes [] = None"
| "take_bytes (t # bs) =
     (if t = 0 then Some ([], bs)
      else case bs of [] \<Rightarrow> None | b # bs' \<Rightarrow> map_option (\<lambda>(xs, r). (b # xs, r)) (take_bytes bs'))"

lemma take_demo_bytes: "take_bytes (demo_bytes xs @ r) = Some (xs, r)"
  by (induction xs) (simp_all add: demo_bytes_def)

definition demo_block :: "MemFSBlock option \<Rightarrow> bytes" where
  "demo_block b = (case b of None \<Rightarrow> [] | Some b \<Rightarrow> demo_bytes (fb_Mid b) @ PutUint64 (fb_Size b))"

fun take_blocks :: "nat \<Rightarrow> bytes \<Rightarrow> MemFSBlock option list option" where
  "take_blocks 0 bs = None"
| "take_blocks (Suc n) bs =
     (if bs = [] then Some []
      else case take_bytes bs of
        None \<Rightarrow> None
      | Some (m, r) \<Rightarrow>
          map_option (\<lambda>bls. Some \<lparr>fb_Mid = m, fb_Size = Uint64 (take 8 r)\<rparr> # bls) (take_blocks n (drop 8 r)))"

definition demo_marshal :: marshaller where
  "demo_marshal n =
     (if fn_Type n = MemFSType_FILE \<and> fn_Entries n = [] \<and> fn_SymlinkTarget n = [] then
        Some (1 # demo_bytes (fn_Data n) @
          demo_bytes (case fn_Meta n of None \<Rightarrow> [] | Some m \<Rightarrow> bytes_of_string (mm_MimeType m)) @
          PutUint64 (fn_FileSize n) @ PutUint64 (ucast (fn_Mode n)) @ PutUint64 (fn_Mtime n) @
          concat (map demo_block (fn_Blocks n)))
      else None)"

definition demo_unmarshal :: "bytes \<Rightarrow> MemFSNode option" where
  "demo_unmarshal bs =
     (case bs of [] \<Rightarrow> None | t # r \<Rightarrow> if t \<noteq> 1 then None else
       (case take_bytes r of None \<Rightarrow> None | Some (data, r1) \<Rightarrow>
         (case take_bytes r1 of None \<Rightarrow> None | Some (mime, r2) \<Rightarrow>
           (case take_blocks (Suc (length r2)) (drop 24 r2) of None \<Rightarrow> None | Some bls \<Rightarrow>
              Some ((file_node (Uint64 (take 8 r2)) bls)\<lparr>fn_Data := data,
                fn_Meta := (if mime = [] then None else Some \<lparr>mm_MimeType = string_of_bytes mime, mm_Attrs = Map.empty\<rparr>),
                fn_Mode := ucast (Uint64 (take 8 (drop 8 r2))), fn_Mtime := Uint64 (take 8 (drop 16 r2))\<rparr>)))))"

definition demo_fs :: protolib where
  "demo_fs = demo_proto\<lparr>pb_MemFSNode_Unmarshal := demo_unmarshal\<rparr>"

lemma take_demo_blocks:
  "None \<notin> set bls \<Longrightarrow> length bls < n \<Longrightarrow> take_blocks n (concat (map demo_block bls)) = Some bls"
proof (induction bls arbitrary: n)
  case Nil
  then show ?case by (cases n) simp_all
next
  case (Cons b bls)
  then obtain k x where "n = Suc k" "b = Some x" by (cases n; cases b) auto
  with Cons show ?case by (simp add: demo_block_def take_demo_bytes) (simp add: demo_bytes_def)
qed

lemma length_demo_blocks: "None \<notin> set bls \<Longrightarrow> length bls \<le> length (concat (map demo_block bls))"
  by (induction bls) (auto simp: demo_block_def demo_bytes_def split: option.splits)

lemma demo_fs_ok: "memfs_proto_ok demo_fs demo_marshal"
  unfolding memfs_proto_ok_def
proof (intro allI impI)
  fix n assume n: "plain_file n"
  let ?bls = "concat (map demo_block (fn_Blocks n))"
  let ?mime = "case fn_Meta n of None \<Rightarrow> [] | Some m \<Rightarrow> bytes_of_string (mm_MimeType m)"
  let ?r2 = "PutUint64 (fn_FileSize n) @ PutUint64 (ucast (fn_Mode n)) @ PutUint64 (fn_Mtime n) @ ?bls"
  have t: "fn_Type n = MemFSType_FILE" "fn_Entries n = []" "fn_SymlinkTarget n = []" "None \<notin> set (fn_Blocks n)"
    using n by (simp_all add: plain_file_def)
  have meta: "(if ?mime = [] then None else Some \<lparr>mm_MimeType = string_of_bytes ?mime, mm_Attrs = Map.empty\<rparr>) = fn_Meta n"
  proof (cases "fn_Meta n")
    case (Some m)
    then have "mm_MimeType m \<noteq> []" "mm_Attrs m = Map.empty" using n by (simp_all add: plain_file_def)
    moreover from this have "bytes_of_string (mm_MimeType m) \<noteq> []" by (simp add: bytes_of_string_def)
    ultimately show ?thesis using Some by (cases m) simp
  qed simp
  have mode: "ucast (ucast (fn_Mode n) :: u64) = fn_Mode n" by (simp add: unsigned_ucast_eq take_bit_word_eq_self)
  have "length (fn_Blocks n) < Suc (length ?r2)" using length_demo_blocks [OF t(4)] by simp
  then have bls: "take_blocks (Suc (length ?r2)) (drop 24 ?r2) = Some (fn_Blocks n)"
    using take_demo_blocks [OF t(4)] by simp
  have "demo_marshal n = Some (1 # demo_bytes (fn_Data n) @ demo_bytes ?mime @ ?r2)" using t by (simp add: demo_marshal_def)
  moreover have "demo_unmarshal (1 # demo_bytes (fn_Data n) @ demo_bytes ?mime @ ?r2) = Some n"
    unfolding demo_unmarshal_def list.case take_demo_bytes option.case prod.case bls meta
    using t mode by (simp add: file_node_def)
  ultimately show "\<exists>raw. demo_marshal n = Some raw \<and> raw \<noteq> [] \<and> pb_MemFSNode_Unmarshal demo_fs raw = Some n"
    by (simp add: demo_fs_def)
qed

lemma demo_code_first: "mh_code_first demo_lib"
  by (auto simp: mh_code_first_def demo_lib_def unsigned_ucast_eq take_bit_word_eq_self split: list.splits)

definition demo_opts :: fileopts where
  "demo_opts = \<lparr>fo_name = ''f'', fo_mode = 0, fo_mtime = 0, fo_mime = [], fo_maxBlk = 1024\<rparr>"

definition demo_reader :: reader where
  "demo_reader = \<lparr>r_script = [([1, 2], None), ([3], Some io_EOF)], r_closed = False\<rparr>"

lemma demo_reader_stream: "eof_only (r_script demo_reader)" "stream (r_script demo_reader) = [1, 2, 3]"
  by (simp_all add: demo_reader_def)

lemma demo_chunks: "groups_of (nat 1024) (stream (r_script demo_reader)) = [[1, 2, 3]]"
  unfolding demo_reader_stream by (rule groups_of_short) simp_all

lemma demo_hash_inj: "inj_on (\<lambda>d. m_Hash (mid_of demo_lib mh_SHA2_256 d)) D"
proof -
  have "m_Hash (mid_of demo_lib mh_SHA2_256 d) = 0x12 # d" for d
    by (simp add: mid_of_def FromBytes_def FromBytesWithCodecAndHash_def fromCodecAndHashErr_def validateEnvelope_def build_def
        demo_lib_def isSupportedHash_def mh_SHA2_256_def cidVersion1_def Let_def)
  then show ?thesis by (simp add: inj_on_def)
qed

lemma demo_persist: "persist_inv demo_env map_of (demo_store [] [])"
  using demo_store_ok demo_reads demo_writes by (simp add: persist_inv_def) (simp add: demo_store_def)

section \<open>Properties\<close>



lemma demo_add:
  assumes "NewFixed 1024 (Some demo_reader) = Inr f"
  shows "\<exists>acts res. AddFile demo_lib demo_marshal mh_SHA2_256 (MemStore_Put demo_env) (MemStore_PutBatch demo_env) (\<lambda>_. Inr [])
      (MemStore_PutMeta demo_env) (fixed_Next demo_lib mh_SHA2_256) demo_opts 7 acts (Some (demo_store [] [])) (Some f) = Some res"
proof -
  have L: "hashlib_ok (se_lib demo_env)" by (simp add: demo_lib_ok)
  have f: "fixed_inv (se_lib demo_env) f" "fixed_chunks f = [[1, 2, 3]]"
    using NewFixed_ready [OF demo_lib_ok assms demo_reader_stream(1)] demo_chunks by simp_all
  have "no_clash (se_lib demo_env) (se_alg demo_env) (file_blocks (se_lib demo_env) demo_marshal (se_alg demo_env) demo_opts (fixed_chunks f))"
    using demo_hash_inj by (simp add: no_clash_def)
  from db_file_fixed.AddFile_completes [where acts = "[]", OF L demo_fs_ok _ _ demo_persist f(1) this, of "\<lambda>_. Inr []" 7] f(2)
  show ?thesis by (auto simp: demo_opts_def ascii_mime_def)
qed



end
