(* ===== verification/MemfsGC.thy ===== *)
theory MemfsGC
  imports MemfsProps SealLaws
begin

text \<open>
  Small MemFS files and the garbage collector: what the walk of src/core/store/walk.go makes of the root node that
  src/core/memfs/builder.go writes for a file of one chunk, against what src/core/memfs/reader.go reads.
\<close>

section \<open>The root of a file of one chunk\<close>

lemma single_root:
  assumes "d \<noteq> []" "int (length d) \<le> fo_maxBlk fo"
  shows "fn_Type (file_root L M alg fo [d]) = MemFSType_FILE" "fn_Data (file_root L M alg fo [d]) = d"
    "fn_Blocks (file_root L M alg fo [d]) = map (fblock L M alg) [Leaf d]"
    "fn_FileSize (file_root L M alg fo [d]) = of_nat (length d)"
  using assms by (simp_all add: file_root_def root_node_def file_node_def mbatch_small Fanout_def)

text \<open>The walk takes it for a leaf.\<close>

lemma single_root_leaf:
  assumes "memfs_proto_ok P M" "ascii_mime (fo_mime fo)" "d \<noteq> []" "int (length d) \<le> fo_maxBlk fo"
    "m_codec m = CodecMemFS" "\<not> is_ok (tryParseDescriptor P (root_data L M alg fo [d]))"
  shows "node_children L P m (root_data L M alg fo [d]) = (False, [])"
  using assms(3,5,6) root_data(3) [OF assms(1,2), of L alg "[d]"] single_root [OF assms(3,4), of L M alg]
  by (cases "tryParseDescriptor P (root_data L M alg fo [d])") (simp_all add: node_children_def Let_def)

lemma single_root_look:
  assumes "store_ok E view s" "reads_ok E" "hashlib_ok (se_lib E)" "memfs_proto_ok (se_proto E) M" "ascii_mime (fo_mime fo)"
    "d \<noteq> []" "int (length d) \<le> fo_maxBlk fo" "m_codec m = CodecMemFS" "mid_wf (se_lib E) m"
    "\<not> is_ok (tryParseDescriptor (se_proto E) (root_data (se_lib E) M (se_alg E) fo [d]))"
    "MemStore_Get E s m = Inr (root_data (se_lib E) M (se_alg E) fo [d])"
  shows "store_look E s m = VisitLeaf"
proof -
  have "stored (dbview view s) m \<noteq> None"
    using assms(11) MemStore_Get_stored [OF assms(1,2) mid_wf_not_zero [OF assms(9)]] by (auto split: option.splits)
  then obtain sz where "MemStore_GetSize E s m = Inr sz"
    using MemStore_GetSize_stored [OF assms(1,2), of m] by (auto split: option.splits)
  with assms(8,11) single_root_leaf [OF assms(4-8,10)] show ?thesis
    by (simp add: store_look_def inspect_def store_getter_def CodecMemFS_def CodecRaw_def)
qed

text \<open>The reader keeps only the list of blocks, also where the node carries the bytes.\<close>

lemma single_root_open:
  assumes "hashlib_ok L" "mh_code_first L" "memfs_proto_ok P M" "ascii_mime (fo_mime fo)"
    "d \<noteq> []" "int (length d) \<le> fo_maxBlk fo" "length d < 2 ^ 63" "\<not> IsZero m" "get m = Inr (root_data L M alg fo [d])"
    "get (mid_of L alg d) = Inl e"
  shows "\<exists>r. memfs_Open L P (Some get) (Suc fuel) m = Some (Inr r) \<and>
    fst (freader_Read get len r) = ([], Some (Wrap ''memfs: read block'' e))"
proof -
  let ?n = "file_root L M alg fo [d]"
  note sr = single_root [OF assms(5,6), of L M alg]
  have sz: "sized (Leaf d)" using assms(5,7) by (simp add: sized_def)
  have bv: "BlocksValue L ?n = map (block_value L M alg) [Leaf d]"
    by (rule BlocksValue_trees [OF assms(1,2) _ sr(3)]) (use sz in simp)
  have pos: "0 < sint (of_nat (length d) :: u64)" using sint_of_nat_small [OF assms(7)] assms(5) by simp
  have "flatten_blocks L P get fuel (BlocksValue L ?n) = Some (Inr [mid_of L alg d])"
    using flattens_Leaf [OF sz, of L P M alg get 0] by (simp add: flattens_def bv)
  then have "newReader L P get (Suc fuel) ?n = Some (Inr \<lparr>fr_FileSize = of_nat (length d), fr_blocks = [mid_of L alg d],
      fr_pos = 0, fr_cur = 0, fr_buf = None, fr_bufUsed = 0\<rparr>)"
    using sr(1,4) by (simp add: newReader_def)
  then show ?thesis
    using assms(8-10) root_data(2,3) [OF assms(3,4), of L alg "[d]"] sr(1) pos
    by (simp add: memfs_Open_def memfs_Resolve_def ParseNode_def freader_Read_def)
qed

section \<open>Properties\<close>

text \<open>
  Property C10. Garbage collection makes a sealed small file unreadable. The root node of a file of one chunk carries the
  chunk inline and refers to the raw block; the walk takes such a node for a leaf, so the run deletes
  the raw block, while the reader reads raw blocks only. After a run that ends without error the
  root is still stored and Open succeeds, but the first Read fails with ErrNotFound.
\<close>

theorem gc_breaks_small_file:
  assumes "store_ok E view s" and "reads_ok E" and "writes_ok E" and "hashlib_ok (se_lib E)"
    and "mh_code_first (se_lib E)" and "memfs_proto_ok (se_proto E) M" and "ascii_mime (fo_mime fo)"
    and "temp_ok T vt" and "\<not> db_closed t" and "vt (db_pebble t) = Map.empty" and "\<And>n. ctx n = None"
    and "d \<noteq> []" and "int (length d) \<le> fo_maxBlk fo" and "length d < 2 ^ 63"
    and "raw = root_data (se_lib E) M (se_alg E) fo [d]" and "\<not> is_ok (tryParseDescriptor (se_proto E) raw)"
    and "root = codec_mid (se_lib E) (se_alg E) CodecMemFS raw" and "MemStore_Get E s root = Inr raw"
    and "m_Hash (mid_of (se_lib E) (se_alg E) d) \<noteq> m_Hash root"
    and "MemStore_AllSealed E s = (None, [root])" and "erasureShardMIDs E s root = []" and "1 < fuel"
  shows "\<exists>freed s' r. MemStore_GC E T (Inr t) ctx fuel s = Some (None, freed, s') \<and> MemStore_Get E s' root = Inr raw \<and>
    memfs_Open (se_lib E) (se_proto E) (Some (MemStore_Get E s')) fuel root = Some (Inr r) \<and>
    fst (freader_Read (MemStore_Get E s') len r) = ([], Some (Wrap ''memfs: read block'' ErrNotFound))"
proof -
  have wf: "mid_wf (se_lib E) root" "m_codec root = CodecMemFS" using codec_mid_ok(2,3) [OF assms(4)] assms(17) by simp_all
  have look: "store_look E s root = VisitLeaf"
    by (rule single_root_look [OF assms(1,2,4,6,7,12,13) wf(2,1)]) (use assms(15,16,18) in simp_all)
  have "succs (store_look E s) root = []" using look by (simp add: succs_def)
  then have R: "{x. reaches (store_look E s) root x} = {root}" using reaches_stuck by (blast intro: reaches.here)
  have "store_look E s x \<noteq> Return (Some e)" if "reaches (store_look E s) root x" for x e
  proof -
    have "x = root" using R that by blast
    then show ?thesis using look by simp
  qed
  then have I: "\<forall>r \<in> set [root]. intact E s fuel r" using assms(22) wf(1) by (simp add: intact_def R)
  have live: "{m_Hash root} = (\<Union>r \<in> set [root]. kept_by E s r)" by (simp add: kept_by_def R assms(21))
  from gc_run_exact [where ctx = ctx, OF assms(1-4,8-11,20) I live] obtain freed s' where
    g: "MemStore_GC E T (Inr t) ctx fuel s = Some (None, freed, s')" "store_ok E view s'"
      "block_hashes (dbview view s') = block_hashes (dbview view s) \<inter> {m_Hash root}"
    and keep: "\<And>m. mid_wf (se_lib E) m \<and> m_Hash m \<in> {m_Hash root} \<longrightarrow> MemStore_Get E s' m = MemStore_Get E s m"
    by blast
  have here: "MemStore_Get E s' root = Inr raw" using keep [of root] wf(1) assms(18) by simp
  let ?m = "mid_of (se_lib E) (se_alg E) d"
  have "stored (dbview view s') ?m = None" using stored_hashes [of "dbview view s'" ?m] g(3) assms(19) by auto
  then have gone: "MemStore_Get E s' ?m = Inl ErrNotFound"
    using MemStore_Get_stored [OF g(2) assms(2) mid_wf_not_zero [OF mid_of_ok(2) [OF assms(4)]]] by simp
  obtain k where k: "fuel = Suc k" using assms(22) by (cases fuel) auto
  from single_root_open [OF assms(4-7,12-14) mid_wf_not_zero [OF wf(1)] here [unfolded assms(15)] gone, of k len] obtain r where
    "memfs_Open (se_lib E) (se_proto E) (Some (MemStore_Get E s')) fuel root = Some (Inr r)"
    "fst (freader_Read (MemStore_Get E s') len r) = ([], Some (Wrap ''memfs: read block'' ErrNotFound))" unfolding k by blast
  with g(1) here show ?thesis by (intro exI [of _ freed] exI [of _ s'] exI [of _ r]) simp
qed

definition demo_fs_env :: "(bytes \<times> bytes) list store_env" where
  "demo_fs_env = demo_env\<lparr>se_proto := demo_fs\<rparr>"

definition small_raw :: bytes where
  "small_raw = root_data demo_lib demo_marshal mh_SHA2_256 demo_opts [[5]]"

definition small_root :: MID where
  "small_root = codec_mid demo_lib mh_SHA2_256 CodecMemFS small_raw"

definition small_store :: "(bytes \<times> bytes) list MemStore" where
  "small_store = demo_store [(BlockKey small_root, small_raw), (BlockKey (demo_mid [5]), [5]),
     (SealKey small_root, PutUint64 CodecMemFS)] []"

theorem gc_breaks_small_file_witness:
  "\<exists>freed s' r. MemStore_GC demo_fs_env demo_pebble (Inr \<lparr>db_pebble = [], db_closed = False\<rparr>) (\<lambda>n. None) 2 small_store =
       Some (None, freed, s') \<and>
     memfs_Open demo_lib demo_fs (Some (MemStore_Get demo_fs_env s')) 2 small_root = Some (Inr r) \<and>
     fst (freader_Read (MemStore_Get demo_fs_env s') 4 r) = ([], Some (Wrap ''memfs: read block'' ErrNotFound))"
proof -
  let ?E = demo_fs_env and ?t = "\<lparr>db_pebble = [], db_closed = False\<rparr> :: (bytes \<times> bytes) list DB"
  have sel: "se_lib ?E = demo_lib" "se_alg ?E = mh_SHA2_256" "se_proto ?E = demo_fs" by (simp_all add: demo_fs_env_def)
  have ok: "store_ok ?E map_of small_store"
    using demo_store_ok [of _ "[]"] by (simp add: store_ok_def demo_fs_env_def small_store_def)
  have rw: "reads_ok ?E" "writes_ok ?E"
    using demo_reads demo_writes by (simp_all add: reads_ok_def writes_ok_def demo_fs_env_def)
  have L: "hashlib_ok (se_lib ?E)" "mh_code_first (se_lib ?E)" "memfs_proto_ok (se_proto ?E) demo_marshal"
    by (simp_all add: sel demo_lib_ok demo_code_first demo_fs_ok)
  have T: "temp_ok demo_pebble map_of" using demo_pebble_ok by (simp add: temp_ok_def demo_pebble_def)
  have t: "\<not> db_closed ?t" "map_of (db_pebble ?t) = Map.empty" by simp_all
  have mime: "ascii_mime (fo_mime demo_opts)" by (simp add: demo_opts_def ascii_mime_def)
  have d: "[5] \<noteq> ([] :: bytes)" "int (length [5 :: byte]) \<le> fo_maxBlk demo_opts" "length [5 :: byte] < 2 ^ 63"
    by (simp_all add: demo_opts_def)
  have raw: "small_raw = root_data (se_lib ?E) demo_marshal (se_alg ?E) demo_opts [[5]]"
    and root: "small_root = codec_mid (se_lib ?E) (se_alg ?E) CodecMemFS small_raw"
    by (simp_all add: sel small_raw_def small_root_def)
  have desc: "\<not> is_ok (tryParseDescriptor (se_proto ?E) small_raw)" by code_simp
  have get: "MemStore_Get ?E small_store small_root = Inr small_raw" by code_simp
  have ne: "m_Hash (mid_of (se_lib ?E) (se_alg ?E) [5]) \<noteq> m_Hash small_root" by code_simp
  have sealed: "MemStore_AllSealed ?E small_store = (None, [small_root])" by code_simp
  have shards: "erasureShardMIDs ?E small_store small_root = []" by code_simp
  from gc_breaks_small_file [where ctx = "\<lambda>n. None", OF ok rw L mime T t refl d raw desc root get ne sealed shards, of 2 4]
  show ?thesis by (auto simp: sel)
qed

end
