(* ===== verification/MemfsDirs.thy ===== *)
theory MemfsDirs
  imports MemfsBuilder GoStrings "HOL-Library.AList" "HOL-Library.Product_Lexorder"
begin

text \<open>
  The rest of src/core/memfs: accessors of nodes (node.go), object descriptors and MIME types
  (src/core/store/objectinfo.go), and the ingestion of whole directories (AddDirectoryFromFS and
  AddDirectoryStream of builder.go). AddFile is an argument here, the function of MemfsBuilder for
  some schedule of its goroutines.
\<close>

section \<open>Accessors\<close>

definition MetaValue :: "MemFSNode \<Rightarrow> MemFSMeta" where
  "MetaValue n = (case fn_Meta n of None \<Rightarrow> \<lparr>mm_MimeType = [], mm_Attrs = Map.empty\<rparr> | Some m \<Rightarrow> m)"

definition MimeType :: "MemFSNode \<Rightarrow> string" where
  "MimeType n = (case fn_Meta n of None \<Rightarrow> [] | Some m \<Rightarrow> mm_MimeType m)"

definition Serialize :: "marshaller \<Rightarrow> MemFSNode \<Rightarrow> bytes result" where
  "Serialize M n = (case M n of None \<Rightarrow> Inl (Msg ''proto'') | Some raw \<Rightarrow> Inr raw)"

definition FSNode_MID :: "hashlib \<Rightarrow> marshaller \<Rightarrow> u64 \<Rightarrow> MemFSNode \<Rightarrow> MID result" where
  "FSNode_MID L M alg n =
     (case Serialize M n of
        Inl err \<Rightarrow> Inl (Wrap ''memfs: marshal node: %w'' err)
      | Inr raw \<Rightarrow> FromBytesWithCodec L alg raw CodecMemFS)"

definition EntriesSorted :: "hashlib \<Rightarrow> MemFSNode \<Rightarrow> DirEntryValue list" where
  "EntriesSorted L n = sortDirEntries (EntriesValue L n)"

text \<open>fs.ModeDir and fs.ModeSymlink are the bits 31 and 27.\<close>

definition FSNode_Mode :: "MemFSNode \<Rightarrow> 32 word" where
  "FSNode_Mode n =
     (if fn_Mode n = 0 then
        (if fn_Type n = MemFSType_DIR then 0x80000000 + 493
         else if fn_Type n = MemFSType_SYMLINK then 0x08000000 + 511
         else 420)
      else fn_Mode n)"

section \<open>Object descriptors\<close>

definition zero_info :: ObjectInfo where
  "zero_info = \<lparr>oi_Name = [], oi_MimeType = [], oi_Size = 0, oi_IsRoot = False\<rparr>"

definition GetObjectInfo ::
    "hashlib \<Rightarrow> (bytes \<Rightarrow> ObjectInfo option) \<Rightarrow> ('s \<Rightarrow> string \<Rightarrow> bytes result) \<Rightarrow> 's option \<Rightarrow> MID \<Rightarrow> ObjectInfo result" where
  "GetObjectInfo L unjson getmeta so m =
     (case so of
        None \<Rightarrow> Inl (Msg ''store: nil blockstore'')
      | Some s \<Rightarrow>
          if IsZero m then Inl (Msg ''store: zero mid'')
          else case getmeta s (''obj/'' @ MID_String L m) of
            Inl err \<Rightarrow> if errors_Is err ErrNotFound then Inr zero_info else Inl err
          | Inr raw \<Rightarrow> (case unjson raw of None \<Rightarrow> Inr zero_info | Some info \<Rightarrow> Inr info))"

text \<open>
  strings.ToLower as far as it matters for comparing with the extensions below: besides the ASCII
  letters only U+0130 (bytes C4 B0) is lowered to one of their characters.
\<close>

fun lower_name :: "string \<Rightarrow> string" where
  "lower_name [] = []"
| "lower_name [c] = ascii_lower [c]"
| "lower_name (c # d # cs) =
     (if (of_char c :: nat) = 0xC4 \<and> (of_char d :: nat) = 0xB0 then CHR ''i'' # lower_name cs
      else ascii_lower [c] @ lower_name (d # cs))"

definition SniffMime :: "string \<Rightarrow> string" where
  "SniffMime name =
     (let low = lower_name name;
          ext = (if CHR ''.'' \<in> set low then CHR ''.'' # last (Split CHR ''.'' low) else [])
      in if name = [] then ''application/octet-stream''
         else if ext \<in> {''.html'', ''.htm''} then ''text/html; charset=utf-8''
         else if ext = ''.css'' then ''text/css; charset=utf-8''
         else if ext \<in> {''.js'', ''.mjs''} then ''application/javascript; charset=utf-8''
         else if ext = ''.json'' then ''application/json; charset=utf-8''
         else if ext \<in> {''.txt'', ''.log'', ''.md''} then ''text/plain; charset=utf-8''
         else if ext = ''.svg'' then ''image/svg+xml''
         else if ext = ''.png'' then ''image/png''
         else if ext \<in> {''.jpg'', ''.jpeg''} then ''image/jpeg''
         else if ext = ''.gif'' then ''image/gif''
         else if ext = ''.webp'' then ''image/webp''
         else if ext = ''.pdf'' then ''application/pdf''
         else if ext = ''.zip'' then ''application/zip''
         else if ext = ''.tar'' then ''application/x-tar''
         else if ext = ''.gz'' then ''application/gzip''
         else if ext = ''.mp3'' then ''audio/mpeg''
         else if ext = ''.mp4'' then ''video/mp4''
         else if ext = ''.webm'' then ''video/webm''
         else ''application/octet-stream'')"

section \<open>Paths\<close>

text \<open>Clean, Base and Dir of Go's package path.\<close>

definition clean_step :: "bool \<Rightarrow> string list \<Rightarrow> string \<Rightarrow> string list" where
  "clean_step rooted out seg =
     (if seg = [] \<or> seg = ''.'' then out
      else if seg = ''..'' then
        (if out \<noteq> [] \<and> last out \<noteq> ''..'' then butlast out else if rooted then out else out @ [''..''])
      else out @ [seg])"

fun join_path :: "string list \<Rightarrow> string" where
  "join_path [] = []"
| "join_path [s] = s"
| "join_path (s # t # ss) = s @ ''/'' @ join_path (t # ss)"

definition path_Clean :: "string \<Rightarrow> string" where
  "path_Clean p =
     (if p = [] then ''.''
      else let rooted = (hd p = CHR ''/'');
               body = join_path (foldl (clean_step rooted) [] (Split CHR ''/'' p))
           in if rooted then ''/'' @ body else if body = [] then ''.'' else body)"

definition path_Base :: "string \<Rightarrow> string" where
  "path_Base p =
     (if p = [] then ''.''
      else let b = last (Split CHR ''/'' (rev (dropWhile (\<lambda>c. c = CHR ''/'') (rev p))))
           in if b = [] then ''/'' else b)"

definition path_Dir :: "string \<Rightarrow> string" where
  "path_Dir p = path_Clean (take (length p - length (last (Split CHR ''/'' p))) p)"

definition hasPathPrefix :: "string \<Rightarrow> string \<Rightarrow> bool" where
  "hasPathPrefix s pre =
     (if pre = ''.'' then True
      else if length s < length pre then False
      else if take (length pre) s \<noteq> pre then False
      else if length s = length pre then True
      else s ! length pre = CHR ''/'')"

definition filepathRel :: "string \<Rightarrow> string \<Rightarrow> string result" where
  "filepathRel base0 p =
     (let base = (if base0 = [] then ''.'' else base0)
      in if p = base then Inr ''.''
         else if base = ''.'' then
           (let rel = (if 2 < length p \<and> take 2 p = ''./'' then drop 2 p else p)
            in Inr (if rel = [] then ''.'' else rel))
         else if \<not> hasPathPrefix p base then Inl (Msg ''memfs: %q is not under %q'')
         else
           (let rel = drop (length base) p;
                rel1 = (case rel of c # r \<Rightarrow> if c = CHR ''/'' then r else rel | [] \<Rightarrow> [])
            in Inr (if rel1 = [] then ''.'' else rel1)))"

section \<open>A directory from a stream of files\<close>

type_synonym ('s, 'r) addfile_op = "'s \<Rightarrow> string \<Rightarrow> 'r \<Rightarrow> 32 word \<Rightarrow> u64 \<Rightarrow> string \<Rightarrow> AddResult result \<times> 's"
type_synonym 's adddir_op = "'s \<Rightarrow> string \<Rightarrow> DirEntryValue list \<Rightarrow> 32 word \<Rightarrow> u64 \<Rightarrow> AddResult result \<times> 's"

record 'r StreamEntry =
  sx_Path :: string
  sx_Size :: int
  sx_R :: 'r

text \<open>A node of the tree in memory. The map of children is an association list without repeated names.\<close>

datatype treeNode = TFile MID u64 | TDir "(string \<times> treeNode) list"

text \<open>
  The loop over the parts of a path. A node that was made for a file has a nil map of children: looking it up finds
  nothing and writing to it panics.
\<close>

fun tree_insert :: "string list \<Rightarrow> MID \<Rightarrow> u64 \<Rightarrow> (string \<times> treeNode) list \<Rightarrow> (string \<times> treeNode) list result" where
  "tree_insert [] m sz cs = Inr cs"
| "tree_insert [part] m sz cs = Inr (AList.update part (TFile m sz) cs)"
| "tree_insert (part # q # parts) m sz cs =
     (case map_of cs part of
        None \<Rightarrow>
          (case tree_insert (q # parts) m sz [] of
             Inl p \<Rightarrow> Inl p
           | Inr sub \<Rightarrow> Inr (AList.update part (TDir sub) cs))
      | Some (TDir sub0) \<Rightarrow>
          (case tree_insert (q # parts) m sz sub0 of
             Inl p \<Rightarrow> Inl p
           | Inr sub \<Rightarrow> Inr (AList.update part (TDir sub) cs))
      | Some (TFile _ _) \<Rightarrow> Inl (Panic ''assignment to entry in nil map''))"

text \<open>The parts of an entry's path: strings.Split of path.Clean of the rooted path; none for the root itself.\<close>

definition entry_parts :: "string \<Rightarrow> string list" where
  "entry_parts p =
     (let rel0 = map (\<lambda>c. if c = CHR 0x5C then CHR ''/'' else c) p;
          rel = TrimPrefix (path_Clean (CHR ''/'' # rel0)) ''/''
      in if rel = [] \<or> rel = ''.'' then [] else Split CHR ''/'' rel)"

fun stream_files ::
    "('s, 'r) addfile_op \<Rightarrow> 'r StreamEntry list \<Rightarrow> (string \<times> treeNode) list \<Rightarrow> 's \<Rightarrow> (string \<times> treeNode) list result \<times> 's" where
  "stream_files addFile [] cs s = (Inr cs, s)"
| "stream_files addFile (entry # entries) cs s =
     (let parts = entry_parts (sx_Path entry)
      in if parts = [] then stream_files addFile entries cs s
         else case addFile s (last parts) (sx_R entry) 420 0 (SniffMime (last parts)) of
           (Inl err, s') \<Rightarrow> (Inl (Wrap ''memfs: add file %q: %w'' err), s')
         | (Inr res, s') \<Rightarrow>
             (case tree_insert parts (ar_MID res) (ar_Size res) cs of
                Inl p \<Rightarrow> (Inl p, s')
              | Inr cs' \<Rightarrow> stream_files addFile entries cs' s'))"

text \<open>The closure buildDir; the children in the order in which Go's range yields them.\<close>

fun buildDir :: "'s adddir_op \<Rightarrow> string \<Rightarrow> treeNode \<Rightarrow> 's \<Rightarrow> (MID \<times> u64 \<times> u64) result \<times> 's"
  and build_entries :: "'s adddir_op \<Rightarrow> (string \<times> treeNode) list \<Rightarrow> 's \<Rightarrow> DirEntryValue list result \<times> 's" where
  "buildDir addDir name (TFile m sz) s = (Inr (m, sz, 1), s)"
| "buildDir addDir name (TDir cs) s =
     (case build_entries addDir cs s of
        (Inl err, s') \<Rightarrow> (Inl err, s')
      | (Inr es, s') \<Rightarrow>
          (case addDir s' name es 493 0 of
             (Inl err, s2) \<Rightarrow> (Inl err, s2)
           | (Inr res, s2) \<Rightarrow> (Inr (ar_MID res, ar_Size res, ar_Block res), s2)))"
| "build_entries addDir [] s = (Inr [], s)"
| "build_entries addDir ((name, child) # cs) s =
     (case buildDir addDir name child s of
        (Inl err, s') \<Rightarrow> (Inl err, s')
      | (Inr (m, sz, _), s') \<Rightarrow>
          (case build_entries addDir cs s' of
             (Inl err, s2) \<Rightarrow> (Inl err, s2)
           | (Inr es, s2) \<Rightarrow>
               (Inr (\<lparr>dv_Name = name, dv_Mid = m,
                      dv_Type = (case child of TFile _ _ \<Rightarrow> MemFSType_FILE | TDir _ \<Rightarrow> MemFSType_DIR),
                      dv_Size = sz\<rparr> # es), s2)))"

text \<open>AddDirectoryStream; \<open>order\<close> puts the children of every node into the order of iteration.\<close>

definition AddDirectoryStream ::
    "('s, 'r) addfile_op \<Rightarrow> 's adddir_op \<Rightarrow> (treeNode \<Rightarrow> treeNode) \<Rightarrow> 's option \<Rightarrow> 'r StreamEntry list
     \<Rightarrow> AddResult result \<times> 's option" where
  "AddDirectoryStream addFile addDir order bso entries =
     (case bso of
        None \<Rightarrow> (Inl (Msg ''memfs: nil blockstore''), None)
      | Some s \<Rightarrow>
          if entries = [] then (Inl (Msg ''memfs: no entries''), Some s)
          else case stream_files addFile entries [] s of
            (Inl err, s') \<Rightarrow> (Inl err, Some s')
          | (Inr cs, s') \<Rightarrow>
              (case buildDir addDir [] (order (TDir cs)) s' of
                 (Inl err, s2) \<Rightarrow> (Inl err, Some s2)
               | (Inr (m, sz, blk), s2) \<Rightarrow> (Inr \<lparr>ar_MID = m, ar_Size = sz, ar_Block = blk\<rparr>, Some s2)))"

section \<open>A directory from a file system\<close>

text \<open>What fs.WalkDir passes to its callback, in its order, with what the calls on the entry return.\<close>

datatype 'r fskind = FsSymlink "string result" | FsDir | FsFile "'r result"

record 'r walked =
  wk_path :: string
  wk_err :: "gerror option"
  wk_info :: "(32 word \<times> u64) result"
  wk_kind :: "'r fskind"

record pending =
  pd_relPath :: string
  pd_isDir :: bool
  pd_entry :: AddResult

definition no_result :: AddResult where
  "no_result = \<lparr>ar_MID = MID_zero, ar_Size = 0, ar_Block = 0\<rparr>"

fun walk_entries ::
    "('s, 'r) addfile_op \<Rightarrow> ('s \<Rightarrow> string \<Rightarrow> 32 word \<Rightarrow> u64 \<Rightarrow> AddResult result \<times> 's) \<Rightarrow> string \<Rightarrow> 'r walked list
     \<Rightarrow> 's \<Rightarrow> pending list result \<times> 's" where
  "walk_entries addFile addSymlink root [] s = (Inr [], s)"
| "walk_entries addFile addSymlink root (w # ws) s =
     (case wk_err w of
        Some err \<Rightarrow> (Inl err, s)
      | None \<Rightarrow>
          (case filepathRel root (wk_path w) of
             Inl err \<Rightarrow> (Inl err, s)
           | Inr rel \<Rightarrow>
               if rel = ''.'' then walk_entries addFile addSymlink root ws s
               else case wk_info w of
                 Inl err \<Rightarrow> (Inl err, s)
               | Inr (perm, mt) \<Rightarrow>
                   (case (case wk_kind w of
                            FsSymlink (Inl err) \<Rightarrow> (Inl err, s)
                          | FsSymlink (Inr tgt) \<Rightarrow> addSymlink s tgt perm mt
                          | FsDir \<Rightarrow> (Inr no_result, s)
                          | FsFile (Inl err) \<Rightarrow> (Inl err, s)
                          | FsFile (Inr r) \<Rightarrow> addFile s (path_Base rel) r perm mt (SniffMime (path_Base rel))) of
                      (Inl err, s') \<Rightarrow> (Inl err, s')
                    | (Inr res, s') \<Rightarrow>
                        (case walk_entries addFile addSymlink root ws s' of
                           (Inl err, s2) \<Rightarrow> (Inl err, s2)
                         | (Inr ps, s2) \<Rightarrow>
                             (Inr (\<lparr>pd_relPath = rel, pd_isDir = (case wk_kind w of FsDir \<Rightarrow> True | _ \<Rightarrow> False), pd_entry = res\<rparr> # ps), s2)))))"

definition parent_of :: "string \<Rightarrow> string" where
  "parent_of rel = (let parent = path_Dir rel in if parent = ''.'' then [] else parent)"

definition add_child ::
    "string \<Rightarrow> AddResult \<Rightarrow> MemFSType \<Rightarrow> (string \<Rightarrow> DirEntryValue list) \<Rightarrow> string \<Rightarrow> DirEntryValue list" where
  "add_child rel res t byParent =
     byParent(parent_of rel := byParent (parent_of rel) @
       [\<lparr>dv_Name = path_Base rel, dv_Mid = ar_MID res, dv_Type = t, dv_Size = ar_Size res\<rparr>])"

text \<open>Everything that is not a directory is entered as a file, symbolic links too.\<close>

definition leaves_by_parent :: "pending list \<Rightarrow> string \<Rightarrow> DirEntryValue list" where
  "leaves_by_parent ps =
     fold (\<lambda>p. if pd_isDir p then (\<lambda>b. b) else add_child (pd_relPath p) (pd_entry p) MemFSType_FILE) ps (\<lambda>_. [])"

text \<open>The stable sort: deeper paths first, then greater paths first.\<close>

definition deepest_first :: "pending list \<Rightarrow> pending list" where
  "deepest_first ps =
     rev (sort_key (\<lambda>p. (length (filter (\<lambda>c. c = CHR ''/'') (pd_relPath p)), pd_relPath p)) (rev ps))"

fun build_dirs ::
    "'s adddir_op \<Rightarrow> pending list \<Rightarrow> (string \<Rightarrow> DirEntryValue list) \<Rightarrow> 's
     \<Rightarrow> (string \<Rightarrow> DirEntryValue list) result \<times> 's" where
  "build_dirs addDir [] byParent s = (Inr byParent, s)"
| "build_dirs addDir (p # ps) byParent s =
     (if \<not> pd_isDir p then build_dirs addDir ps byParent s
      else case addDir s (path_Base (pd_relPath p)) (byParent (pd_relPath p)) 493 0 of
        (Inl err, s') \<Rightarrow> (Inl err, s')
      | (Inr res, s') \<Rightarrow> build_dirs addDir ps (add_child (pd_relPath p) res MemFSType_DIR byParent) s')"

definition AddDirectoryFromFS ::
    "('s, 'r) addfile_op \<Rightarrow> 's adddir_op \<Rightarrow> ('s \<Rightarrow> string \<Rightarrow> 32 word \<Rightarrow> u64 \<Rightarrow> AddResult result \<times> 's)
     \<Rightarrow> (string \<Rightarrow> 'r walked list) option \<Rightarrow> 's option \<Rightarrow> string \<Rightarrow> AddResult result \<times> 's option" where
  "AddDirectoryFromFS addFile addDir addSymlink fsys bso root0 =
     (case bso of
        None \<Rightarrow> (Inl (Msg ''memfs: nil blockstore''), None)
      | Some s \<Rightarrow>
          (case fsys of
             None \<Rightarrow> (Inl (Msg ''memfs: nil fs''), Some s)
           | Some walkdir \<Rightarrow>
               let root = (if root0 = [] then ''.'' else root0)
               in case walk_entries addFile addSymlink root (walkdir root) s of
                    (Inl err, s') \<Rightarrow> (Inl err, Some s')
                  | (Inr ps, s') \<Rightarrow>
                      (case build_dirs addDir (deepest_first ps) (leaves_by_parent ps) s' of
                         (Inl err, s2) \<Rightarrow> (Inl err, Some s2)
                       | (Inr byParent, s2) \<Rightarrow>
                           (case addDir s2 ''.'' (byParent []) 493 0 of (res, s3) \<Rightarrow> (res, Some s3)))))"

end
