(* ===== verification/MemfsDirLaws.thy ===== *)
theory MemfsDirLaws
  imports MemfsProps MemfsDirs "HOL-Library.Sublist"
begin

text \<open>
  What AddDirectoryStream of src/core/memfs/builder.go and ResolvePath of resolver.go promise together: the tree in memory, the DIR nodes
  made of it, and the path lookup in them.
\<close>

section \<open>Paths\<close>

definition good_name :: "string \<Rightarrow> bool" where
  "good_name s \<longleftrightarrow> s \<noteq> [] \<and> CHR ''/'' \<notin> set s"

lemma Split_join: "ss \<noteq> [] \<Longrightarrow> \<forall>s \<in> set ss. CHR ''/'' \<notin> set s \<Longrightarrow> Split CHR ''/'' (join_path ss) = ss"
proof (induction ss rule: join_path.induct)
  case (3 s t ss)
  have split_app: "c \<notin> set a \<Longrightarrow> Split c (a @ c # b) = a # Split c b" for a b :: string and c
  proof (induction a)
    case (Cons x a)
    then show ?case by (cases "Split c b") auto
  qed simp
  from 3 have "Split CHR ''/'' (join_path (t # ss)) = t # ss" by simp
  with 3(3) split_app [of "CHR ''/''" s "join_path (t # ss)"] show ?case by simp
qed (simp_all add: Split_single)

lemma splitPath_join: "\<forall>s \<in> set ss. good_name s \<Longrightarrow> splitPath (join_path ss) = ss"
proof -
  have loop: "CHR ''/'' \<notin> set a \<Longrightarrow> split_loop seg (a @ b) = split_loop (seg @ a) b" for a b seg
    by (induction a arbitrary: seg) auto
  have "\<forall>s \<in> set ss. good_name s \<Longrightarrow> split_loop [] (join_path ss) = ss"
  proof (induction ss rule: join_path.induct)
    case (2 s)
    then show ?case using loop [where a = s and b = "[]" and seg = "[]"] by (simp add: good_name_def)
  next
    case (3 s t ss)
    then show ?case using loop [where a = s and b = "CHR ''/'' # join_path (t # ss)" and seg = "[]"] by (simp add: good_name_def)
  qed simp
  then show "\<forall>s \<in> set ss. good_name s \<Longrightarrow> splitPath (join_path ss) = ss" by (simp add: splitPath_def)
qed

lemma Split_no_sep: "s \<in> set (Split c p) \<Longrightarrow> c \<notin> set s \<and> set s \<subseteq> set p"
proof (induction p arbitrary: s)
  case (Cons x p)
  show ?case
  proof (cases "Split c p")
    case (Cons y ys)
    then have "c \<notin> set y \<and> set y \<subseteq> set p" using Cons.IH [of y] by simp
    with Cons.prems Cons.IH [of s] Cons show ?thesis by (auto split: if_splits)
  qed simp
qed simp

lemma clean_segments: "s \<in> set (foldl (clean_step r) out segs) \<Longrightarrow> s \<in> set out \<or> s = ''..'' \<or> s \<in> set segs \<and> s \<noteq> []"
proof (induction segs arbitrary: out)
  case (Cons x segs)
  have "s \<in> set (clean_step r out x) \<Longrightarrow> s \<in> set out \<or> s = ''..'' \<or> s = x \<and> s \<noteq> []"
    by (auto simp: clean_step_def dest: in_set_butlastD split: if_splits)
  with Cons show ?case by fastforce
qed simp

lemma join_path_eq_Nil: "\<forall>s \<in> set ss. s \<noteq> [] \<Longrightarrow> join_path ss = [] \<longleftrightarrow> ss = []"
  by (induction ss rule: join_path.induct) auto

text \<open>The parts of an entry are the segments that Clean leaves, so they are proper names.\<close>

lemma entry_parts_good:
  assumes "s \<in> set (entry_parts p)"
  shows "good_name s" "set s \<subseteq> set p \<union> {CHR ''.''}"
proof -
  let ?q = "map (\<lambda>c. if c = CHR 0x5C then CHR ''/'' else c) p"
  let ?segs = "foldl (clean_step True) [] (Split CHR ''/'' (CHR ''/'' # ?q))"
  have seg: "good_name x \<and> set x \<subseteq> set p \<union> {CHR ''.''}" if x: "x \<in> set ?segs" for x
  proof -
    have "x = ''..'' \<or> x \<in> set (Split CHR ''/'' (CHR ''/'' # ?q)) \<and> x \<noteq> []" using clean_segments [OF x] by auto
    then show ?thesis
    proof
      assume "x \<in> set (Split CHR ''/'' (CHR ''/'' # ?q)) \<and> x \<noteq> []"
      then have "CHR ''/'' \<notin> set x" "set x \<subseteq> insert CHR ''/'' (set ?q)" "x \<noteq> []"
        using Split_no_sep [of x "CHR ''/''" "CHR ''/'' # ?q"] by auto
      then show ?thesis by (auto simp: good_name_def split: if_splits)
    qed (simp add: good_name_def)
  qed
  have rel: "TrimPrefix (path_Clean (CHR ''/'' # ?q)) ''/'' = join_path ?segs"
    by (simp add: path_Clean_def TrimPrefix_def HasPrefix_def Let_def)
  have "entry_parts p = (if join_path ?segs = [] \<or> join_path ?segs = ''.'' then [] else Split CHR ''/'' (join_path ?segs))"
    unfolding entry_parts_def rel [symmetric] Let_def ..
  then have "s \<in> set (Split CHR ''/'' (join_path ?segs))" "?segs \<noteq> []" using assms by (auto split: if_splits)
  then have "s \<in> set ?segs" using Split_join [of ?segs] seg by (auto simp: good_name_def)
  with seg show "good_name s" "set s \<subseteq> set p \<union> {CHR ''.''}" by blast+
qed

section \<open>The tree in memory\<close>

fun look_tree :: "(string \<times> treeNode) list \<Rightarrow> string list \<Rightarrow> (MID \<times> u64) option" where
  "look_tree cs [] = None"
| "look_tree cs [p] = (case map_of cs p of Some (TFile m sz) \<Rightarrow> Some (m, sz) | _ \<Rightarrow> None)"
| "look_tree cs (p # q # ps) = (case map_of cs p of Some (TDir sub) \<Rightarrow> look_tree sub (q # ps) | _ \<Rightarrow> None)"

lemma look_Nil [simp]: "look_tree [] ps = None"
  by (cases ps) (auto intro: list.exhaust [of "tl ps"])

lemma insert_same: "ps \<noteq> [] \<Longrightarrow> tree_insert ps m sz cs = Inr cs' \<Longrightarrow> look_tree cs' ps = Some (m, sz)"
proof (induction ps m sz cs arbitrary: cs' rule: tree_insert.induct)
  case (3 part q parts m sz cs)
  then show ?case
    by (auto simp: update_conv' split: option.splits treeNode.splits sum.splits)
qed (auto simp: update_conv')

lemma insert_other:
  "tree_insert ps m sz cs = Inr cs' \<Longrightarrow> \<not> prefix ps qs \<Longrightarrow> \<not> prefix qs ps \<Longrightarrow> look_tree cs' qs = look_tree cs qs"
proof (induction ps m sz cs arbitrary: cs' qs rule: tree_insert.induct)
  case (2 part m sz cs)
  then obtain x xs where qs: "qs = x # xs" "x \<noteq> part" by (cases qs) auto
  with 2 show ?case by (cases xs) (auto simp: update_conv')
next
  case (3 part q parts m sz cs)
  then obtain x xs where qs: "qs = x # xs" by (cases qs) auto
  show ?case
  proof (cases "x = part")
    case False
    with 3(3) qs show ?thesis
      by (cases xs) (auto simp: update_conv' split: option.splits treeNode.splits sum.splits)
  next
    case True
    with 3(4,5) qs have p: "\<not> prefix (q # parts) xs" "\<not> prefix xs (q # parts)" by auto
    then obtain y ys where xs: "xs = y # ys" by (cases xs) auto
    show ?thesis
    proof (cases "map_of cs part")
      case None
      with 3(3) obtain sub where "tree_insert (q # parts) m sz [] = Inr sub" "cs' = AList.update part (TDir sub) cs"
        by (auto split: sum.splits)
      with 3(1) [OF None _ p] True qs xs None show ?thesis by (simp add: update_conv')
    next
      case (Some t)
      with 3(3) obtain sub0 sub where t: "t = TDir sub0" "tree_insert (q # parts) m sz sub0 = Inr sub" "cs' = AList.update part (TDir sub) cs"
        by (auto split: sum.splits treeNode.splits)
      with 3(2) [OF Some t(1) t(2) p] True qs xs Some show ?thesis by (simp add: update_conv')
    qed
  qed
qed auto

text \<open>An insertion panics only where a proper prefix of the path is a file.\<close>

lemma insert_ok:
  "(\<And>k. 0 < k \<Longrightarrow> k < length ps \<Longrightarrow> look_tree cs (take k ps) = None) \<Longrightarrow> \<exists>cs'. tree_insert ps m sz cs = Inr cs'"
proof (induction ps m sz cs rule: tree_insert.induct)
  case (3 part q parts m sz cs)
  have sub: "\<exists>sub. tree_insert (q # parts) m sz sub0 = Inr sub"
    if hyp: "map_of cs part = Some (TDir sub0)" for sub0
  proof -
    have "look_tree sub0 (take k (q # parts)) = None" if "0 < k" "k < length (q # parts)" for k
    proof -
      have "look_tree cs (take (Suc k) (part # q # parts)) = None" using that by (intro 3(3)) auto
      then show ?thesis using hyp that by (cases k) auto
    qed
    with 3(2) [OF hyp refl] show ?thesis by blast
  qed
  show ?case
  proof (cases "map_of cs part")
    case None
    with 3(1) [OF None] show ?thesis by fastforce
  next
    case (Some t)
    show ?thesis
    proof (cases t)
      case (TFile m' sz')
      with Some 3(3) [of 1] show ?thesis by simp
    next
      case (TDir sub0)
      with Some sub show ?thesis by fastforce
    qed
  qed
qed auto

text \<open>Well-formed trees: names are proper and not repeated, files have identifiers of MemFS nodes.\<close>

fun tree_ok :: "hashlib \<Rightarrow> treeNode \<Rightarrow> bool" and trees_ok :: "hashlib \<Rightarrow> (string \<times> treeNode) list \<Rightarrow> bool" where
  "tree_ok L (TFile m sz) \<longleftrightarrow> mid_wf L m \<and> m_codec m = CodecMemFS"
| "tree_ok L (TDir cs) \<longleftrightarrow> distinct (map fst cs) \<and> trees_ok L cs"
| "trees_ok L [] \<longleftrightarrow> True"
| "trees_ok L ((n, c) # cs) \<longleftrightarrow> good_name n \<and> ascii_mime n \<and> tree_ok L c \<and> trees_ok L cs"

lemma trees_ok_iff: "trees_ok L cs \<longleftrightarrow> (\<forall>(n, c) \<in> set cs. good_name n \<and> ascii_mime n \<and> tree_ok L c)"
  by (induction cs) auto

lemma trees_ok_update:
  assumes "trees_ok L cs" "distinct (map fst cs)" "good_name n" "ascii_mime n" "tree_ok L c"
  shows "trees_ok L (AList.update n c cs) \<and> distinct (map fst (AList.update n c cs))"
proof -
  have "set (AList.update n c cs) \<subseteq> insert (n, c) (set cs)" by (induction cs) auto
  moreover have "distinct (map fst (AList.update n c cs))" using assms(2) by (rule distinct_update)
  ultimately show ?thesis using assms by (auto simp: trees_ok_iff)
qed

lemma insert_wf:
  "tree_insert ps m sz cs = Inr cs' \<Longrightarrow> trees_ok L cs \<Longrightarrow> distinct (map fst cs) \<Longrightarrow> \<forall>p \<in> set ps. good_name p \<and> ascii_mime p \<Longrightarrow>
   mid_wf L m \<Longrightarrow> m_codec m = CodecMemFS \<Longrightarrow> trees_ok L cs' \<and> distinct (map fst cs')"
proof (induction ps m sz cs arbitrary: cs' rule: tree_insert.induct)
  case (3 part q parts m sz cs)
  note upd = trees_ok_update [OF "3.prems"(2,3), of part]
  show ?case
  proof (cases "map_of cs part")
    case None
    with "3.prems"(1) obtain sub where sub: "tree_insert (q # parts) m sz [] = Inr sub" "cs' = AList.update part (TDir sub) cs"
      by (auto split: sum.splits)
    with 3(1) [OF None sub(1)] "3.prems" upd show ?thesis by simp
  next
    case (Some t)
    with "3.prems"(1) obtain sub0 sub where t: "t = TDir sub0" "tree_insert (q # parts) m sz sub0 = Inr sub" "cs' = AList.update part (TDir sub) cs"
      by (auto split: sum.splits treeNode.splits)
    have "tree_ok L (TDir sub0)" using "3.prems"(2) map_of_SomeD [OF Some] t(1) unfolding trees_ok_iff by blast
    with 3(2) [OF Some t(1) t(2)] "3.prems" upd t show ?thesis by simp
  qed
next
  case (2 part m sz cs)
  then show ?case using trees_ok_update [of L cs part "TFile m sz"] by simp
qed auto

end
