(* ===== verification/MemfsTreeLaws.thy ===== *)
theory MemfsTreeLaws
  imports MemfsDirLaws
begin

text \<open>
  The DIR nodes that buildDir and AddDir store for a tree in memory, and the lookup of a path in them.
\<close>

section \<open>The nodes of a tree\<close>

definition dir_blob :: "marshaller \<Rightarrow> DirEntryValue list \<Rightarrow> bytes" where
  "dir_blob M es = (case M (dir_node (sortDirEntries es) 493 0) of None \<Rightarrow> [] | Some raw \<Rightarrow> raw)"

fun tree_entry :: "hashlib \<Rightarrow> marshaller \<Rightarrow> u64 \<Rightarrow> string \<Rightarrow> treeNode \<Rightarrow> DirEntryValue"
  and tree_entries :: "hashlib \<Rightarrow> marshaller \<Rightarrow> u64 \<Rightarrow> (string \<times> treeNode) list \<Rightarrow> DirEntryValue list" where
  "tree_entry L M alg n (TFile m sz) = \<lparr>dv_Name = n, dv_Mid = m, dv_Type = MemFSType_FILE, dv_Size = sz\<rparr>"
| "tree_entry L M alg n (TDir cs) =
     \<lparr>dv_Name = n, dv_Mid = codec_mid L alg CodecMemFS (dir_blob M (tree_entries L M alg cs)), dv_Type = MemFSType_DIR,
      dv_Size = (\<Sum>e \<leftarrow> sortDirEntries (tree_entries L M alg cs). dv_Size e)\<rparr>"
| "tree_entries L M alg [] = []"
| "tree_entries L M alg ((n, c) # cs) = tree_entry L M alg n c # tree_entries L M alg cs"

text \<open>The bytes of all DIR nodes of a tree.\<close>

fun tree_blobs :: "hashlib \<Rightarrow> marshaller \<Rightarrow> u64 \<Rightarrow> treeNode \<Rightarrow> bytes set"
  and trees_blobs :: "hashlib \<Rightarrow> marshaller \<Rightarrow> u64 \<Rightarrow> (string \<times> treeNode) list \<Rightarrow> bytes set" where
  "tree_blobs L M alg (TFile m sz) = {}"
| "tree_blobs L M alg (TDir cs) = insert (dir_blob M (tree_entries L M alg cs)) (trees_blobs L M alg cs)"
| "trees_blobs L M alg [] = {}"
| "trees_blobs L M alg ((n, c) # cs) = tree_blobs L M alg c \<union> trees_blobs L M alg cs"

lemma tree_entries_map: "tree_entries L M alg cs = map (\<lambda>(n, c). tree_entry L M alg n c) cs"
  by (induction cs) auto

lemma trees_blobs_Union: "trees_blobs L M alg cs = (\<Union>(n, c) \<in> set cs. tree_blobs L M alg c)"
  by (induction cs) auto

lemma tree_entry_name [simp]: "dv_Name (tree_entry L M alg n c) = n"
  by (cases c) simp_all

lemma tree_entry_wf: "hashlib_ok L \<Longrightarrow> tree_ok L c \<Longrightarrow> mid_wf L (dv_Mid (tree_entry L M alg n c)) \<and> m_codec (dv_Mid (tree_entry L M alg n c)) = CodecMemFS"
  by (cases c) (simp_all add: codec_mid_ok)

text \<open>What is required of the protobuf runtime for directories, as for files.\<close>

definition plain_dir :: "MemFSNode \<Rightarrow> bool" where
  "plain_dir n \<longleftrightarrow> fn_Type n = MemFSType_DIR \<and> fn_Data n = [] \<and> fn_Blocks n = [] \<and> fn_SymlinkTarget n = [] \<and> fn_Meta n = None \<and>
     fn_FileSize n = 0 \<and> (\<forall>e \<in> set (fn_Entries n). \<exists>d. e = Some d \<and> ascii_mime (de_Name d))"

definition memfs_dir_ok :: "protolib \<Rightarrow> marshaller \<Rightarrow> bool" where
  "memfs_dir_ok P M \<longleftrightarrow>
     (\<forall>n. plain_dir n \<longrightarrow> (\<exists>raw. M n = Some raw \<and> raw \<noteq> [] \<and> pb_MemFSNode_Unmarshal P raw = Some n))"

lemma set_sortDirEntries [simp]: "set (sortDirEntries es) = set es"
  by (simp add: sortDirEntries_def)

lemma dir_blob:
  assumes "memfs_dir_ok P M" "\<forall>e \<in> set es. ascii_mime (dv_Name e)"
  shows "M (dir_node (sortDirEntries es) 493 0) = Some (dir_blob M es)" "dir_blob M es \<noteq> []"
    "pb_MemFSNode_Unmarshal P (dir_blob M es) = Some (dir_node (sortDirEntries es) 493 0)"
proof -
  have "plain_dir (dir_node (sortDirEntries es) 493 0)"
    using assms(2) by (auto simp: plain_dir_def dir_node_def file_node_def)
  then obtain raw where raw: "M (dir_node (sortDirEntries es) 493 0) = Some raw" "raw \<noteq> []"
      "pb_MemFSNode_Unmarshal P raw = Some (dir_node (sortDirEntries es) 493 0)"
    using assms(1) unfolding memfs_dir_ok_def by blast
  then show "M (dir_node (sortDirEntries es) 493 0) = Some (dir_blob M es)" "dir_blob M es \<noteq> []"
    "pb_MemFSNode_Unmarshal P (dir_blob M es) = Some (dir_node (sortDirEntries es) 493 0)"
    by (simp_all add: dir_blob_def)
qed

lemma tree_entries_ascii: "trees_ok L cs \<Longrightarrow> \<forall>e \<in> set (tree_entries L' M alg cs). ascii_mime (dv_Name e)"
  by (auto simp: tree_entries_map trees_ok_iff)

section \<open>Order\<close>

text \<open>The same tree with the children of its nodes in another order.\<close>

inductive reordered :: "treeNode \<Rightarrow> treeNode \<Rightarrow> bool" where
  same_file: "reordered (TFile m sz) (TFile m sz)"
| same_dir: "list_all2 (\<lambda>x y. fst x = fst y \<and> reordered (snd x) (snd y)) cs ds \<Longrightarrow> mset ds = mset es \<Longrightarrow>
    reordered (TDir cs) (TDir es)"

inductive_cases reordered_FileE: "reordered (TFile m sz) t"
inductive_cases reordered_DirE: "reordered (TDir cs) t"

lemma sort_unique:
  assumes "mset es = mset es'" "distinct (map dv_Name es)"
  shows "sortDirEntries es = sortDirEntries es'"
  unfolding sortDirEntries_def using assms by (intro sort_key_inj_key_eq) (simp_all add: distinct_map)

text \<open>The order of the children is invisible in the node, its identifier and all nodes below.\<close>

lemma reordered_same:
  "reordered t t' \<Longrightarrow> tree_ok L t \<Longrightarrow> tree_ok L t' \<and> (\<forall>n. tree_entry L M alg n t' = tree_entry L M alg n t) \<and> tree_blobs L M alg t' = tree_blobs L M alg t"
proof (induction rule: reordered.induct)
  case (same_dir cs ds es)
  have ok: "trees_ok L cs" "distinct (map fst cs)" using same_dir.prems by simp_all
  have len: "length ds = length cs" using list_all2_lengthD [OF same_dir.IH] by simp
  have nth: "fst (ds ! i) = fst (cs ! i) \<and> tree_ok L (snd (ds ! i)) \<and>
      tree_entry L M alg (fst (cs ! i)) (snd (ds ! i)) = tree_entry L M alg (fst (cs ! i)) (snd (cs ! i)) \<and>
      tree_blobs L M alg (snd (ds ! i)) = tree_blobs L M alg (snd (cs ! i))" if "i < length cs" for i
  proof -
    have "cs ! i \<in> set cs" using that by simp
    then have "tree_ok L (snd (cs ! i))" using ok(1) by (auto simp: trees_ok_iff)
    with list_all2_nthD [OF same_dir.IH, of i] that show ?thesis by (auto simp: split_beta)
  qed
  have names: "map fst ds = map fst cs" using len nth by (auto intro: nth_equalityI)
  have "tree_entries L M alg ds = tree_entries L M alg cs"
    unfolding tree_entries_map by (rule nth_equalityI) (use len nth in \<open>simp_all add: split_beta\<close>)
  moreover have "mset (tree_entries L M alg es) = mset (tree_entries L M alg ds)"
    using same_dir.hyps(1) by (simp add: tree_entries_map)
  moreover have "map dv_Name (tree_entries L M alg cs) = map fst cs" by (simp add: tree_entries_map split_beta comp_def)
  ultimately have s: "sortDirEntries (tree_entries L M alg es) = sortDirEntries (tree_entries L M alg cs)"
    using sort_unique [of "tree_entries L M alg cs" "tree_entries L M alg es"] ok(2) by simp
  have seteq: "set es = set ds" using same_dir.hyps(1) by (metis mset_eq_setD)
  have "trees_blobs L M alg es = trees_blobs L M alg cs"
  proof -
    have "map (\<lambda>x. tree_blobs L M alg (snd x)) ds = map (\<lambda>x. tree_blobs L M alg (snd x)) cs"
      by (rule nth_equalityI) (use len nth in simp_all)
    then have "(\<lambda>x. tree_blobs L M alg (snd x)) ` set ds = (\<lambda>x. tree_blobs L M alg (snd x)) ` set cs"
      by (metis list.set_map)
    then show ?thesis using seteq by (simp add: trees_blobs_Union split_beta)
  qed
  moreover have "good_name (fst x) \<and> ascii_mime (fst x) \<and> tree_ok L (snd x)" if x: "x \<in> set ds" for x
  proof -
    obtain i where i: "i < length cs" "x = ds ! i" using x len by (auto simp: in_set_conv_nth)
    then have "cs ! i \<in> set cs" by simp
    then have "good_name (fst (cs ! i)) \<and> ascii_mime (fst (cs ! i))" using ok(1) unfolding trees_ok_iff by (simp add: split_beta)
    then show ?thesis using nth [OF i(1)] i(2) by simp
  qed
  then have "trees_ok L es" using seteq by (simp add: trees_ok_iff split_beta)
  moreover have "distinct (map fst es)" using same_dir.hyps(1) names ok(2) by (metis mset_eq_imp_distinct_iff mset_map)
  ultimately show ?case using s by (simp add: dir_blob_def)
qed simp

section \<open>Building\<close>

definition AddDir_op ::
    "hashlib \<Rightarrow> marshaller \<Rightarrow> u64 \<Rightarrow> 's put_op \<Rightarrow> (ObjectInfo \<Rightarrow> bytes result) \<Rightarrow> 's putmeta_op \<Rightarrow> 's adddir_op" where
  "AddDir_op L M alg put json putmeta s name es mode mt =
     (case AddDir L M alg put json putmeta (Some s) name es mode mt of (r, so) \<Rightarrow> (r, the so))"

lemma codec_blobs: "snd ` Pair c ` W = W"
  by (simp add: image_image)

context file_store begin

text \<open>AddDir stores its node and keeps what was stored before.\<close>

lemma AddDir_stores:
  assumes "hashlib_ok L" "memfs_dir_ok P M" "\<And>info. is_ok (json info)" "no_clash L alg D" "kept X s" "snd ` X \<subseteq> D"
    "dir_blob M es \<in> D" "\<forall>e \<in> set es. ascii_mime (dv_Name e)"
  shows "\<exists>s'. AddDir_op L M alg put json putmeta s name es 493 0 =
      (Inr \<lparr>ar_MID = codec_mid L alg CodecMemFS (dir_blob M es), ar_Size = (\<Sum>e \<leftarrow> sortDirEntries es. dv_Size e), ar_Block = 1\<rparr>, s') \<and>
    kept (insert (CodecMemFS, dir_blob M es) X) s'"
proof -
  let ?d = "dir_blob M es"
  let ?m = "codec_mid L alg CodecMemFS ?d"
  have h: "holds M X {} s" using assms(5) by (simp add: holds_def)
  have "no_clash L alg (snd ` X \<union> D)" using assms(4,6) by (simp add: Un_absorb1)
  from put_holds [OF assms(1) this h _ assms(7)] obtain b1 where
    b1: "put s ?m ?d = (None, b1)" "holds M X {} b1" "blocks b1 = (blocks s)(key ?m \<mapsto> ?d)" by auto
  have h1: "kept (insert (CodecMemFS, ?d) X) b1" using b1(2,3) by (auto simp: holds_def kept_def)
  obtain b2 where b2: "SetObjectInfo L json putmeta b1 ?m
      \<lparr>oi_Name = name, oi_MimeType = ''inode/directory'', oi_Size = (\<Sum>e \<leftarrow> sortDirEntries es. dv_Size e), oi_IsRoot = False\<rparr> = (None, b2)"
      "kept (insert (CodecMemFS, ?d) X) b2"
  proof -
    let ?info = "\<lparr>oi_Name = name, oi_MimeType = ''inode/directory'', oi_Size = (\<Sum>e \<leftarrow> sortDirEntries es. dv_Size e), oi_IsRoot = False\<rparr>"
    obtain buf where buf: "json ?info = Inr buf" using assms(3) [of ?info] by (auto simp: is_ok_iff)
    obtain b2 where "putmeta b1 (''obj/'' @ MID_String L ?m) buf = (None, b2)" "invar b2" "blocks b2 = blocks b1"
      using putmeta_keeps [OF kept_invar [OF h1], of "''obj/'' @ MID_String L ?m" buf] by auto
    moreover have "\<not> IsZero ?m" using codec_mid_ok(2) [OF assms(1)] by (rule mid_wf_not_zero)
    ultimately show ?thesis using buf h1 that [of b2] by (simp add: SetObjectInfo_def kept_def)
  qed
  show ?thesis
    using b1(1) b2 h1 dir_blob(1) [OF assms(2,8)] codec_mid_ok(1) [OF assms(1), of alg ?d CodecMemFS]
    by (cases "name = []") (simp_all add: AddDir_op_def AddDir_def Let_def)
qed

lemma buildDir_stores:
  assumes "hashlib_ok L" "memfs_dir_ok P M" "\<And>info. is_ok (json info)" "no_clash L alg D"
  shows "kept X s \<Longrightarrow> snd ` X \<union> tree_blobs L M alg t \<subseteq> D \<Longrightarrow> tree_ok L t \<Longrightarrow>
    \<exists>s' blk. buildDir (AddDir_op L M alg put json putmeta) n t s =
        (Inr (dv_Mid (tree_entry L M alg n t), dv_Size (tree_entry L M alg n t), blk), s') \<and>
      kept (X \<union> Pair CodecMemFS ` tree_blobs L M alg t) s'"
    and "kept X s \<Longrightarrow> snd ` X \<union> trees_blobs L M alg cs \<subseteq> D \<Longrightarrow> trees_ok L cs \<Longrightarrow>
    \<exists>s'. build_entries (AddDir_op L M alg put json putmeta) cs s = (Inr (tree_entries L M alg cs), s') \<and>
      kept (X \<union> Pair CodecMemFS ` trees_blobs L M alg cs) s'"
proof (induction "AddDir_op L M alg put json putmeta" n t s and "AddDir_op L M alg put json putmeta" cs s
    arbitrary: X and X rule: buildDir_build_entries.induct)
  case (1 name m sz s)
  then show ?case by simp
next
  case (2 name cs s)
  let ?X = "X \<union> Pair CodecMemFS ` trees_blobs L M alg cs"
  obtain s1 where s1: "build_entries (AddDir_op L M alg put json putmeta) cs s = (Inr (tree_entries L M alg cs), s1)" "kept ?X s1"
    using "2.hyps" [OF "2.prems"(1)] "2.prems"(2,3) by auto
  have "snd ` ?X \<subseteq> D" "dir_blob M (tree_entries L M alg cs) \<in> D" using "2.prems"(2) by (auto simp: image_Un codec_blobs)
  from AddDir_stores [where json = json, OF assms(1-4) s1(2) this, of name] tree_entries_ascii [of L cs L M alg] "2.prems"(3)
  obtain s2 where "AddDir_op L M alg put json putmeta s1 name (tree_entries L M alg cs) 493 0 =
      (Inr \<lparr>ar_MID = codec_mid L alg CodecMemFS (dir_blob M (tree_entries L M alg cs)),
            ar_Size = (\<Sum>e \<leftarrow> sortDirEntries (tree_entries L M alg cs). dv_Size e), ar_Block = 1\<rparr>, s2)"
      "kept (insert (CodecMemFS, dir_blob M (tree_entries L M alg cs)) ?X) s2" by auto
  with s1(1) show ?case by simp
next
  case (3 s)
  then show ?case by simp
next
  case (4 name child cs s)
  let ?X = "X \<union> Pair CodecMemFS ` tree_blobs L M alg child"
  obtain s1 blk where s1: "buildDir (AddDir_op L M alg put json putmeta) name child s =
      (Inr (dv_Mid (tree_entry L M alg name child), dv_Size (tree_entry L M alg name child), blk), s1)" "kept ?X s1"
    using "4.hyps"(1) [OF "4.prems"(1)] "4.prems"(2,3) by auto
  have "snd ` ?X \<union> trees_blobs L M alg cs \<subseteq> D" using "4.prems"(2) by (auto simp: image_Un codec_blobs)
  from "4.hyps"(2) [OF s1(1) [symmetric] refl refl refl s1(2) this] "4.prems"(3) obtain s2 where
    s2: "build_entries (AddDir_op L M alg put json putmeta) cs s1 = (Inr (tree_entries L M alg cs), s2)"
      "kept (?X \<union> Pair CodecMemFS ` trees_blobs L M alg cs) s2" by auto
  show ?case using s1(1) s2 by (cases child) (simp_all add: Un_assoc image_Un)
qed

end

end
