(* ===== verification/MemfsStream.thy ===== *)
theory MemfsStream
  imports MemfsTreeLaws
begin

text \<open>
  AddDirectoryStream of src/core/memfs/builder.go together with AddFile, AddDir and ResolvePath: every file of
  an uploaded directory is found under its path and reads as it was sent.
\<close>

section \<open>Path lookup in stored directories\<close>

lemma midFromBytes_wf:
  assumes "mh_code_first L" "mid_wf L m"
  shows "midFromBytesWithCodec L (m_Hash m) (m_codec m) = m"
proof -
  let ?h = "m_Hash m"
  have v: "validateEnvelope L ?h = Inr ()" using assms(2) by (simp add: mid_wf_def)
  then obtain dm where dm: "mh_Decode L ?h = Some dm" "isSupportedHash (dm_Code dm)" "?h \<noteq> []"
    by (auto simp: validateEnvelope_ok_iff)
  then have "take 1 ?h = [ucast (dm_Code dm)]" using assms(1) unfolding mh_code_first_def by blast
  then have "\<not> take 3 (string_of_bytes ?h) = ''mem''"
    using supported_not_m [OF dm(2)] dm(3) by (cases ?h) (auto simp: string_of_bytes_def numeral_3_eq_3)
  moreover have "FromMultihash L (m_codec m) ?h = Inr m"
    unfolding FromMultihash_def fromCodecAndHashErr_ok_iff using v assms(2)
    by (auto simp: mid_wf_def intro!: MID.equality)
  ultimately show ?thesis using dm(3) by (simp add: midFromBytesWithCodec_def Let_def)
qed

lemma EntriesValue_dir:
  assumes "mh_code_first L" "\<forall>e \<in> set es. mid_wf L (dv_Mid e) \<and> m_codec (dv_Mid e) = CodecMemFS"
  shows "EntriesValue L (dir_node es mode mt) = es"
proof -
  have "midFromBytes L (m_Hash (dv_Mid e)) = dv_Mid e" if "e \<in> set es" for e
    using midFromBytes_wf [OF assms(1), of "dv_Mid e"] assms(2) that unfolding midFromBytes_def by metis
  then show ?thesis by (simp add: EntriesValue_def dir_node_def file_node_def comp_def map_idI)
qed

lemma find_key: "distinct (map f xs) \<Longrightarrow> x \<in> set xs \<Longrightarrow> f x = k \<Longrightarrow> List.find (\<lambda>y. f y = k) xs = Some x"
  by (induction xs) (auto simp: rev_image_eqI)

lemma find_entry:
  assumes "distinct (map dv_Name es)" "e \<in> set es"
  shows "List.find (\<lambda>x. dv_Name x = dv_Name e) (sortDirEntries es) = Some e"
  using assms by (intro find_key) (simp_all add: sortDirEntries_def distinct_map)

text \<open>The node of a directory as the resolver sees it.\<close>

lemma resolve_dir:
  assumes "hashlib_ok L" "memfs_dir_ok P M" "trees_ok L cs"
    "get (codec_mid L alg CodecMemFS (dir_blob M (tree_entries L M alg cs))) = Inr (dir_blob M (tree_entries L M alg cs))"
  shows "memfs_Resolve L P (Some get) (codec_mid L alg CodecMemFS (dir_blob M (tree_entries L M alg cs))) =
    Inr (dir_node (sortDirEntries (tree_entries L M alg cs)) 493 0)"
proof -
  note d = dir_blob [OF assms(2) tree_entries_ascii [OF assms(3)]]
  have "\<not> IsZero (codec_mid L alg CodecMemFS (dir_blob M (tree_entries L M alg cs)))"
    using codec_mid_ok(2) [OF assms(1)] by (rule mid_wf_not_zero)
  then show ?thesis using assms(4) d by (simp add: memfs_Resolve_def ParseNode_def)
qed

lemma descend_step:
  assumes "hashlib_ok L" "mh_code_first L" "trees_ok L cs" "distinct (map fst cs)" "map_of cs p = Some c"
    "memfs_Resolve L P bs (dv_Mid (tree_entry L M alg p c)) = Inr n"
  shows "descend L P bs (p # ps) (dir_node (sortDirEntries (tree_entries L M alg cs)) 493 0) = descend L P bs ps n"
proof -
  let ?es = "tree_entries L M alg cs" and ?e = "tree_entry L M alg p c"
  have "\<forall>e \<in> set (sortDirEntries ?es). mid_wf L (dv_Mid e) \<and> m_codec (dv_Mid e) = CodecMemFS"
    using assms(3) tree_entry_wf [OF assms(1)] by (auto simp: tree_entries_map trees_ok_iff)
  then have ev: "EntriesValue L (dir_node (sortDirEntries ?es) 493 0) = sortDirEntries ?es"
    by (rule EntriesValue_dir [OF assms(2)])
  have "distinct (map dv_Name ?es)" using assms(4) by (simp add: tree_entries_map split_beta comp_def)
  moreover have "?e \<in> set ?es" using map_of_SomeD [OF assms(5)] by (force simp: tree_entries_map)
  ultimately have "List.find (\<lambda>x. dv_Name x = p) (sortDirEntries ?es) = Some ?e" using find_entry [of ?es ?e] by simp
  moreover have "fn_Type (dir_node (sortDirEntries ?es) 493 0) = MemFSType_DIR" by (simp add: dir_node_def)
  ultimately show ?thesis using ev assms(6) by simp
qed

lemma descend_tree:
  assumes "hashlib_ok L" "mh_code_first L" "memfs_dir_ok P M"
  shows "look_tree cs ps = Some (m, sz) \<Longrightarrow> trees_ok L cs \<Longrightarrow> distinct (map fst cs) \<Longrightarrow>
    (\<And>d. d \<in> trees_blobs L M alg cs \<Longrightarrow> get (codec_mid L alg CodecMemFS d) = Inr d) \<Longrightarrow>
    memfs_Resolve L P (Some get) m = Inr n \<Longrightarrow>
    descend L P (Some get) ps (dir_node (sortDirEntries (tree_entries L M alg cs)) 493 0) = Inr n"
proof (induction cs ps rule: look_tree.induct)
  case (2 cs p)
  then have c: "map_of cs p = Some (TFile m sz)" by (auto split: option.splits treeNode.splits)
  have "memfs_Resolve L P (Some get) (dv_Mid (tree_entry L M alg p (TFile m sz))) = Inr n" using "2.prems"(5) by simp
  from descend_step [OF assms(1,2) "2.prems"(2,3) c this, of "[]"] show ?case by simp
next
  case (3 cs p q ps)
  then obtain sub where c: "map_of cs p = Some (TDir sub)" and sub: "look_tree sub (q # ps) = Some (m, sz)"
    by (auto split: option.splits treeNode.splits)
  have "tree_ok L (TDir sub)" using "3.prems"(2) map_of_SomeD [OF c] unfolding trees_ok_iff by blast
  then have ok: "trees_ok L sub" "distinct (map fst sub)" by simp_all
  have in_cs: "tree_blobs L M alg (TDir sub) \<subseteq> trees_blobs L M alg cs"
    using map_of_SomeD [OF c] by (auto simp: trees_blobs_Union simp del: tree_blobs.simps)
  then have "get (codec_mid L alg CodecMemFS (dir_blob M (tree_entries L M alg sub))) = Inr (dir_blob M (tree_entries L M alg sub))"
    using "3.prems"(4) by simp
  from resolve_dir [where get = get, OF assms(1,3) ok(1) this]
  have "memfs_Resolve L P (Some get) (dv_Mid (tree_entry L M alg p (TDir sub))) =
      Inr (dir_node (sortDirEntries (tree_entries L M alg sub)) 493 0)" by simp
  then have "descend L P (Some get) (p # q # ps) (dir_node (sortDirEntries (tree_entries L M alg cs)) 493 0) =
      descend L P (Some get) (q # ps) (dir_node (sortDirEntries (tree_entries L M alg sub)) 493 0)"
    by (rule descend_step [OF assms(1,2) "3.prems"(2,3) c])
  also have "\<dots> = Inr n" by (rule "3.IH" [OF c refl sub ok _ "3.prems"(5)]) (use "3.prems"(4) in_cs in auto)
  finally show ?case .
qed simp

section \<open>The tree of a stream\<close>

text \<open>The tree that AddDirectoryStream builds in memory, as a function of the entries and their chunks.\<close>

definition stream_opts :: "int \<Rightarrow> 'r StreamEntry \<Rightarrow> fileopts" where
  "stream_opts mb e =
     (let name = last (entry_parts (sx_Path e))
      in \<lparr>fo_name = name, fo_mode = 420, fo_mtime = 0, fo_mime = SniffMime name, fo_maxBlk = mb\<rparr>)"

definition entry_mid :: "hashlib \<Rightarrow> marshaller \<Rightarrow> u64 \<Rightarrow> int \<Rightarrow> ('r \<Rightarrow> bytes list) \<Rightarrow> 'r StreamEntry \<Rightarrow> MID" where
  "entry_mid L M alg mb chunks e = codec_mid L alg CodecMemFS (root_data L M alg (stream_opts mb e) (chunks (sx_R e)))"

definition entry_size :: "('r \<Rightarrow> bytes list) \<Rightarrow> 'r StreamEntry \<Rightarrow> u64" where
  "entry_size chunks e = of_nat (length (concat (chunks (sx_R e))))"

fun stream_tree ::
    "hashlib \<Rightarrow> marshaller \<Rightarrow> u64 \<Rightarrow> int \<Rightarrow> ('r \<Rightarrow> bytes list) \<Rightarrow> 'r StreamEntry list \<Rightarrow> (string \<times> treeNode) list
     \<Rightarrow> (string \<times> treeNode) list result" where
  "stream_tree L M alg mb chunks [] cs = Inr cs"
| "stream_tree L M alg mb chunks (e # es) cs =
     (case tree_insert (entry_parts (sx_Path e)) (entry_mid L M alg mb chunks e) (entry_size chunks e) cs of
        Inl p \<Rightarrow> Inl p
      | Inr cs' \<Rightarrow> stream_tree L M alg mb chunks es cs')"

text \<open>Paths that do not conflict: neither is the other or a directory above it.\<close>

definition apart :: "string list \<Rightarrow> string list \<Rightarrow> bool" where
  "apart ps qs \<longleftrightarrow> \<not> prefix ps qs \<and> \<not> prefix qs ps"

lemma insert_only:
  "tree_insert ps m sz cs = Inr cs' \<Longrightarrow> look_tree cs' qs = Some x \<Longrightarrow> qs = ps \<or> look_tree cs qs = Some x"
proof (induction ps m sz cs arbitrary: cs' qs rule: tree_insert.induct)
  case (2 part m sz cs)
  then obtain y ys where qs: "qs = y # ys" by (cases qs) auto
  with 2 show ?case by (cases ys) (auto simp: update_conv' split: if_splits)
next
  case (3 part q parts m sz cs)
  then obtain y ys where qs: "qs = y # ys" by (cases qs) auto
  obtain sub0 sub where t: "tree_insert (q # parts) m sz sub0 = Inr sub" "cs' = AList.update part (TDir sub) cs"
      "map_of cs part = None \<and> sub0 = [] \<or> map_of cs part = Some (TDir sub0)"
    using "3.prems"(1) by (auto split: option.splits sum.splits treeNode.splits)
  show ?case
  proof (cases "y = part")
    case False
    with "3.prems"(2) qs t(2) show ?thesis by (cases ys) (auto simp: update_conv')
  next
    case True
    with "3.prems"(2) qs t(2) obtain z zs where ys: "ys = z # zs" and l: "look_tree sub ys = Some x"
      by (cases ys) (auto simp: update_conv')
    have "ys = q # parts \<or> look_tree sub0 ys = Some x" using t(3)
    proof
      assume "map_of cs part = None \<and> sub0 = []"
      then show ?thesis using "3.IH"(1) [of sub ys] t(1) l by auto
    next
      assume c: "map_of cs part = Some (TDir sub0)"
      show ?thesis by (rule "3.IH"(2) [OF c refl t(1) l])
    qed
    with True qs ys t(3) show ?thesis by auto
  qed
qed simp

lemma apart_sym: "apart ps qs \<Longrightarrow> apart qs ps"
  by (simp add: apart_def)

text \<open>Conflict-free entries make a well-formed tree in which each is found.\<close>

lemma stream_tree_built:
  assumes "hashlib_ok L"
  shows "sorted_wrt (\<lambda>e e'. apart (entry_parts (sx_Path e)) (entry_parts (sx_Path e'))) es \<Longrightarrow>
    \<forall>e \<in> set es. entry_parts (sx_Path e) \<noteq> [] \<and> ascii_mime (sx_Path e) \<Longrightarrow>
    \<forall>ps x. look_tree cs ps = Some x \<longrightarrow> (\<forall>e \<in> set es. apart ps (entry_parts (sx_Path e))) \<Longrightarrow>
    trees_ok L cs \<Longrightarrow> distinct (map fst cs) \<Longrightarrow>
    \<exists>cs'. stream_tree L M alg mb chunks es cs = Inr cs' \<and> trees_ok L cs' \<and> distinct (map fst cs') \<and>
      (\<forall>e \<in> set es. look_tree cs' (entry_parts (sx_Path e)) = Some (entry_mid L M alg mb chunks e, entry_size chunks e)) \<and>
      (\<forall>ps x. look_tree cs ps = Some x \<longrightarrow> look_tree cs' ps = Some x)"
proof (induction es arbitrary: cs)
  case (Cons e es)
  let ?p = "entry_parts (sx_Path e)" and ?m = "entry_mid L M alg mb chunks e" and ?z = "entry_size chunks e"
  have "look_tree cs (take k ?p) = None" for k
  proof (rule ccontr)
    assume "look_tree cs (take k ?p) \<noteq> None"
    then have "apart (take k ?p) ?p" using Cons.prems(3) by auto
    then show False by (simp add: apart_def take_is_prefix)
  qed
  then obtain cs1 where cs1: "tree_insert ?p ?m ?z cs = Inr cs1" using insert_ok [of ?p cs ?m ?z] by blast
  have names: "\<forall>s \<in> set ?p. good_name s \<and> ascii_mime s"
    using entry_parts_good [of _ "sx_Path e"] Cons.prems(2) by (fastforce simp: ascii_mime_def)
  have m: "mid_wf L ?m" "m_codec ?m = CodecMemFS" using codec_mid_ok [OF assms] by (simp_all add: entry_mid_def)
  have wf: "trees_ok L cs1" "distinct (map fst cs1)" using insert_wf [OF cs1 Cons.prems(4,5) names m] by simp_all
  have here: "look_tree cs1 ?p = Some (?m, ?z)" using insert_same [OF _ cs1] Cons.prems(2) by simp
  have sep: "apart ps (entry_parts (sx_Path e'))" if "look_tree cs1 ps = Some x" "e' \<in> set es" for ps x e'
    using insert_only [OF cs1 that(1)] Cons.prems(1,3) that(2) by (cases x) auto
  have old: "look_tree cs1 ps = Some x" if "look_tree cs ps = Some x" for ps x
    using insert_other [OF cs1, of ps] Cons.prems(3) that by (cases x) (auto simp: apart_def)
  have rest: "sorted_wrt (\<lambda>e e'. apart (entry_parts (sx_Path e)) (entry_parts (sx_Path e'))) es"
    "\<forall>e \<in> set es. entry_parts (sx_Path e) \<noteq> [] \<and> ascii_mime (sx_Path e)" using Cons.prems(1,2) by simp_all
  obtain cs' where
    cs': "stream_tree L M alg mb chunks es cs1 = Inr cs'" "trees_ok L cs'" "distinct (map fst cs')"
      "\<forall>e \<in> set es. look_tree cs' (entry_parts (sx_Path e)) = Some (entry_mid L M alg mb chunks e, entry_size chunks e)"
      "\<forall>ps x. look_tree cs1 ps = Some x \<longrightarrow> look_tree cs' ps = Some x"
    using Cons.IH [OF rest _ wf] sep by blast
  with cs1 here old show ?case by auto
qed simp

section \<open>Storing and reading a stream\<close>

lemma ascii_SniffMime: "ascii_mime (SniffMime n)"
  by (simp add: SniffMime_def ascii_mime_def Let_def)

lemma stream_opts_mime [simp]: "ascii_mime (fo_mime (stream_opts mb e))"
  by (simp add: stream_opts_def Let_def ascii_SniffMime)

text \<open>
  AddFile as AddDirectoryStream calls it, over opened chunkers; \<open>sched\<close> is the interleaving of the goroutines
  of each call.
\<close>

definition AddFile_op ::
    "hashlib \<Rightarrow> marshaller \<Rightarrow> u64 \<Rightarrow> 's put_op \<Rightarrow> 's putbatch_op \<Rightarrow> (ObjectInfo \<Rightarrow> bytes result) \<Rightarrow> 's putmeta_op
     \<Rightarrow> ('c \<Rightarrow> Block result \<times> 'c) \<Rightarrow> int \<Rightarrow> nat \<Rightarrow> ('s \<Rightarrow> 'c \<Rightarrow> file_action list) \<Rightarrow> ('s, 'c) addfile_op" where
  "AddFile_op L M alg put putbatch json putmeta next mb fuel sched s name c mode mt mime =
     (case AddFile L M alg put putbatch json putmeta next
             \<lparr>fo_name = name, fo_mode = mode, fo_mtime = mt, fo_mime = mime, fo_maxBlk = mb\<rparr> fuel (sched s c) (Some s) (Some c) of
        None \<Rightarrow> (Inl (Msg ''not a complete run''), s)
      | Some (r, so) \<Rightarrow> (r, the so))"

text \<open>The contents of all blocks that the upload writes.\<close>

definition entry_items :: "hashlib \<Rightarrow> marshaller \<Rightarrow> u64 \<Rightarrow> int \<Rightarrow> ('r \<Rightarrow> bytes list) \<Rightarrow> 'r StreamEntry \<Rightarrow> (u64 \<times> bytes) set" where
  "entry_items L M alg mb chunks e = file_items L M alg (stream_opts mb e) (chunks (sx_R e))"

definition stream_blocks :: "hashlib \<Rightarrow> marshaller \<Rightarrow> u64 \<Rightarrow> int \<Rightarrow> ('r \<Rightarrow> bytes list) \<Rightarrow> 'r StreamEntry list \<Rightarrow> bytes set" where
  "stream_blocks L M alg mb chunks es =
     (\<Union>e \<in> set es. file_blocks L M alg (stream_opts mb e) (chunks (sx_R e))) \<union>
     (case stream_tree L M alg mb chunks es [] of Inl _ \<Rightarrow> {} | Inr cs \<Rightarrow> tree_blobs L M alg (TDir cs))"

context file_builder begin

text \<open>What is required of an entry: its chunker is ready, the fuel suffices, and the schedule is complete.\<close>

definition entry_runs :: "marshaller \<Rightarrow> (ObjectInfo \<Rightarrow> bytes result) \<Rightarrow> int \<Rightarrow> nat \<Rightarrow> ('s \<Rightarrow> 'c \<Rightarrow> file_action list) \<Rightarrow> 'c StreamEntry \<Rightarrow> bool" where
  "entry_runs M json mb fuel sched e \<longleftrightarrow> cinv (sx_R e) \<and> length (concat (chunks (sx_R e))) < 2 ^ 63 \<and> length (chunks (sx_R e)) < fuel \<and>
     (\<forall>s. sinv s \<longrightarrow> AddFile L M alg put putbatch json putmeta Next (stream_opts mb e) fuel (sched s (sx_R e)) (Some s) (Some (sx_R e)) \<noteq> None)"

lemma AddFile_op_stores:
  assumes "hashlib_ok L" "memfs_proto_ok P M" "\<And>info. is_ok (json info)" "no_clash L alg D" "st.kept X s"
    "snd ` X \<union> file_blocks L M alg (stream_opts mb e) (chunks (sx_R e)) \<subseteq> D" "entry_runs M json mb fuel sched e"
    "n = last (entry_parts (sx_Path e))"
  shows "\<exists>s' res. AddFile_op L M alg put putbatch json putmeta Next mb fuel sched s n (sx_R e) 420 0 (SniffMime n) = (Inr res, s') \<and>
    ar_MID res = entry_mid L M alg mb chunks e \<and> ar_Size res = entry_size chunks e \<and> st.kept (X \<union> entry_items L M alg mb chunks e) s'"
proof -
  note run = assms(7) [unfolded entry_runs_def]
  have fo: "\<lparr>fo_name = n, fo_mode = 420, fo_mtime = 0, fo_mime = SniffMime n, fo_maxBlk = mb\<rparr> = stream_opts mb e"
    by (simp add: stream_opts_def assms(8) Let_def)
  obtain r where r: "AddFile L M alg put putbatch json putmeta Next (stream_opts mb e) fuel (sched s (sx_R e)) (Some s) (Some (sx_R e)) = Some r"
    using run st.kept_invar [OF assms(5)] by blast
  have D: "no_clash L alg (snd ` X \<union> file_blocks L M alg (stream_opts mb e) (chunks (sx_R e)))"
    using assms(4,6) unfolding no_clash_def by (rule inj_on_subset)
  from AddFile_stores [where json = json, OF assms(1,2) stream_opts_mime assms(3,5) _ D _ _ r] run show ?thesis
    by (auto simp: AddFile_op_def fo r file_mid_def entry_mid_def entry_size_def entry_items_def)
qed

lemma stream_files_store:
  assumes "hashlib_ok L" "memfs_proto_ok P M" "\<And>info. is_ok (json info)" "no_clash L alg D"
  shows "\<forall>e \<in> set es. entry_runs M json mb fuel sched e \<and> entry_parts (sx_Path e) \<noteq> [] \<and>
      file_blocks L M alg (stream_opts mb e) (chunks (sx_R e)) \<subseteq> D \<Longrightarrow>
    stream_tree L M alg mb chunks es cs = Inr cs' \<Longrightarrow> st.kept X s \<Longrightarrow> snd ` X \<subseteq> D \<Longrightarrow>
    \<exists>s'. stream_files (AddFile_op L M alg put putbatch json putmeta Next mb fuel sched) es cs s = (Inr cs', s') \<and>
      st.kept (X \<union> (\<Union>e \<in> set es. entry_items L M alg mb chunks e)) s'"
proof (induction es arbitrary: cs X s)
  case (Cons e es)
  let ?n = "last (entry_parts (sx_Path e))" and ?X = "X \<union> entry_items L M alg mb chunks e"
  have e: "entry_runs M json mb fuel sched e" "entry_parts (sx_Path e) \<noteq> []"
      "snd ` X \<union> file_blocks L M alg (stream_opts mb e) (chunks (sx_R e)) \<subseteq> D" using Cons.prems(1,4) by simp_all
  from AddFile_op_stores [where json = json, OF assms Cons.prems(3) e(3,1) refl] obtain s1 res where
    s1: "AddFile_op L M alg put putbatch json putmeta Next mb fuel sched s ?n (sx_R e) 420 0 (SniffMime ?n) = (Inr res, s1)"
      "ar_MID res = entry_mid L M alg mb chunks e" "ar_Size res = entry_size chunks e" "st.kept ?X s1" by blast
  obtain cs1 where cs1: "tree_insert (entry_parts (sx_Path e)) (entry_mid L M alg mb chunks e) (entry_size chunks e) cs = Inr cs1"
      "stream_tree L M alg mb chunks es cs1 = Inr cs'"
    using Cons.prems(2) by (auto split: sum.splits)
  have "snd ` ?X \<subseteq> D" using e(3) by (simp add: image_Un entry_items_def snd_file_items)
  from Cons.IH [OF _ cs1(2) s1(4) this] Cons.prems(1) obtain s2 where
    "stream_files (AddFile_op L M alg put putbatch json putmeta Next mb fuel sched) es cs1 s1 = (Inr cs', s2)"
    "st.kept (?X \<union> (\<Union>e \<in> set es. entry_items L M alg mb chunks e)) s2" by auto
  with s1 cs1(1) e(2) show ?case by (auto simp: Let_def Un_assoc)
qed simp

lemma stream_stores:
  assumes "hashlib_ok L" "memfs_proto_ok P M" "memfs_dir_ok P M" "\<And>info. is_ok (json info)" "sinv s" "es \<noteq> []"
    "no_clash L alg (stream_blocks L M alg mb chunks es)" "\<And>t. reordered t (order t)"
    "sorted_wrt (\<lambda>e e'. apart (entry_parts (sx_Path e)) (entry_parts (sx_Path e'))) es"
    "\<forall>e \<in> set es. entry_parts (sx_Path e) \<noteq> [] \<and> ascii_mime (sx_Path e)" "\<forall>e \<in> set es. entry_runs M json mb fuel sched e"
  shows "\<exists>cs root s'. AddDirectoryStream (AddFile_op L M alg put putbatch json putmeta Next mb fuel sched)
      (AddDir_op L M alg put json putmeta) order (Some s) es = (Inr root, Some s') \<and>
    ar_MID root = codec_mid L alg CodecMemFS (dir_blob M (tree_entries L M alg cs)) \<and> trees_ok L cs \<and> distinct (map fst cs) \<and>
    (\<forall>e \<in> set es. look_tree cs (entry_parts (sx_Path e)) = Some (entry_mid L M alg mb chunks e, entry_size chunks e)) \<and>
    st.kept ((\<Union>e \<in> set es. entry_items L M alg mb chunks e) \<union> Pair CodecMemFS ` tree_blobs L M alg (TDir cs)) s'"
proof -
  let ?D = "stream_blocks L M alg mb chunks es" and ?X = "\<Union>e \<in> set es. entry_items L M alg mb chunks e"
  obtain cs where cs: "stream_tree L M alg mb chunks es [] = Inr cs" "trees_ok L cs" "distinct (map fst cs)"
      "\<forall>e \<in> set es. look_tree cs (entry_parts (sx_Path e)) = Some (entry_mid L M alg mb chunks e, entry_size chunks e)"
    using stream_tree_built [OF assms(1,9,10), of "[]" M alg mb chunks] by auto
  have D: "snd ` ?X \<union> tree_blobs L M alg (TDir cs) \<subseteq> ?D"
    by (auto simp: stream_blocks_def cs(1) image_UN entry_items_def snd_file_items simp del: tree_blobs.simps)
  have k0: "st.kept {} s" using assms(5) by (simp add: st.kept_def)
  have runs: "\<forall>e \<in> set es. entry_runs M json mb fuel sched e \<and> entry_parts (sx_Path e) \<noteq> [] \<and>
      file_blocks L M alg (stream_opts mb e) (chunks (sx_R e)) \<subseteq> ?D" using assms(10,11) by (auto simp: stream_blocks_def)
  obtain s1 where
    s1: "stream_files (AddFile_op L M alg put putbatch json putmeta Next mb fuel sched) es [] s = (Inr cs, s1)" "st.kept ?X s1"
    using stream_files_store [where json = json and X = "{}", OF assms(1,2,4,7) runs cs(1) k0] by auto
  define t where "t = order (TDir cs)"
  have "tree_ok L (TDir cs)" using cs(2,3) by simp
  from reordered_same [OF assms(8) this] have t: "tree_ok L t" "tree_entry L M alg n t = tree_entry L M alg n (TDir cs)"
      "tree_blobs L M alg t = tree_blobs L M alg (TDir cs)" for n unfolding t_def by blast+
  obtain s2 blk where b: "buildDir (AddDir_op L M alg put json putmeta) [] t s1 =
      (Inr (dv_Mid (tree_entry L M alg [] t), dv_Size (tree_entry L M alg [] t), blk), s2)"
      "st.kept (?X \<union> Pair CodecMemFS ` tree_blobs L M alg t) s2"
    using st.buildDir_stores(1) [where json = json, OF assms(1,3,4,7) s1(2) _ t(1), of "[]"] D unfolding t(3) by blast
  have "AddDirectoryStream (AddFile_op L M alg put putbatch json putmeta Next mb fuel sched)
      (AddDir_op L M alg put json putmeta) order (Some s) es =
      (Inr \<lparr>ar_MID = dv_Mid (tree_entry L M alg [] t), ar_Size = dv_Size (tree_entry L M alg [] t), ar_Block = blk\<rparr>, Some s2)"
    using assms(6) s1(1) b(1) by (simp add: AddDirectoryStream_def t_def)
  with b(2) cs(2-4) t(2,3) show ?thesis by (intro exI [of _ cs]) simp
qed

text \<open>Each entry is found under its path, and reads as its stream.\<close>

lemma stream_reads:
  assumes "hashlib_ok L" "mh_code_first L" "memfs_proto_ok P M" "memfs_dir_ok P M" "trees_ok L cs" "distinct (map fst cs)"
    "st.kept Y s" "entry_items L M alg mb chunks e \<union> Pair CodecMemFS ` tree_blobs L M alg (TDir cs) \<subseteq> Y"
    "look_tree cs (entry_parts (sx_Path e)) = Some (entry_mid L M alg mb chunks e, sz)" "entry_parts (sx_Path e) \<noteq> []"
    "entry_runs M json mb fuel sched e" "2 * length (concat (chunks (sx_R e))) < k" "0 < len"
  shows "\<exists>n r. ResolvePath L P (Some (get s)) (codec_mid L alg CodecMemFS (dir_blob M (tree_entries L M alg cs)))
      (join_path (entry_parts (sx_Path e))) = Inr n \<and> newReader L P (get s) fuel n = Some (Inr r) \<and>
    read_all (get s) len k r = (concat (chunks (sx_R e)), Some io_EOF)"
proof -
  let ?ds = "chunks (sx_R e)" and ?ps = "entry_parts (sx_Path e)" and ?m = "entry_mid L M alg mb chunks e"
  note run = assms(11) [unfolded entry_runs_def]
  have ne: "[] \<notin> set ?ds" using ch.chunk_bounds run by blast
  obtain r where r: "memfs_Open L P (Some (get s)) fuel ?m = Some (Inr r)" "reader_at (get s) ?ds r" "fr_pos r = 0"
    using st.kept_opens [OF assms(1-3) stream_opts_mime assms(7) _ ne, of mb e fuel] assms(8) run
    by (auto simp: entry_mid_def entry_items_def)
  then obtain n where n: "memfs_Resolve L P (Some (get s)) ?m = Inr n" "newReader L P (get s) fuel n = Some (Inr r)"
    by (auto simp: memfs_Open_def split: sum.splits if_splits)
  have dirs: "get s (codec_mid L alg CodecMemFS d) = Inr d" if "d \<in> tree_blobs L M alg (TDir cs)" for d
    using st.kept_get [OF assms(1,7), of CodecMemFS d] assms(8) that by blast
  have root: "memfs_Resolve L P (Some (get s)) (codec_mid L alg CodecMemFS (dir_blob M (tree_entries L M alg cs))) =
      Inr (dir_node (sortDirEntries (tree_entries L M alg cs)) 493 0)"
    by (rule resolve_dir [OF assms(1,4,5)]) (simp add: dirs)
  have "descend L P (Some (get s)) ?ps (dir_node (sortDirEntries (tree_entries L M alg cs)) 493 0) = Inr n"
    by (rule descend_tree [OF assms(1,2,4,9,5,6) _ n(1)]) (simp add: dirs)
  moreover have good: "\<forall>x \<in> set ?ps. good_name x" using entry_parts_good(1) by blast
  then have "join_path ?ps \<noteq> []" using join_path_eq_Nil [of ?ps] assms(10) by (auto simp: good_name_def)
  ultimately have "ResolvePath L P (Some (get s)) (codec_mid L alg CodecMemFS (dir_blob M (tree_entries L M alg cs))) (join_path ?ps) = Inr n"
    using root splitPath_join [OF good] by (simp add: ResolvePath_def)
  moreover have "length ?ds \<le> length (concat ?ds)" using ne by (intro length_concat_ge) auto
  then have "to_read ?ds r < k" using assms(12) by (simp add: to_read_def)
  then have "read_all (get s) len k r = (concat ?ds, Some io_EOF)" using read_all_rest [OF r(2) assms(13)] r(3) by simp
  ultimately show ?thesis using n(2) by blast
qed

end

end
