(* ===== verification/MemfsUpload.thy ===== *)
theory MemfsUpload
  imports MemfsStream
begin

text \<open>
  The round trip of a directory over the persistent store: AddDirectoryStream of src/core/memfs/builder.go, then ResolvePath of
  resolver.go and the reader of reader.go, with a marshaller for directories that meets the requirements.
\<close>

section \<open>A marshaller for files and directories\<close>

definition demo_entry :: "DirEntry option \<Rightarrow> bytes" where
  "demo_entry e = (case e of None \<Rightarrow> [] | Some d \<Rightarrow>
     demo_bytes (bytes_of_string (de_Name d)) @ demo_bytes (de_Mid d) @ PutUint64 (ucast (de_Type d)) @ PutUint64 (de_Size d))"

fun take_entries :: "nat \<Rightarrow> bytes \<Rightarrow> DirEntry option list option" where
  "take_entries 0 bs = None"
| "take_entries (Suc n) bs =
     (if bs = [] then Some []
      else case take_bytes bs of None \<Rightarrow> None | Some (name, r) \<Rightarrow>
        (case take_bytes r of None \<Rightarrow> None | Some (m, r1) \<Rightarrow>
           map_option (\<lambda>es. Some \<lparr>de_Name = string_of_bytes name, de_Mid = m, de_Type = ucast (Uint64 (take 8 r1)),
               de_Size = Uint64 (take 8 (drop 8 r1))\<rparr> # es) (take_entries n (drop 16 r1))))"

definition demo_dirs :: marshaller where
  "demo_dirs n =
     (if fn_Type n = MemFSType_DIR
      then Some (2 # PutUint64 (ucast (fn_Mode n)) @ PutUint64 (fn_Mtime n) @ concat (map demo_entry (fn_Entries n)))
      else demo_marshal n)"

definition demo_undirs :: "bytes \<Rightarrow> MemFSNode option" where
  "demo_undirs bs =
     (case bs of [] \<Rightarrow> None | t # r \<Rightarrow>
        if t \<noteq> 2 then demo_unmarshal bs
        else map_option (\<lambda>es. (file_node 0 [])\<lparr>fn_Type := MemFSType_DIR, fn_Mode := ucast (Uint64 (take 8 r)),
               fn_Mtime := Uint64 (take 8 (drop 8 r)), fn_Entries := es\<rparr>)
             (take_entries (Suc (length r)) (drop 16 r)))"

definition demo_tree_fs :: protolib where
  "demo_tree_fs = demo_proto\<lparr>pb_MemFSNode_Unmarshal := demo_undirs\<rparr>"

lemma type_word: "ucast (ucast (t :: 32 word) :: u64) = t"
  by (simp add: unsigned_ucast_eq take_bit_word_eq_self)

lemma take_demo_entries:
  "None \<notin> set es \<Longrightarrow> length es < n \<Longrightarrow> take_entries n (concat (map demo_entry es)) = Some es"
proof (induction es arbitrary: n)
  case Nil
  then show ?case by (cases n) simp_all
next
  case (Cons e es)
  then obtain k x where "n = Suc k" "e = Some x" by (cases n; cases e) auto
  with Cons show ?case by (simp add: demo_entry_def take_demo_bytes type_word) (simp add: demo_bytes_def)
qed

lemma length_demo_entries: "None \<notin> set es \<Longrightarrow> length es \<le> length (concat (map demo_entry es))"
  by (induction es) (auto simp: demo_entry_def demo_bytes_def split: option.splits)

lemma demo_tree_dirs: "memfs_dir_ok demo_tree_fs demo_dirs"
  unfolding memfs_dir_ok_def
proof (intro allI impI)
  fix n assume n: "plain_dir n"
  let ?es = "concat (map demo_entry (fn_Entries n))"
  define r where "r = PutUint64 (ucast (fn_Mode n)) @ PutUint64 (fn_Mtime n) @ ?es"
  have ne: "None \<notin> set (fn_Entries n)" using n by (auto simp: plain_dir_def)
  have m: "demo_dirs n = Some (2 # r)" using n by (simp add: demo_dirs_def plain_dir_def r_def)
  have f: "take 8 r = PutUint64 (ucast (fn_Mode n))" "take 8 (drop 8 r) = PutUint64 (fn_Mtime n)" "drop 16 r = ?es"
    by (simp_all add: r_def)
  have "length (fn_Entries n) < Suc (length r)" using length_demo_entries [OF ne] by (simp add: r_def)
  then have es: "take_entries (Suc (length r)) (drop 16 r) = Some (fn_Entries n)"
    unfolding f(3) by (rule take_demo_entries [OF ne])
  have "demo_undirs (2 # r) = Some n"
    using n unfolding demo_undirs_def list.case es f(1,2) by (simp add: type_word plain_dir_def file_node_def)
  with m show "\<exists>raw. demo_dirs n = Some raw \<and> raw \<noteq> [] \<and> pb_MemFSNode_Unmarshal demo_tree_fs raw = Some n"
    by (simp add: demo_tree_fs_def)
qed

lemma demo_tree_files: "memfs_proto_ok demo_tree_fs demo_dirs"
  unfolding memfs_proto_ok_def
proof (intro allI impI)
  fix n assume n: "plain_file n"
  then obtain raw where raw: "demo_marshal n = Some raw" "raw \<noteq> []" "demo_unmarshal raw = Some n"
    using demo_fs_ok by (auto simp: memfs_proto_ok_def demo_fs_def)
  then have "demo_dirs n = Some raw" "demo_undirs raw = Some n"
    using n by (auto simp: demo_dirs_def demo_undirs_def demo_unmarshal_def plain_file_def MemFSType_FILE_def MemFSType_DIR_def split: list.splits if_splits)
  with raw(2) show "\<exists>raw. demo_dirs n = Some raw \<and> raw \<noteq> [] \<and> pb_MemFSNode_Unmarshal demo_tree_fs raw = Some n"
    by (simp add: demo_tree_fs_def)
qed

section \<open>Uploading a directory\<close>


text \<open>An upload of the files d/f and g.\<close>

lemma reordered_refl: "reordered t t"
proof (induction t)
  case (TDir cs)
  have "list_all2 (\<lambda>x y. fst x = fst y \<and> reordered (snd x) (snd y)) cs cs"
    by (rule list.rel_refl_strong) (use TDir in \<open>auto simp: snds.simps\<close>)
  then show ?case by (rule reordered.same_dir) simp
qed (rule reordered.same_file)

definition second_reader :: reader where
  "second_reader = \<lparr>r_script = [([9], None)], r_closed = False\<rparr>"

definition demo_chunker :: "reader \<Rightarrow> fixedChunker" where
  "demo_chunker rd = \<lparr>f_r = rd, f_size = 1024, f_bufPtr = True, f_eofSeen = False, f_closed = False\<rparr>"

definition demo_upload :: "fixedChunker StreamEntry list" where
  "demo_upload = [\<lparr>sx_Path = ''d//f'', sx_Size = 3, sx_R = demo_chunker demo_reader\<rparr>,
     \<lparr>sx_Path = ''./g'', sx_Size = 1, sx_R = demo_chunker second_reader\<rparr>]"

lemma demo_chunker: "NewFixed 1024 (Some rd) = Inr (demo_chunker rd)"
  by (simp add: NewFixed_def MinBlockSize_def MaxBlockSize_def demo_chunker_def)

lemma demo_schedule:
  assumes "eof_only (r_script rd)" "length (stream (r_script rd)) < 7"
  shows "\<exists>A. \<forall>s. persist_inv demo_env map_of s \<longrightarrow>
    AddFile demo_lib demo_dirs mh_SHA2_256 (MemStore_Put demo_env) (MemStore_PutBatch demo_env) (\<lambda>_. Inr []) (MemStore_PutMeta demo_env)
      (fixed_Next demo_lib mh_SHA2_256) (stream_opts 1024 e) 7 (A s) (Some s) (Some (demo_chunker rd)) \<noteq> None"
proof (rule choice, intro allI)
  fix s
  have L: "hashlib_ok (se_lib demo_env)" by (simp add: demo_lib_ok)
  note f = NewFixed_ready [OF L demo_chunker assms(1)]
  have "concat (fixed_chunks (demo_chunker rd)) = stream (r_script rd)" unfolding f(2) by (rule groups_of_concat [OF f(3)])
  moreover have "length (fixed_chunks (demo_chunker rd)) < 7"
    using length_groups_stream [OF f(3), of "stream (r_script rd)"] assms(2) by (simp add: f(2))
  moreover have "no_clash (se_lib demo_env) (se_alg demo_env)
      (file_blocks (se_lib demo_env) demo_dirs (se_alg demo_env) (stream_opts 1024 e) (fixed_chunks (demo_chunker rd)))"
    using demo_hash_inj by (simp add: no_clash_def)
  ultimately show "\<exists>acts. persist_inv demo_env map_of s \<longrightarrow>
    AddFile demo_lib demo_dirs mh_SHA2_256 (MemStore_Put demo_env) (MemStore_PutBatch demo_env) (\<lambda>_. Inr []) (MemStore_PutMeta demo_env)
      (fixed_Next demo_lib mh_SHA2_256) (stream_opts 1024 e) 7 acts (Some s) (Some (demo_chunker rd)) \<noteq> None"
    using db_file_fixed.AddFile_completes [where acts = "[]" and json = "\<lambda>_. Inr []" and fuel = 7, OF L demo_tree_files stream_opts_mime _ _ f(1)] assms(2)
    by fastforce
qed


end
