(* ===== verification/Spec2Isabelle.thy ===== *)
theory Spec2Isabelle
  imports Parallel CountingBloom HashRing Semver MemnsResolver PersistContent SealLaws MemfsGC MemfsUpload
begin

text \<open>
  Membuss is a content-addressed storage network. A node cuts content into blocks (src/core/chunk), names
  each by a multihash identifier (src/core/mid), links the blocks of one object by a Merkle DAG
  (src/core/dag) or a file-system tree (src/core/memfs), and keeps everything in a Blockstore
  (src/core/store), in memory or in a Pebble database (src/core/db). Seals pin roots; a mark-and-sweep
  collector removes what no seal reaches. Mutable names point to content by signed records (src/core/memns,
  src/net/dht/validator.go), and rendezvous hashing places replicas (src/core/shard). This library models
  these parts and proves what they promise, alone and together.

  \<^bold>\<open>Conventions.\<close> A Go function is an Isabelle function of the same name, prefixed by its receiver
  where names clash. State is passed explicitly; a fallible function returns a sum with the error
  left, a mutating one its result and the new state, also when it fails. Errors are values of
  \<open>gerror\<close> with their wrapping; a panic is the error \<open>Panic\<close>. Fixed-width integers are words, so
  additions wrap as in Go; lengths are naturals, file positions integers with the wrap-around
  written out. A nil pointer or slice, where the code tells it apart, is \<open>None\<close>. Text in an error that
  only quotes its input is shortened.

  \<^bold>\<open>Code that is not in the repository\<close> is an argument: go-multihash and go-cid (record \<open>hashlib\<close>, Mid),
  the protobuf runtime (record \<open>protolib\<close>, Messages, and the marshallers of MemfsBuilder), Pebble (record
  \<open>pebble\<close>, PebbleDB), libp2p keys, DNS and the DHT (Memns, MemnsResolver), encoding/json. What the code
  relies on is a named predicate (\<open>hashlib_ok\<close>, \<open>pebble_ok\<close>, \<open>memfs_proto_ok\<close>, \<open>memfs_dir_ok\<close>, ...); a
  concrete instance (\<open>demo_lib\<close>, \<open>demo_pebble\<close>, \<open>demo_fs\<close>, ...) meets each of them in the witnesses.
  The standard library's SHA-256, big-endian integers, strings, paths, base64 and io.Reader are
  modelled (Sha256, Prelude, GoStrings, MemfsDirs, Reader).

  \<^bold>\<open>Identifiers and blocks.\<close> Mid models src/core/mid/mid.go; printed identifiers are parsed back and
  whatever is accepted has one canonical form. Chunk, FastCDC and Rabin model src/core/chunk: each
  chunker is its state and \<open>Next\<close>, its output is a reference split of the stream, however the reader cuts
  the stream into reads. The locale \<open>chunker\<close> (Chunk) is the contract; all three interpret it.

  \<^bold>\<open>Stores.\<close> Messages holds the protobuf messages, Blockstore the interface of src/core/store/store.go
  with the contract of Put and Get as the locale \<open>blockstore\<close>. Memstore is the store in memory. The persistent store is
  PebbleDB (src/core/db/db.go), CountingBloom and StoreIndex (the Bloom index and the write tracker), Pebblestore
  (pebble.go) and Collector (seal.go); StoreLaws, StoreRun, CollectorLaws and SealLaws hold its guarantees. Shown
  are the functional behaviour of every operation on success and failure, an invariant along
  arbitrary runs in which any step may fail, that the Bloom index never hides a stored block, that a
  collection removes exactly what no sealed root reaches, and that it spares concurrent raw writes.
  Both stores interpret \<open>blockstore\<close>. Walk models the reachability walk of walk.go; its locale
  \<open>linked_blocks\<close> is interpreted for the walk and for the recursive deletion.

  \<^bold>\<open>DAGs.\<close> Dag, Resolver and Parallel model src/core/dag: the streaming builder refines a level-by-level
  reduction, the parallel builder equals it for every schedule, the resolver inverts it and Stat
  measures it. The locale \<open>dag_builder\<close> combines a store and a chunker; Content interprets it on the
  memory store with each chunker, PersistContent on the database.

  \<^bold>\<open>Files and directories.\<close> Memfs models the nodes, path lookup and reader of src/core/memfs, MemfsBuilder
  the level stack, AddFile with its producer, workers and consumer, AddDir and AddSymlink, MemfsDirs the
  ingestion of directories and the object descriptors. A schedule of AddFile is a list of actions,
  each the flush of a worker's batch or the receipt of a result. MemfsTree describes the tree of nodes as a
  function of the chunks; MemfsLaws (locale \<open>file_store\<close>, an extension of \<open>blockstore\<close>) shows that the
  level stack stores that tree and MemfsFile (locale \<open>file_builder\<close>) that every schedule does so and that
  Open, Read and Seek return the bytes. MemfsStores interprets both locales on both stores, MemfsProps
  states the round trip and that no schedule gets stuck, MemfsGC that the collector makes sealed files
  of one chunk unreadable. MemfsDirLaws and MemfsTreeLaws treat the directory tree that a stream of paths
  describes and the DIR nodes stored for it, independent of Go's map order; MemfsStream and MemfsUpload
  show that each file of an uploaded directory is found under its path and reads as it was sent.

  \<^bold>\<open>Names and placement.\<close> Memns models records, their signatures, the DHT's validation and choice of
  records and the record cache; MemnsResolver the recursive resolution, routes and subscriptions: the
  caches are transparent, chains are followed, loops are detected, and a forged owner is accepted.
  HashRing models replica placement with the real SHA-256: bounds, independence of history, diversity
  of domains, and minimal disruption when a peer leaves. Semver models the updater's version order.

  \<^bold>\<open>Loops and fuel.\<close> Recursion over stored links (Walk, Resolver, flattenFileBlocks) and reading a chunker
  to its end may not end in the code, so these take fuel and \<open>None\<close> means it ran out. The theorems
  give a bound that suffices: the number of reachable blocks for a walk, the number of chunks or the
  height of the tree for building and reading. All other loops have termination proofs. Go's
  unspecified map orders and the interleaving of goroutines are arguments, quantified in the theorems.

  \<^bold>\<open>Not modelled:\<close> the erasure coding of AddFile and src/core/erasure (a third-party codec), the network
  protocols of src/net except the record validation, the daemon, its APIs, gateways and the desktop
  application (I/O and glue), the edge runtimes, anchors, configuration, metrics and generated
  accessors. Timing is modelled only where the code reads a clock, as an argument.
\<close>

end
